(* ===== verification/Matrix_Prelude.thy ===== *)
theory Matrix_Prelude
  imports Complex_Main "HOL-Library.Word" "HOL-Library.Monad_Syntax" "HOL-Library.Multiset"
begin

unbundle bit_operations_syntax

text \<open>
  Shared vocabulary of the development. A Go computation that may panic is a value of
  type \<open>'a option\<close>, with \<open>None\<close> for the panic (for the loops written with
  \<open>partial_function (option)\<close> also for "does not return"). Slices are lists; an index
  expression reads and writes through \<open>slice_get\<close> and \<open>slice_set\<close>, which are
  \<open>None\<close> outside the bounds as Go's run-time check is. A \<open>for range\<close> loop whose body
  may panic is \<open>fold_opt\<close>.
\<close>

named_theorems slice_simps \<open>evaluation of slice accesses that are in range\<close>
named_theorems lift_simps \<open>values of panicking computations under the data-structure invariants\<close>

section \<open>Slices\<close>

definition slice_get :: "'a list \<Rightarrow> nat \<Rightarrow> 'a option" where
  "slice_get xs i = (if i < length xs then Some (xs ! i) else None)"

definition slice_set :: "'a list \<Rightarrow> nat \<Rightarrow> 'a \<Rightarrow> 'a list option" where
  "slice_set xs i x = (if i < length xs then Some (xs[i := x]) else None)"

definition slice_upd :: "'a list \<Rightarrow> nat \<Rightarrow> ('a \<Rightarrow> 'a) \<Rightarrow> 'a list option" where
  "slice_upd xs i f = do { x \<leftarrow> slice_get xs i; slice_set xs i (f x) }"

text \<open>An index held in a Go \<open>int\<close> variable: a negative value panics too.\<close>

definition nat_index :: "int \<Rightarrow> nat option" where
  "nat_index i = (if 0 \<le> i then Some (nat i) else None)"

lemma slice_get_in [slice_simps]: "i < length xs \<Longrightarrow> slice_get xs i = Some (xs ! i)"
  by (simp add: slice_get_def)

lemma slice_set_in [slice_simps]: "i < length xs \<Longrightarrow> slice_set xs i x = Some (xs[i := x])"
  by (simp add: slice_set_def)

lemma slice_upd_in [slice_simps]: "i < length xs \<Longrightarrow> slice_upd xs i f = Some (xs[i := f (xs ! i)])"
  by (simp add: slice_upd_def slice_simps)

lemma nat_index_of_nat [slice_simps]: "nat_index (int i) = Some i"
  by (simp add: nat_index_def)

lemma slice_get_Some_iff: "slice_get xs i = Some x \<longleftrightarrow> i < length xs \<and> x = xs ! i"
  by (auto simp: slice_get_def)

lemma slice_set_Some_iff: "slice_set xs i x = Some ys \<longleftrightarrow> i < length xs \<and> ys = xs[i := x]"
  by (auto simp: slice_set_def)

lemma slice_upd_Some_iff: "slice_upd xs i f = Some ys \<longleftrightarrow> i < length xs \<and> ys = xs[i := f (xs ! i)]"
  by (auto simp: slice_upd_def slice_get_def slice_set_def)

lemmas slice_Some_iffs = slice_get_Some_iff slice_set_Some_iff slice_upd_Some_iff bind_eq_Some_conv

section \<open>Loops whose body may panic\<close>

primrec fold_opt :: "('a \<Rightarrow> 's \<Rightarrow> 's option) \<Rightarrow> 'a list \<Rightarrow> 's \<Rightarrow> 's option" where
  "fold_opt f [] s = Some s"
| "fold_opt f (x # xs) s = do { s' \<leftarrow> f x s; fold_opt f xs s' }"

lemma fold_opt_append:
  "fold_opt f (xs @ ys) s = do { s' \<leftarrow> fold_opt f xs s; fold_opt f ys s' }"
  by (induction xs arbitrary: s) (auto split: bind_splits)

text \<open>The rule for a counting invariant \<open>I\<close> over the elements already seen.\<close>

lemma fold_opt_rule:
  assumes "I [] s"
    and "\<And>ys x zs t. xs = ys @ x # zs \<Longrightarrow> I ys t \<Longrightarrow> \<exists>t'. f x t = Some t' \<and> I (ys @ [x]) t'"
  shows "\<exists>s'. fold_opt f xs s = Some s' \<and> I xs s'"
proof -
  have "\<exists>s'. fold_opt f ys s = Some s' \<and> I ys s'" if "xs = ys @ zs" for ys zs
    using that
  proof (induction ys arbitrary: zs rule: rev_induct)
    case Nil
    then show ?case using assms(1) by simp
  next
    case (snoc y ys)
    then obtain t where "fold_opt f ys s = Some t" "I ys t" by fastforce
    with assms(2) [of ys y zs t] snoc.prems show ?case
      by (auto simp: fold_opt_append)
  qed
  from this [of xs "[]"] show ?thesis by simp
qed

text \<open>A loop that never panics is an ordinary fold.\<close>

lemma fold_opt_Some [simp]: "fold_opt (\<lambda>x s. Some (f x s)) xs s = Some (fold f xs s)"
  by (induction xs arbitrary: s) auto

lemma fold_opt_cong_Some:
  assumes "\<And>x t. x \<in> set xs \<Longrightarrow> P t \<Longrightarrow> f x t = Some (h x t) \<and> P (h x t)"
    and "P s"
  shows "fold_opt f xs s = Some (fold h xs s) \<and> P (fold h xs s)"
  using assms by (induction xs arbitrary: s) auto

section \<open>Generic list facts\<close>

lemma mset_swap_upd:
  "i < length xs \<Longrightarrow> j < length xs \<Longrightarrow> mset (xs[i := xs ! j, j := xs ! i]) = mset xs"
  by (rule mset_swap)

lemma distinct_swap_upd:
  "i < length xs \<Longrightarrow> j < length xs \<Longrightarrow> distinct (xs[i := xs ! j, j := xs ! i]) = distinct xs"
  by (rule distinct_swap)

lemma set_swap_upd:
  "i < length xs \<Longrightarrow> j < length xs \<Longrightarrow> set (xs[i := xs ! j, j := xs ! i]) = set xs"
  by (rule set_swap)

lemma nth_swap_upd:
  assumes "i < length xs" "j < length xs" "k < length xs"
  shows "xs[i := xs ! j, j := xs ! i] ! k = (if k = j then xs ! i else if k = i then xs ! j else xs ! k)"
  using assms by (simp add: nth_list_update)

lemma of_nat_eq_word_iff:
  assumes "i < 2 ^ LENGTH('w)" "j < 2 ^ LENGTH('w)"
  shows "(of_nat i :: 'w::len word) = of_nat j \<longleftrightarrow> i = j"
  using assms by (metis mod_less unat_of_nat)

section \<open>Rounding division up\<close>

text \<open>The property of a rounded-up quotient that every lower bound of the planner uses.\<close>

lemma ceil_quotient_le:
  fixes a b k :: int
  assumes "0 < b" "a \<le> b * k"
  shows "(a + b - 1) div b \<le> k"
proof -
  have "(a + b - 1) div b \<le> (b * k + (b - 1)) div b"
    using assms by (intro zdiv_mono1) auto
  also have "\<dots> = k" using assms(1) by (simp add: div_pos_pos_trivial)
  finally show ?thesis .
qed

lemma ceil_quotient_ge:
  fixes a b :: int
  assumes "0 < b"
  shows "a \<le> b * ((a + b - 1) div b)"
proof -
  have "(a + b - 1) = b * ((a + b - 1) div b) + (a + b - 1) mod b" by simp
  moreover have "(a + b - 1) mod b < b" using assms by simp
  ultimately show ?thesis by linarith
qed

section \<open>Insertion sort in place\<close>

text \<open>
  The two hand-written sorts of the planner share one shape: carry the element at index
  \<open>k\<close> to the left until its left neighbour is in order with it.
\<close>

primrec sift_left :: "('a \<Rightarrow> 'a \<Rightarrow> bool) \<Rightarrow> nat \<Rightarrow> 'a list \<Rightarrow> 'a list" where
  "sift_left le 0 xs = xs"
| "sift_left le (Suc k) xs =
     (if le (xs ! k) (xs ! Suc k) then xs else sift_left le k (xs[k := xs ! Suc k, Suc k := xs ! k]))"

definition insertion_sort :: "('a \<Rightarrow> 'a \<Rightarrow> bool) \<Rightarrow> 'a list \<Rightarrow> 'a list" where
  "insertion_sort le xs = fold (sift_left le) [1..<length xs] xs"

lemma mset_sift_left: "k < length xs \<Longrightarrow> mset (sift_left le k xs) = mset xs"
  by (induction k arbitrary: xs) (auto simp: mset_swap_upd)

lemma length_sift_left [simp]: "length (sift_left le k xs) = length xs"
  by (induction k arbitrary: xs) auto

lemma fold_sift_left_invariant:
  assumes "\<forall>k \<in> set ks. k < length xs"
  shows "mset (fold (sift_left le) ks xs) = mset xs \<and> length (fold (sift_left le) ks xs) = length xs"
  using assms by (induction ks arbitrary: xs) (auto simp: mset_sift_left)

lemma mset_insertion_sort [simp]: "mset (insertion_sort le xs) = mset xs"
  by (simp add: insertion_sort_def fold_sift_left_invariant)

lemma length_insertion_sort [simp]: "length (insertion_sort le xs) = length xs"
  by (simp add: insertion_sort_def fold_sift_left_invariant)

lemma set_insertion_sort [simp]: "set (insertion_sort le xs) = set xs"
  by (metis mset_insertion_sort set_mset_mset)

text \<open>Everything up to \<open>m\<close> is in order, the element at \<open>k\<close> only with what follows it.\<close>

definition ordered_but :: "('a \<Rightarrow> 'a \<Rightarrow> bool) \<Rightarrow> nat \<Rightarrow> nat \<Rightarrow> 'a list \<Rightarrow> bool" where
  "ordered_but le k m xs \<longleftrightarrow>
     (\<forall>a b. a < b \<longrightarrow> b \<le> m \<longrightarrow> b \<noteq> k \<longrightarrow> le (xs ! a) (xs ! b))"

lemma ordered_but_swap:
  assumes "ordered_but le (Suc k) m xs" "\<not> le (xs ! k) (xs ! Suc k)" "Suc k \<le> m" "m < length xs"
    and total: "\<And>x y. le x y \<or> le y x"
  shows "ordered_but le k m (xs[k := xs ! Suc k, Suc k := xs ! k])"
proof -
  have "le (xs ! Suc k) (xs ! k)" using assms(2) total by blast
  with assms(1,3,4) show ?thesis
    unfolding ordered_but_def by (auto simp: nth_list_update less_Suc_eq)
qed

lemma ordered_but_done:
  assumes "ordered_but le (Suc k) m xs" "le (xs ! k) (xs ! Suc k)" "Suc k \<le> m"
    and trans: "\<And>x y z. le x y \<Longrightarrow> le y z \<Longrightarrow> le x z"
  shows "ordered_but le 0 m xs"
proof -
  have "le (xs ! a) (xs ! Suc k)" if "a < Suc k" for a
    using assms(1-3) that trans [of "xs ! a" "xs ! k" "xs ! Suc k"]
    by (cases "a = k") (auto simp: ordered_but_def)
  with assms(1) show ?thesis unfolding ordered_but_def by metis
qed

lemma sift_left_ordered:
  assumes "ordered_but le k m xs" "k \<le> m" "m < length xs"
    and total: "\<And>x y. le x y \<or> le y x" and trans: "\<And>x y z. le x y \<Longrightarrow> le y z \<Longrightarrow> le x z"
  shows "ordered_but le 0 m (sift_left le k xs)"
  using assms(1-3)
proof (induction k arbitrary: xs)
  case (Suc k)
  show ?case
  proof (cases "le (xs ! k) (xs ! Suc k)")
    case True
    then show ?thesis using ordered_but_done [OF Suc.prems(1) True Suc.prems(2) trans] by simp
  next
    case False
    then show ?thesis
      using Suc.IH [OF ordered_but_swap [OF Suc.prems(1) False Suc.prems(2,3) total]] Suc.prems by simp
  qed
qed simp

lemma sorted_insertion_sort:
  assumes total: "\<And>x y. le x y \<or> le y x" and trans: "\<And>x y z. le x y \<Longrightarrow> le y z \<Longrightarrow> le x z"
  shows "sorted_wrt le (insertion_sort le xs)"
proof -
  have "ordered_but le 0 m (fold (sift_left le) [1..<Suc m] xs)" if "m < length xs" for m
    using that
  proof (induction m)
    case 0
    then show ?case by (simp add: ordered_but_def)
  next
    case (Suc m)
    let ?ys = "fold (sift_left le) [1..<Suc m] xs"
    have len: "length ?ys = length xs"
      using Suc.prems fold_sift_left_invariant [of "[1..<Suc m]" xs le] by (auto simp del: upt_Suc)
    have "ordered_but le 0 m ?ys" using Suc.IH Suc.prems by simp
    then have "ordered_but le (Suc m) (Suc m) ?ys"
      by (auto simp: ordered_but_def less_Suc_eq le_Suc_eq)
    then have "ordered_but le 0 (Suc m) (sift_left le (Suc m) ?ys)"
      using Suc.prems len
      by (intro sift_left_ordered) (assumption | simp del: upt_Suc | rule total | (erule trans, assumption))+
    then show ?case by simp
  qed
  from this [of "length xs - 1"] show ?thesis
    by (cases xs) (auto simp: insertion_sort_def sorted_wrt_iff_nth_less ordered_but_def
        fold_sift_left_invariant simp del: upt_Suc)
qed

end
