(* ===== verification/Arc_Types.thy ===== *)
theory Arc_Types
  imports Matrix_Prelude "HOL-Library.Product_Lexorder"
begin

text \<open>
  The data model of \<open>internal/arccover\<close>: \<open>types.go\<close>, \<open>util.go\<close> and
  \<open>required_set.go\<close>. A \<open>VertexID\<close> and an \<open>EdgeID\<close> are 32-bit words; a Go
  \<open>int\<close> is an \<open>int\<close> (a \<open>nat\<close> where it is a length, an index or the vertex
  count). Fields of type \<open>time.Duration\<close> hold wall-clock measurements and are not
  modelled.
\<close>

section \<open>Vertices, edges, arcs\<close>

type_synonym vertex_id = "32 word"
type_synonym edge_id = "32 word"

definition InvalidVertex :: vertex_id where
  "InvalidVertex = NOT 0"

datatype arc = Arc (arc_id: edge_id) (arc_from: vertex_id) (arc_to: vertex_id)

definition arc_key :: "arc \<Rightarrow> vertex_id \<times> vertex_id \<times> edge_id" where
  "arc_key a = (arc_from a, arc_to a, arc_id a)"

text \<open>The comparison function that \<open>NormalizeRequired\<close> passes to \<open>sort.Slice\<close>.\<close>

definition arc_less :: "arc \<Rightarrow> arc \<Rightarrow> bool" where
  "arc_less a b =
     (if arc_from a \<noteq> arc_from b then arc_from a < arc_from b
      else if arc_to a \<noteq> arc_to b then arc_to a < arc_to b
      else arc_id a < arc_id b)"

lemma arc_key_inj: "arc_key a = arc_key b \<longleftrightarrow> a = b"
  by (cases a; cases b) (auto simp: arc_key_def)

lemma arc_less_key: "arc_less a b \<longleftrightarrow> arc_key a < arc_key b"
  by (auto simp: arc_less_def arc_key_def less_prod_def)

instantiation arc :: linorder
begin

definition less_arc :: "arc \<Rightarrow> arc \<Rightarrow> bool" where
  "less_arc a b = arc_less a b"

definition less_eq_arc :: "arc \<Rightarrow> arc \<Rightarrow> bool" where
  "less_eq_arc a b = (arc_less a b \<or> a = b)"

instance
  by standard (auto simp: less_arc_def less_eq_arc_def arc_less_key simp flip: arc_key_inj)

end

section \<open>Legs, routes, plans\<close>

datatype leg_kind = LegRequired | LegBridge

record leg =
  leg_from :: vertex_id
  leg_to :: vertex_id
  leg_kind :: leg_kind
  leg_edge :: edge_id

record route =
  legs :: "leg list"

definition route_start :: "route \<Rightarrow> vertex_id option" where
  "route_start r = map_option leg_from (slice_get (legs r) 0)"

definition route_end :: "route \<Rightarrow> vertex_id option" where
  "route_end r = do { i \<leftarrow> nat_index (int (length (legs r)) - 1); l \<leftarrow> slice_get (legs r) i; Some (leg_to l) }"

record plan_stats =
  required_edges :: int
  provider_calls :: int
  bridge_edges :: int
  duplicate_required_edges :: int
  single_pair_fallbacks :: int
  lower_bound :: int
  optimality_gap :: rat
  optimal :: bool
  cancelled :: bool
  branch :: string

definition zero_stats :: plan_stats where
  "zero_stats = \<lparr>required_edges = 0, provider_calls = 0, bridge_edges = 0,
     duplicate_required_edges = 0, single_pair_fallbacks = 0, lower_bound = 0,
     optimality_gap = 0, optimal = False, cancelled = False, branch = []\<rparr>"

record plan =
  routes :: "route list"
  stats :: plan_stats

record config =
  max_legs :: int
  dense_candidate_window :: int

definition DefaultConfig :: config where
  "DefaultConfig = \<lparr>max_legs = 17, dense_candidate_window = 8\<rparr>"

section \<open>Fragments\<close>

record fragment =
  frag_edges :: "arc list"
  frag_id :: int

definition fragment_start :: "fragment \<Rightarrow> vertex_id option" where
  "fragment_start f = map_option arc_from (slice_get (frag_edges f) 0)"

definition fragment_end :: "fragment \<Rightarrow> vertex_id option" where
  "fragment_end f =
     do { i \<leftarrow> nat_index (int (length (frag_edges f)) - 1); a \<leftarrow> slice_get (frag_edges f) i; Some (arc_to a) }"

definition fragment_len :: "fragment \<Rightarrow> nat" where
  "fragment_len f = length (frag_edges f)"

lemma fragment_start_nonempty [lift_simps]:
  "frag_edges f \<noteq> [] \<Longrightarrow> fragment_start f = Some (arc_from (hd (frag_edges f)))"
  by (simp add: fragment_start_def slice_simps hd_conv_nth)

lemma fragment_end_nonempty [lift_simps]:
  assumes "frag_edges f \<noteq> []"
  shows "fragment_end f = Some (arc_to (last (frag_edges f)))"
proof -
  have "nat_index (int (length (frag_edges f)) - 1) = Some (length (frag_edges f) - 1)"
    using assms by (simp add: nat_index_def nat_diff_distrib Suc_leI)
  with assms show ?thesis by (simp add: fragment_end_def slice_simps last_conv_nth)
qed

lemma fragment_end_empty: "frag_edges f = [] \<Longrightarrow> fragment_end f = None"
  by (simp add: fragment_end_def nat_index_def)

section \<open>Integer helpers\<close>

text \<open>Go's \<open>/\<close> truncates towards zero; the guards leave positive operands, where it is \<open>div\<close>.\<close>

definition ceilDiv :: "int \<Rightarrow> int \<Rightarrow> int" where
  "ceilDiv a b = (if b \<le> 0 then 0 else if a \<le> 0 then 0 else (a + b - 1) div b)"

definition maxInt :: "int \<Rightarrow> int \<Rightarrow> int" where
  "maxInt a b = (if a > b then a else b)"

definition minInt :: "int \<Rightarrow> int \<Rightarrow> int" where
  "minInt a b = (if a < b then a else b)"

lemma ceilDiv_le: "0 \<le> k \<Longrightarrow> a \<le> b * k \<Longrightarrow> ceilDiv a b \<le> k"
  by (simp add: ceilDiv_def ceil_quotient_le)

lemma ceilDiv_ge: "0 < b \<Longrightarrow> a \<le> b * ceilDiv a b"
  using ceil_quotient_ge [of b a] by (auto simp: ceilDiv_def)

lemma ceilDiv_nonneg: "0 \<le> ceilDiv a b"
  by (simp add: ceilDiv_def pos_imp_zdiv_nonneg_iff)

definition splitmix64 :: "64 word \<Rightarrow> 64 word" where
  "splitmix64 x0 =
     (let x = x0 + 0x9e3779b97f4a7c15;
          z1 = x;
          z2 = (z1 XOR drop_bit 30 z1) * 0xbf58476d1ce4e5b9;
          z3 = (z2 XOR drop_bit 27 z2) * 0x94d049bb133111eb
      in z3 XOR drop_bit 31 z3)"

section \<open>Normalising the required arcs\<close>

text \<open>
  \<open>EdgeID(i)\<close> truncates the index to 32 bits. \<open>sort.Slice\<close> is not stable, but its
  comparison function orders all three fields of an \<open>Arc\<close>, so every sorting algorithm
  returns the same slice; the library's \<open>sort\<close> on the instance above stands for it.
\<close>

definition AssignEdgeIDs :: "arc list \<Rightarrow> arc list" where
  "AssignEdgeIDs required =
     map (\<lambda>(i, a). Arc (of_nat i) (arc_from a) (arc_to a)) (enumerate 0 required)"

definition NormalizeRequired :: "arc list \<Rightarrow> arc list" where
  "NormalizeRequired required = AssignEdgeIDs (sort required)"

definition arc_ends :: "arc \<Rightarrow> vertex_id \<times> vertex_id" where
  "arc_ends a = (arc_from a, arc_to a)"

text \<open>Identifiers are positions: what \<open>AssignEdgeIDs\<close> establishes and the planner relies on.\<close>

definition ids_are_positions :: "arc list \<Rightarrow> bool" where
  "ids_are_positions as \<longleftrightarrow> (\<forall>i < length as. arc_id (as ! i) = of_nat i)"

lemma length_AssignEdgeIDs [simp]: "length (AssignEdgeIDs as) = length as"
  by (simp add: AssignEdgeIDs_def)

lemma nth_AssignEdgeIDs:
  "i < length as \<Longrightarrow> AssignEdgeIDs as ! i = Arc (of_nat i) (arc_from (as ! i)) (arc_to (as ! i))"
  by (simp add: AssignEdgeIDs_def nth_enumerate_eq)

lemma AssignEdgeIDs_positions: "ids_are_positions (AssignEdgeIDs as)"
  by (simp add: ids_are_positions_def nth_AssignEdgeIDs)

lemma map_ends_AssignEdgeIDs: "map arc_ends (AssignEdgeIDs as) = map arc_ends as"
  by (rule nth_equalityI) (simp_all add: nth_AssignEdgeIDs arc_ends_def)

lemma length_NormalizeRequired [simp]: "length (NormalizeRequired as) = length as"
  by (simp add: NormalizeRequired_def)

lemma NormalizeRequired_positions: "ids_are_positions (NormalizeRequired as)"
  by (simp add: NormalizeRequired_def AssignEdgeIDs_positions)

lemma mset_ends_NormalizeRequired:
  "image_mset arc_ends (mset (NormalizeRequired as)) = image_mset arc_ends (mset as)"
proof -
  have "mset (map arc_ends (NormalizeRequired as)) = mset (map arc_ends (sort as))"
    by (simp only: NormalizeRequired_def map_ends_AssignEdgeIDs)
  then show ?thesis by simp
qed

lemma set_ends_NormalizeRequired: "arc_ends ` set (NormalizeRequired as) = arc_ends ` set as"
  using mset_ends_NormalizeRequired [of as] by (metis set_image_mset set_mset_mset)

lemma sorted_ends_NormalizeRequired: "sorted (map arc_ends (NormalizeRequired as))"
proof -
  have "sorted (map arc_ends (sort as))"
    unfolding sorted_map
    by (rule sorted_wrt_mono_rel [OF _ sorted_sort])
      (auto simp: less_eq_arc_def arc_less_def arc_ends_def less_eq_prod_def split: if_splits)
  then show ?thesis by (simp add: NormalizeRequired_def map_ends_AssignEdgeIDs)
qed

lemma ids_are_positions_distinct:
  assumes "ids_are_positions as" "length as \<le> 2 ^ 32"
  shows "distinct as" "i < length as \<Longrightarrow> unat (arc_id (as ! i)) = i"
proof -
  show unat_id: "unat (arc_id (as ! i)) = i" if "i < length as" for i
    using assms that by (simp add: ids_are_positions_def unat_of_nat)
  show "distinct as"
    unfolding distinct_conv_nth by (metis unat_id)
qed

text \<open>
  \<open>NormalizeRequired\<close> keeps the endpoint pairs with their multiplicities, orders them, and
  numbers the arcs by position.
\<close>

lemma NormalizeRequired_correct:
  "image_mset arc_ends (mset (NormalizeRequired as)) = image_mset arc_ends (mset as) \<and>
   sorted (map arc_ends (NormalizeRequired as)) \<and> ids_are_positions (NormalizeRequired as)"
  by (simp add: mset_ends_NormalizeRequired sorted_ends_NormalizeRequired NormalizeRequired_positions)

end
