(* ===== verification/Required_Set.thy ===== *)
theory Required_Set
  imports Arc_Types
begin

text \<open>
  \<open>internal/arccover/required_set.go\<close>: a bitset over the \<open>n * n\<close> directed pairs, kept in
  64-bit words. The lemmas show that it represents exactly the set of endpoint pairs of the
  required arcs, and that in-range queries do not panic.
\<close>

record required_set =
  rs_bits :: "64 word list"
  rs_n :: nat

definition required_set_index :: "required_set \<Rightarrow> vertex_id \<Rightarrow> vertex_id \<Rightarrow> nat" where
  "required_set_index s u v = unat u * rs_n s + unat v"

definition required_set_Add :: "vertex_id \<Rightarrow> vertex_id \<Rightarrow> required_set \<Rightarrow> required_set option" where
  "required_set_Add u v s =
     (let i = required_set_index s u v in do {
        bits \<leftarrow> slice_upd (rs_bits s) (i div 64) (\<lambda>w. w OR push_bit (i mod 64) 1);
        Some (s\<lparr>rs_bits := bits\<rparr>) })"

definition NewRequiredSet :: "nat \<Rightarrow> arc list \<Rightarrow> required_set option" where
  "NewRequiredSet n required =
     (let total = n * n; words = (total + 63) div 64
      in fold_opt (\<lambda>e. required_set_Add (arc_from e) (arc_to e)) required
           \<lparr>rs_bits = replicate words 0, rs_n = n\<rparr>)"

definition required_set_Contains :: "required_set \<Rightarrow> vertex_id \<Rightarrow> vertex_id \<Rightarrow> bool option" where
  "required_set_Contains s u v =
     (if rs_n s = 0 then Some False
      else let i = required_set_index s u v in do {
        w \<leftarrow> slice_get (rs_bits s) (i div 64);
        Some (w AND push_bit (i mod 64) 1 \<noteq> 0) })"

section \<open>The bitset represents a set of pairs\<close>

definition valid_arc :: "nat \<Rightarrow> arc \<Rightarrow> bool" where
  "valid_arc n a \<longleftrightarrow> unat (arc_from a) < n \<and> unat (arc_to a) < n"

definition bit_at :: "64 word list \<Rightarrow> nat \<Rightarrow> bool" where
  "bit_at bits i \<longleftrightarrow> bit (bits ! (i div 64)) (i mod 64)"

definition represents :: "required_set \<Rightarrow> nat \<Rightarrow> (vertex_id \<times> vertex_id) set \<Rightarrow> bool" where
  "represents s n P \<longleftrightarrow> rs_n s = n \<and> length (rs_bits s) = (n * n + 63) div 64 \<and>
     (\<forall>u v. unat u < n \<longrightarrow> unat v < n \<longrightarrow> bit_at (rs_bits s) (unat u * n + unat v) = ((u, v) \<in> P))"

lemma pair_index_bound:
  fixes u v n :: nat
  assumes "u < n" "v < n"
  shows "u * n + v < n * n"
proof -
  have "u * n + v < Suc u * n" using assms(2) by simp
  also have "\<dots> \<le> n * n" using assms(1) by (intro mult_le_mono1) simp
  finally show ?thesis .
qed

lemma pair_index_inj:
  fixes u v u' v' n :: nat
  assumes "v < n" "v' < n" "u * n + v = u' * n + v'"
  shows "u = u' \<and> v = v'"
proof -
  have "(u * n + v) div n = u" "(u' * n + v') div n = u'" using assms(1,2) by simp_all
  with assms(3) show ?thesis by simp
qed

lemma word_index_bound:
  assumes "i < (t::nat)"
  shows "i div 64 < (t + 63) div 64"
proof -
  have "(i + 64) div 64 \<le> (t + 63) div 64"
    using assms by (intro div_le_mono) simp
  then show ?thesis by simp
qed

lemma bit_at_upd:
  assumes "i div 64 < length bits" "j div 64 < length bits"
  shows "bit_at (bits[i div 64 := bits ! (i div 64) OR push_bit (i mod 64) 1]) j
           \<longleftrightarrow> j = i \<or> bit_at bits j"
proof -
  have "j = i \<longleftrightarrow> j div 64 = i div 64 \<and> j mod 64 = i mod 64"
    by (metis div_mult_mod_eq)
  moreover have "i mod 64 < 64" "j mod 64 < 64" by simp_all
  ultimately show ?thesis using assms
    by (auto simp: bit_at_def nth_list_update bit_or_iff bit_exp_iff)
qed

lemma required_set_Add_represents:
  assumes "represents s n P" "unat u < n" "unat v < n"
  shows "\<exists>s'. required_set_Add u v s = Some s' \<and> represents s' n (insert (u, v) P)"
proof -
  let ?i = "unat u * n + unat v"
  let ?bits = "(rs_bits s)[?i div 64 := rs_bits s ! (?i div 64) OR push_bit (?i mod 64) 1]"
  have len: "length (rs_bits s) = (n * n + 63) div 64" and n: "rs_n s = n"
    using assms(1) by (simp_all add: represents_def)
  have bnd: "(unat a * n + unat b) div 64 < length (rs_bits s)"
    if "unat a < n" "unat b < n" for a b :: vertex_id
    using word_index_bound [OF pair_index_bound [OF that]] len by simp
  have "bit_at ?bits (unat a * n + unat b) = ((a, b) \<in> insert (u, v) P)"
    if ab: "unat a < n" "unat b < n" for a b
  proof -
    have "unat a * n + unat b = ?i \<longleftrightarrow> (a, b) = (u, v)"
      using pair_index_inj [of "unat b" n "unat v" "unat a" "unat u"] ab assms(3)
      by (auto simp: word_unat_eq_iff)
    then show ?thesis
      using bit_at_upd [OF bnd [OF assms(2,3)] bnd [OF ab]] assms(1) ab
      by (simp add: represents_def)
  qed
  then show ?thesis
    using bnd [OF assms(2,3)] len n
    by (simp add: required_set_Add_def required_set_index_def slice_simps represents_def Let_def)
qed

lemma represents_empty: "represents \<lparr>rs_bits = replicate ((n * n + 63) div 64) 0, rs_n = n\<rparr> n {}"
proof -
  have "bit_at (replicate ((n * n + 63) div 64) 0) (unat u * n + unat v) = False"
    if "unat u < n" "unat v < n" for u v :: vertex_id
    using word_index_bound [OF pair_index_bound [OF that]] by (simp add: bit_at_def)
  then show ?thesis by (simp add: represents_def)
qed

lemma NewRequiredSet_represents:
  assumes "\<forall>a \<in> set required. valid_arc n a"
  shows "\<exists>s. NewRequiredSet n required = Some s \<and> represents s n (arc_ends ` set required)"
  unfolding NewRequiredSet_def Let_def
proof (rule fold_opt_rule [where I = "\<lambda>as s. represents s n (arc_ends ` set as)"])
  show "represents \<lparr>rs_bits = replicate ((n * n + 63) div 64) 0, rs_n = n\<rparr> n (arc_ends ` set [])"
    by (simp add: represents_empty)
next
  fix ys x zs t
  assume "required = ys @ x # zs" "represents t n (arc_ends ` set ys)"
  with required_set_Add_represents [of t n _ "arc_from x" "arc_to x"] assms
  show "\<exists>t'. required_set_Add (arc_from x) (arc_to x) t = Some t' \<and>
          represents t' n (arc_ends ` set (ys @ [x]))"
    by (fastforce simp: valid_arc_def arc_ends_def)
qed

lemma Contains_represents:
  assumes "represents s n P" "unat u < n" "unat v < n"
  shows "required_set_Contains s u v = Some ((u, v) \<in> P)"
proof -
  have "(unat u * n + unat v) div 64 < length (rs_bits s)"
    using word_index_bound [OF pair_index_bound [OF assms(2,3)]] assms(1)
    by (simp add: represents_def)
  then show ?thesis using assms
    by (auto simp: required_set_Contains_def required_set_index_def slice_simps represents_def
        bit_at_def bit_iff_and_push_bit_not_eq_0)
qed

section \<open>Property\<close>

text \<open>
  C30: the bitset built from the required arcs answers membership of every pair of vertices
  below \<open>n\<close> exactly, without panicking.
\<close>

theorem RequiredSet_membership:
  assumes "\<forall>a \<in> set required. valid_arc n a" "unat u < n" "unat v < n"
  shows "\<exists>s. NewRequiredSet n required = Some s \<and>
    required_set_Contains s u v = Some (\<exists>a \<in> set required. arc_from a = u \<and> arc_to a = v)"
proof -
  obtain s where s: "NewRequiredSet n required = Some s" "represents s n (arc_ends ` set required)"
    using NewRequiredSet_represents [OF assms(1)] by blast
  have "(u, v) \<in> arc_ends ` set required \<longleftrightarrow> (\<exists>a \<in> set required. arc_from a = u \<and> arc_to a = v)"
    by (force simp: arc_ends_def)
  with s Contains_represents [OF s(2) assms(2,3)] show ?thesis by simp
qed

theorem RequiredSet_membership_witness:
  "\<exists>s. NewRequiredSet 9 [Arc 0 0 1, Arc 1 8 7] = Some s \<and> required_set_Contains s 8 7 = Some True"
  using RequiredSet_membership [of "[Arc 0 0 1, Arc 1 8 7]" 9 8 7] by (simp add: valid_arc_def)

end
