(* ===== verification/Arc_Graph.thy ===== *)
theory Arc_Graph
  imports Arc_Types
begin

text \<open>
  \<open>MutableGraph\<close> of \<open>internal/arccover/graph.go\<close>: the required arcs that are still to be
  covered, with one adjacency slice of edge identifiers per vertex. The invariant
  \<open>graph_ok\<close> relates the adjacency slices, the degrees and the counter to the list of
  alive arcs (\<open>RemainingArcs\<close>); every operation keeps it and none panics under it.
\<close>

record mutable_graph =
  g_n :: nat
  g_out :: "edge_id list list"
  g_edges :: "arc list"
  g_alive :: "bool list"
  g_out_degree :: "int list"
  g_in_degree :: "int list"
  g_remaining :: int

section \<open>Construction\<close>

text \<open>
  \<open>sortEdgeIDs\<close> is an insertion sort in place: \<open>sift_edge_id\<close> is its inner loop, which
  carries the element at index \<open>j\<close> to the left.
\<close>

fun sift_edge_id :: "arc list \<Rightarrow> nat \<Rightarrow> edge_id list \<Rightarrow> edge_id list option" where
  "sift_edge_id edges 0 ids = Some ids"
| "sift_edge_id edges (Suc k) ids =
     do { i \<leftarrow> slice_get ids k; j \<leftarrow> slice_get ids (Suc k);
          a \<leftarrow> slice_get edges (unat i); b \<leftarrow> slice_get edges (unat j);
          if arc_to a < arc_to b \<or> (arc_to a = arc_to b \<and> arc_id a \<le> arc_id b) then Some ids
          else sift_edge_id edges k (ids[k := j, Suc k := i]) }"

definition sortEdgeIDs :: "edge_id list \<Rightarrow> arc list \<Rightarrow> edge_id list option" where
  "sortEdgeIDs ids edges = fold_opt (sift_edge_id edges) [1..<length ids] ids"

definition graph_add_arc :: "nat \<times> arc \<Rightarrow> mutable_graph \<Rightarrow> mutable_graph option" where
  "graph_add_arc = (\<lambda>(i, e) g. do {
     alive \<leftarrow> slice_set (g_alive g) i True;
     outs \<leftarrow> slice_upd (g_out g) (unat (arc_from e)) (\<lambda>ids. ids @ [arc_id e]);
     od \<leftarrow> slice_upd (g_out_degree g) (unat (arc_from e)) (\<lambda>d. d + 1);
     ind \<leftarrow> slice_upd (g_in_degree g) (unat (arc_to e)) (\<lambda>d. d + 1);
     Some (g\<lparr>g_alive := alive, g_out := outs, g_out_degree := od, g_in_degree := ind\<rparr>) })"

definition graph_sort_out :: "nat \<Rightarrow> mutable_graph \<Rightarrow> mutable_graph option" where
  "graph_sort_out u g = do {
     ids \<leftarrow> slice_get (g_out g) u;
     ids' \<leftarrow> sortEdgeIDs ids (g_edges g);
     outs \<leftarrow> slice_set (g_out g) u ids';
     Some (g\<lparr>g_out := outs\<rparr>) }"

definition NewMutableGraph :: "nat \<Rightarrow> arc list \<Rightarrow> mutable_graph option" where
  "NewMutableGraph n required = do {
     g \<leftarrow> fold_opt graph_add_arc (enumerate 0 required)
            \<lparr>g_n = n, g_out = replicate n [], g_edges = required,
             g_alive = replicate (length required) False,
             g_out_degree = replicate n 0, g_in_degree = replicate n 0,
             g_remaining = int (length required)\<rparr>;
     fold_opt graph_sort_out [0..<n] g }"

section \<open>Operations\<close>

definition RemainingEdges :: "mutable_graph \<Rightarrow> int" where
  "RemainingEdges g = g_remaining g"

text \<open>The search loop of \<open>Remove\<close>: the first position that holds \<open>eid\<close>, if any.\<close>

primrec index_of :: "'a \<Rightarrow> 'a list \<Rightarrow> nat option" where
  "index_of x [] = None"
| "index_of x (y # ys) = (if y = x then Some 0 else map_option Suc (index_of x ys))"

definition swap_remove :: "'a list \<Rightarrow> nat \<Rightarrow> 'a list" where
  "swap_remove out i = take (length out - 1) (out[i := out ! (length out - 1)])"

definition graph_Remove :: "edge_id \<Rightarrow> mutable_graph \<Rightarrow> mutable_graph option" where
  "graph_Remove eid g = do {
     live \<leftarrow> slice_get (g_alive g) (unat eid);
     if \<not> live then Some g else do {
       alive \<leftarrow> slice_set (g_alive g) (unat eid) False;
       e \<leftarrow> slice_get (g_edges g) (unat eid);
       od \<leftarrow> slice_upd (g_out_degree g) (unat (arc_from e)) (\<lambda>d. d - 1);
       ind \<leftarrow> slice_upd (g_in_degree g) (unat (arc_to e)) (\<lambda>d. d - 1);
       out \<leftarrow> slice_get (g_out g) (unat (arc_from e));
       outs \<leftarrow> (case index_of eid out of
                  None \<Rightarrow> Some (g_out g)
                | Some i \<Rightarrow> slice_set (g_out g) (unat (arc_from e)) (swap_remove out i));
       Some (g\<lparr>g_alive := alive, g_remaining := g_remaining g - 1,
               g_out_degree := od, g_in_degree := ind, g_out := outs\<rparr>) } }"

text \<open>\<open>RemainingArcs\<close> walks \<open>Alive\<close> and reads \<open>Edges\<close>; both slices have one length.\<close>

text \<open>\<open>copy\<close> into a fresh slice of length \<open>n\<close>, which the zero value fills up.\<close>

definition copy_into :: "nat \<Rightarrow> 'a \<Rightarrow> 'a list \<Rightarrow> 'a list" where
  "copy_into n zero xs = take n xs @ replicate (n - length xs) zero"

definition graph_Clone :: "mutable_graph \<Rightarrow> mutable_graph option" where
  "graph_Clone g = do {
     outs \<leftarrow> fold_opt (\<lambda>u outs. do { out \<leftarrow> slice_get (g_out g) u; slice_set outs u out })
               [0..<g_n g] (replicate (g_n g) []);
     Some \<lparr>g_n = g_n g, g_out = outs, g_edges = g_edges g, g_alive = g_alive g,
       g_out_degree = copy_into (g_n g) 0 (g_out_degree g),
       g_in_degree = copy_into (g_n g) 0 (g_in_degree g), g_remaining = g_remaining g\<rparr> }"

definition RemainingArcs :: "mutable_graph \<Rightarrow> arc list" where
  "RemainingArcs g = map fst (filter snd (zip (g_edges g) (g_alive g)))"

text \<open>
  The scan of \<open>SelectDenseNext\<close>; \<open>best\<close> holds \<open>(bestV, bestE, bestBal, bestOut)\<close>
  once \<open>bestOK\<close> is true, and \<open>checked\<close> counts the neighbours looked at.
\<close>

fun dense_scan :: "mutable_graph \<Rightarrow> int \<Rightarrow> edge_id list \<Rightarrow> int \<Rightarrow> (vertex_id \<times> arc \<times> int \<times> int) option
    \<Rightarrow> (vertex_id \<times> arc \<times> int \<times> int) option option" where
  "dense_scan g window [] checked best = Some best"
| "dense_scan g window (eid # ids) checked best = do {
     e \<leftarrow> slice_get (g_edges g) (unat eid);
     od \<leftarrow> slice_get (g_out_degree g) (unat (arc_to e));
     ind \<leftarrow> slice_get (g_in_degree g) (unat (arc_to e));
     let v = arc_to e; bal = od - ind; out = od;
         best' = (case best of
                    None \<Rightarrow> Some (v, e, bal, out)
                  | Some (bestV, bestE, bestBal, bestOut) \<Rightarrow>
                      if bal > bestBal \<or> (bal = bestBal \<and> out > bestOut)
                         \<or> (bal = bestBal \<and> out = bestOut \<and> v < bestV)
                      then Some (v, e, bal, out) else Some (bestV, bestE, bestBal, bestOut))
     in if checked + 1 \<ge> window then Some best' else dense_scan g window ids (checked + 1) best' }"

definition SelectDenseNext :: "vertex_id \<Rightarrow> int \<Rightarrow> mutable_graph \<Rightarrow> (vertex_id \<times> arc) option option" where
  "SelectDenseNext u window0 g =
     (let window = (if window0 \<le> 0 then 8 else window0) in do {
        ids \<leftarrow> slice_get (g_out g) (unat u);
        best \<leftarrow> dense_scan g window ids 0 None;
        Some (map_option (\<lambda>(v, e, _, _). (v, e)) best) })"

primrec first_alive :: "mutable_graph \<Rightarrow> edge_id list \<Rightarrow> arc option option" where
  "first_alive g [] = Some None"
| "first_alive g (eid # ids) = do {
     live \<leftarrow> slice_get (g_alive g) (unat eid);
     if live then map_option Some (slice_get (g_edges g) (unat eid)) else first_alive g ids }"

definition FirstAliveOut :: "vertex_id \<Rightarrow> mutable_graph \<Rightarrow> arc option option" where
  "FirstAliveOut u g = do { ids \<leftarrow> slice_get (g_out g) (unat u); first_alive g ids }"

section \<open>Sorting the adjacency slices\<close>

definition edge_le :: "arc list \<Rightarrow> edge_id \<Rightarrow> edge_id \<Rightarrow> bool" where
  "edge_le edges i j =
     (let a = edges ! unat i; b = edges ! unat j
      in arc_to a < arc_to b \<or> (arc_to a = arc_to b \<and> arc_id a \<le> arc_id b))"

lemma edge_le_total: "edge_le edges i j \<or> edge_le edges j i"
  by (auto simp: edge_le_def Let_def)

lemma edge_le_trans: "edge_le edges i j \<Longrightarrow> edge_le edges j k \<Longrightarrow> edge_le edges i k"
  by (auto simp: edge_le_def Let_def)

lemma sift_edge_id_lift:
  "\<forall>i \<in> set ids. unat i < length edges \<Longrightarrow> k < length ids \<Longrightarrow>
   sift_edge_id edges k ids = Some (sift_left (edge_le edges) k ids)"
proof (induction k arbitrary: ids)
  case (Suc k)
  have "ids ! k \<in> set ids" "ids ! Suc k \<in> set ids" using Suc.prems(2) by simp_all
  with Suc.prems have "unat (ids ! k) < length edges" "unat (ids ! Suc k) < length edges" by blast+
  moreover have "set (ids[k := ids ! Suc k, Suc k := ids ! k]) = set ids"
    using Suc.prems(2) by (simp add: set_swap_upd)
  ultimately show ?case
    using Suc.prems Suc.IH [of "ids[k := ids ! Suc k, Suc k := ids ! k]"]
    by (simp add: slice_simps edge_le_def Let_def)
qed simp

lemma sortEdgeIDs_lift:
  assumes "\<forall>i \<in> set ids. unat i < length edges"
  shows "sortEdgeIDs ids edges = Some (insertion_sort (edge_le edges) ids)"
proof -
  have "fold_opt (sift_edge_id edges) [1..<length ids] ids
      = Some (fold (sift_left (edge_le edges)) [1..<length ids] ids) \<and>
      mset (fold (sift_left (edge_le edges)) [1..<length ids] ids) = mset ids"
  proof (rule fold_opt_cong_Some [where P = "\<lambda>t. mset t = mset ids"])
    fix k t assume k: "k \<in> set [1..<length ids]" and t: "mset t = mset ids"
    have "length t = length ids" "set t = set ids" using t by (metis size_mset, metis set_mset_mset)
    with k assms t show "sift_edge_id edges k t = Some (sift_left (edge_le edges) k t) \<and>
        mset (sift_left (edge_le edges) k t) = mset ids"
      by (simp add: sift_edge_id_lift mset_sift_left)
  qed simp
  then show ?thesis by (simp add: sortEdgeIDs_def insertion_sort_def)
qed

section \<open>The invariant\<close>

abbreviation out_of :: "nat \<Rightarrow> arc multiset \<Rightarrow> arc multiset" where
  "out_of u M \<equiv> filter_mset (\<lambda>a. unat (arc_from a) = u) M"

abbreviation into :: "nat \<Rightarrow> arc multiset \<Rightarrow> arc multiset" where
  "into v M \<equiv> filter_mset (\<lambda>a. unat (arc_to a) = v) M"

definition live :: "arc list \<Rightarrow> bool list \<Rightarrow> arc multiset" where
  "live as bs = mset (map fst (filter snd (zip as bs)))"

definition alive_arcs :: "mutable_graph \<Rightarrow> arc multiset" where
  "alive_arcs g = live (g_edges g) (g_alive g)"

lemma mset_RemainingArcs: "mset (RemainingArcs g) = alive_arcs g"
  by (simp add: RemainingArcs_def alive_arcs_def live_def)

definition graph_shape :: "nat \<Rightarrow> arc list \<Rightarrow> mutable_graph \<Rightarrow> bool" where
  "graph_shape n required g \<longleftrightarrow> g_n g = n \<and> g_edges g = required \<and>
     length (g_out g) = n \<and> length (g_out_degree g) = n \<and> length (g_in_degree g) = n \<and>
     length (g_alive g) = length required"

definition adjacency_ok :: "nat \<Rightarrow> arc list \<Rightarrow> mutable_graph \<Rightarrow> bool" where
  "adjacency_ok n required g \<longleftrightarrow>
     (\<forall>u < n. (\<forall>i \<in> set (g_out g ! u). unat i < length required) \<and>
        mset (map (\<lambda>i. required ! unat i) (g_out g ! u)) = out_of u (alive_arcs g))"

definition degrees_ok :: "nat \<Rightarrow> mutable_graph \<Rightarrow> bool" where
  "degrees_ok n g \<longleftrightarrow>
     (\<forall>u < n. g_out_degree g ! u = int (size (out_of u (alive_arcs g))) \<and>
        g_in_degree g ! u = int (size (into u (alive_arcs g))))"

text \<open>What the planner guarantees of the arcs it builds a graph from.\<close>

definition arcs_ok :: "nat \<Rightarrow> arc list \<Rightarrow> bool" where
  "arcs_ok n required \<longleftrightarrow> ids_are_positions required \<and> length required \<le> 2 ^ 32 \<and>
     (\<forall>a \<in> set required. unat (arc_from a) < n \<and> unat (arc_to a) < n)"

definition graph_core :: "nat \<Rightarrow> arc list \<Rightarrow> mutable_graph \<Rightarrow> bool" where
  "graph_core n required g \<longleftrightarrow> arcs_ok n required \<and> graph_shape n required g \<and>
     adjacency_ok n required g \<and> degrees_ok n g"

definition graph_ok :: "nat \<Rightarrow> arc list \<Rightarrow> mutable_graph \<Rightarrow> bool" where
  "graph_ok n required g \<longleftrightarrow> graph_core n required g \<and>
     g_remaining g = int (size (alive_arcs g))"

lemma arcs_ok_id: "arcs_ok n required \<Longrightarrow> i < length required \<Longrightarrow> unat (arc_id (required ! i)) = i"
  using ids_are_positions_distinct(2) by (auto simp: arcs_ok_def)

lemma arcs_ok_valid:
  assumes "arcs_ok n required" "i < length required"
  shows "unat (arc_from (required ! i)) < n" "unat (arc_to (required ! i)) < n"
  using assms nth_mem by (auto simp: arcs_ok_def)

lemma live_set_True:
  assumes "length bs = length as" "i < length as" "\<not> bs ! i"
  shows "live as (bs[i := True]) = add_mset (as ! i) (live as bs)"
  using assms
proof (induction as arbitrary: bs i)
  case (Cons a as)
  then show ?case by (cases bs; cases i) (auto simp: live_def)
qed simp

lemma live_set_False:
  assumes "length bs = length as" "i < length as" "bs ! i"
  shows "live as bs = add_mset (as ! i) (live as (bs[i := False]))"
  using live_set_True [of "bs[i := False]" as i] assms list_update_id [of bs i]
  by simp

lemma live_all_dead: "live as (replicate (length as) False) = {#}"
  by (induction as) (auto simp: live_def)

lemma live_member:
  assumes "length bs = length as"
  shows "a \<in># live as bs \<longleftrightarrow> (\<exists>i < length as. bs ! i \<and> a = as ! i)"
  using assms by (force simp: live_def set_zip image_iff)

section \<open>Construction establishes the invariant\<close>

lemma graph_add_arc_core:
  assumes core: "graph_core n required g" and i: "i < length required" and dead: "\<not> g_alive g ! i"
  shows "\<exists>g'. graph_add_arc (i, required ! i) g = Some g' \<and> graph_core n required g' \<and>
     g_remaining g' = g_remaining g \<and> g_alive g' = (g_alive g)[i := True]"
proof -
  let ?e = "required ! i" and ?u = "unat (arc_from (required ! i))" and ?v = "unat (arc_to (required ! i))"
  let ?g' = "g\<lparr>g_alive := (g_alive g)[i := True], g_out := (g_out g)[?u := g_out g ! ?u @ [arc_id ?e]],
      g_out_degree := (g_out_degree g)[?u := g_out_degree g ! ?u + 1],
      g_in_degree := (g_in_degree g)[?v := g_in_degree g ! ?v + 1]\<rparr>"
  have ok: "arcs_ok n required" and shape: "graph_shape n required g"
    using core by (simp_all add: graph_core_def)
  note uv = arcs_ok_valid [OF ok i]
  have shapes: "length (g_out g) = n" "length (g_out_degree g) = n" "length (g_in_degree g) = n"
    "length (g_alive g) = length required" "g_edges g = required"
    using shape by (simp_all add: graph_shape_def)
  have step: "graph_add_arc (i, ?e) g = Some ?g'"
    using uv i by (simp add: graph_add_arc_def slice_simps shapes)
  have alive: "live required ((g_alive g)[i := True]) = add_mset ?e (live required (g_alive g))"
    using live_set_True i dead shapes by simp
  have "adjacency_ok n required ?g'"
    using core uv arcs_ok_id [OF ok i] i
    by (auto simp: adjacency_ok_def alive_arcs_def alive graph_core_def shapes nth_list_update)
  moreover have "degrees_ok n ?g'"
    using core uv by (simp add: degrees_ok_def alive_arcs_def alive graph_core_def shapes nth_list_update)
  moreover have "graph_shape n required ?g'" using shape by (simp add: graph_shape_def)
  ultimately show ?thesis using step ok by (simp add: graph_core_def)
qed

lemma graph_sort_out_core:
  assumes core: "graph_core n required g" and u: "u < n"
  shows "\<exists>g'. graph_sort_out u g = Some g' \<and> graph_core n required g' \<and>
     g_remaining g' = g_remaining g \<and> g_alive g' = g_alive g \<and>
     g_out g' = (g_out g)[u := insertion_sort (edge_le required) (g_out g ! u)]"
proof -
  let ?ids = "insertion_sort (edge_le required) (g_out g ! u)"
  let ?g' = "g\<lparr>g_out := (g_out g)[u := ?ids]\<rparr>"
  have shapes: "length (g_out g) = n" "g_edges g = required"
    using core by (simp_all add: graph_core_def graph_shape_def)
  have adj: "\<forall>i \<in> set (g_out g ! u). unat i < length required"
    using core u by (simp add: graph_core_def adjacency_ok_def)
  have step: "graph_sort_out u g = Some ?g'"
    using u adj by (simp add: graph_sort_out_def slice_simps shapes sortEdgeIDs_lift)
  have "graph_core n required ?g'"
    using core u
    by (auto simp: graph_core_def graph_shape_def adjacency_ok_def degrees_ok_def alive_arcs_def
        nth_list_update)
  with step show ?thesis by simp
qed

lemma graph_core_initial:
  assumes "arcs_ok n required"
  shows "graph_core n required
     \<lparr>g_n = n, g_out = replicate n [], g_edges = required, g_alive = replicate (length required) False,
      g_out_degree = replicate n 0, g_in_degree = replicate n 0, g_remaining = int (length required)\<rparr>"
  using assms
  by (simp add: graph_core_def graph_shape_def adjacency_ok_def degrees_ok_def alive_arcs_def live_all_dead)

lemma RemainingArcs_all_alive:
  assumes "length (g_alive g) = length (g_edges g)" "\<forall>j < length (g_edges g). g_alive g ! j"
  shows "RemainingArcs g = g_edges g"
proof -
  have "g_alive g = replicate (length (g_edges g)) True"
    using assms by (simp add: list_eq_iff_nth_eq)
  then have "filter snd (zip (g_edges g) (g_alive g)) = zip (g_edges g) (g_alive g)"
    by (auto simp: filter_id_conv set_zip)
  then show ?thesis using assms(1) by (simp add: RemainingArcs_def)
qed

definition add_phase :: "nat \<Rightarrow> arc list \<Rightarrow> (nat \<times> arc) list \<Rightarrow> mutable_graph \<Rightarrow> bool" where
  "add_phase n required ys g \<longleftrightarrow> graph_core n required g \<and> g_remaining g = int (length required) \<and>
     (\<forall>j < length required. g_alive g ! j = (j < length ys))"

lemma graph_add_all:
  assumes "arcs_ok n required" "add_phase n required [] g0"
  shows "\<exists>g. fold_opt graph_add_arc (enumerate 0 required) g0 = Some g \<and>
     add_phase n required (enumerate 0 required) g"
  using assms(2)
proof (rule fold_opt_rule)
  fix ys x zs g
  assume split: "enumerate 0 required = ys @ x # zs" and inv: "add_phase n required ys g"
  have len: "length ys < length required"
    using arg_cong [OF split, of length] by simp
  have "x = (length ys, required ! length ys)"
    using arg_cong [OF split, of "\<lambda>xs. xs ! length ys"] len by (simp add: nth_enumerate_eq)
  with graph_add_arc_core [of n required g "length ys"] inv len
  show "\<exists>g'. graph_add_arc x g = Some g' \<and> add_phase n required (ys @ [x]) g'"
    by (fastforce simp: add_phase_def nth_list_update graph_core_def graph_shape_def)
qed

lemma NewMutableGraph_ok:
  assumes ok: "arcs_ok n required"
  shows "\<exists>g. NewMutableGraph n required = Some g \<and> graph_ok n required g \<and>
     alive_arcs g = mset required \<and> (\<forall>u < n. sorted_wrt (edge_le required) (g_out g ! u))"
proof -
  let ?g0 = "\<lparr>g_n = n, g_out = replicate n [], g_edges = required,
     g_alive = replicate (length required) False, g_out_degree = replicate n 0,
     g_in_degree = replicate n 0, g_remaining = int (length required)\<rparr>"
  have "add_phase n required [] ?g0" using graph_core_initial [OF ok] by (simp add: add_phase_def)
  from graph_add_all [OF ok this] obtain g1 where
    g1: "fold_opt graph_add_arc (enumerate 0 required) ?g0 = Some g1"
    "add_phase n required (enumerate 0 required) g1" by blast
  define I where "I = (\<lambda>(us :: nat list) g. graph_core n required g \<and>
     g_remaining g = int (length required) \<and> g_alive g = g_alive g1 \<and>
     (\<forall>u \<in> set us. sorted_wrt (edge_le required) (g_out g ! u)))"
  have "\<exists>g. fold_opt graph_sort_out [0..<n] g1 = Some g \<and> I [0..<n] g"
  proof (rule fold_opt_rule)
    show "I [] g1" using g1(2) by (simp add: I_def add_phase_def)
  next
    fix us u zs g assume split: "[0..<n] = us @ u # zs" and I: "I us g"
    have u: "u < n" "u \<notin> set us" 
      using arg_cong [OF split, of set] arg_cong [OF split, of distinct] by auto
    have "length (g_out g) = n" using I by (simp add: I_def graph_core_def graph_shape_def)
    with graph_sort_out_core [of n required g u] I u
      sorted_insertion_sort [of "edge_le required" "g_out g ! u", OF edge_le_total edge_le_trans]
    show "\<exists>g'. graph_sort_out u g = Some g' \<and> I (us @ [u]) g'"
      by (fastforce simp: I_def nth_list_update)
  qed
  then obtain g where g: "fold_opt graph_sort_out [0..<n] g1 = Some g" "I [0..<n] g" by blast
  have "RemainingArcs g = required"
    using RemainingArcs_all_alive [of g] g(2) g1(2)
    by (simp add: I_def add_phase_def graph_core_def graph_shape_def)
  then show ?thesis using g g1
    by (auto simp: NewMutableGraph_def graph_ok_def I_def simp flip: mset_RemainingArcs)
qed

section \<open>Removal\<close>

lemma index_of_Some:
  "x \<in> set xs \<Longrightarrow> \<exists>i < length xs. index_of x xs = Some i \<and> xs ! i = x"
  by (induction xs) auto

lemma mset_swap_remove:
  assumes "i < length xs"
  shows "mset xs = add_mset (xs ! i) (mset (swap_remove xs i))"
proof -
  obtain ys z where xs: "xs = ys @ [z]" using assms by (cases xs rule: rev_cases) auto
  have "add_mset (ys ! i) (mset (ys[i := z])) = add_mset z (mset ys)" if "i < length ys"
    using that by (simp add: mset_update)
  with assms show ?thesis
    by (auto simp: xs swap_remove_def nth_append list_update_append less_Suc_eq)
qed

lemma set_swap_remove: "i < length xs \<Longrightarrow> set (swap_remove xs i) \<subseteq> set xs"
  using mset_swap_remove [of i xs] by (metis set_mset_mset set_mset_add_mset_insert subset_insertI)

lemma adjacency_member:
  assumes "graph_core n required g" "u < n" "i \<in> set (g_out g ! u)"
  shows "unat i < length required" "g_alive g ! unat i" "unat (arc_from (required ! unat i)) = u"
    "arc_id (required ! unat i) = i"
proof -
  have ok: "arcs_ok n required" and shapes: "length (g_alive g) = length required" "g_edges g = required"
    using assms(1) by (simp_all add: graph_core_def graph_shape_def)
  show lt: "unat i < length required"
    using assms by (simp add: graph_core_def adjacency_ok_def)
  then show "arc_id (required ! unat i) = i"
    using arcs_ok_id [OF ok lt] by (simp add: word_unat_eq_iff)
  have "mset (map (\<lambda>i. required ! unat i) (g_out g ! u)) = out_of u (alive_arcs g)"
    using assms(1,2) by (simp add: graph_core_def adjacency_ok_def)
  moreover have "required ! unat i \<in># mset (map (\<lambda>i. required ! unat i) (g_out g ! u))"
    using assms(3) by simp
  ultimately have "required ! unat i \<in># out_of u (alive_arcs g)" by metis
  then obtain j where "j < length required" "g_alive g ! j" "required ! unat i = required ! j"
    and src: "unat (arc_from (required ! unat i)) = u"
    using live_member [of "g_alive g" required] shapes by (auto simp: alive_arcs_def)
  moreover have "unat i = j" using calculation arcs_ok_id [OF ok] lt by metis
  ultimately show "g_alive g ! unat i" by simp
  show "unat (arc_from (required ! unat i)) = u" by (fact src)
qed

lemma adjacency_contains:
  assumes "graph_core n required g" "unat i < length required" "g_alive g ! unat i"
  shows "i \<in> set (g_out g ! unat (arc_from (required ! unat i)))"
proof -
  let ?e = "required ! unat i" and ?u = "unat (arc_from (required ! unat i))"
  have ok: "arcs_ok n required" and shapes: "length (g_alive g) = length required" "g_edges g = required"
    using assms(1) by (simp_all add: graph_core_def graph_shape_def)
  have u: "?u < n" using arcs_ok_valid [OF ok assms(2)] by simp
  have "?e \<in># out_of ?u (alive_arcs g)"
    using live_member [of "g_alive g" required] shapes assms(2,3) by (auto simp: alive_arcs_def)
  then have "?e \<in># mset (map (\<lambda>i. required ! unat i) (g_out g ! ?u))"
    using assms(1) u by (simp add: graph_core_def adjacency_ok_def)
  then obtain j where j: "j \<in> set (g_out g ! ?u)" "required ! unat j = ?e" by auto
  have "unat j < length required" using assms(1) u j(1) by (simp add: graph_core_def adjacency_ok_def)
  then have "unat j = unat i" using arcs_ok_id [OF ok] assms(2) j(2) by metis
  then have "j = i" by (simp add: word_unat_eq_iff)
  with j(1) show ?thesis by simp
qed

lemma graph_Remove_dead:
  "unat i < length (g_alive g) \<Longrightarrow> \<not> g_alive g ! unat i \<Longrightarrow> graph_Remove i g = Some g"
  by (simp add: graph_Remove_def slice_simps)

lemma graph_Remove_ok:
  assumes ok: "graph_ok n required g" and i: "unat i < length required" and live: "g_alive g ! unat i"
  shows "\<exists>g'. graph_Remove i g = Some g' \<and> graph_ok n required g' \<and>
     alive_arcs g = add_mset (required ! unat i) (alive_arcs g')"
proof -
  let ?e = "required ! unat i" and ?u = "unat (arc_from (required ! unat i))"
    and ?v = "unat (arc_to (required ! unat i))"
  have core: "graph_core n required g" using ok by (simp add: graph_ok_def)
  then have arcs: "arcs_ok n required" and shape: "graph_shape n required g"
    by (simp_all add: graph_core_def)
  note uv = arcs_ok_valid [OF arcs i]
  have shapes: "length (g_out g) = n" "length (g_out_degree g) = n" "length (g_in_degree g) = n"
    "length (g_alive g) = length required" "g_edges g = required"
    using shape by (simp_all add: graph_shape_def)
  obtain p where p: "p < length (g_out g ! ?u)" "index_of i (g_out g ! ?u) = Some p" "g_out g ! ?u ! p = i"
    using index_of_Some [OF adjacency_contains [OF core i live]] by blast
  let ?out = "swap_remove (g_out g ! ?u) p"
  let ?g' = "g\<lparr>g_alive := (g_alive g)[unat i := False], g_remaining := g_remaining g - 1,
      g_out_degree := (g_out_degree g)[?u := g_out_degree g ! ?u - 1],
      g_in_degree := (g_in_degree g)[?v := g_in_degree g ! ?v - 1],
      g_out := (g_out g)[?u := ?out]\<rparr>"
  have step: "graph_Remove i g = Some ?g'"
    using uv i live p by (simp add: graph_Remove_def slice_simps shapes)
  have alive: "live required (g_alive g) = add_mset ?e (live required ((g_alive g)[unat i := False]))"
    using live_set_False i live shapes by simp
  have out: "mset (g_out g ! ?u) = add_mset i (mset ?out)" "set ?out \<subseteq> set (g_out g ! ?u)"
    using mset_swap_remove [OF p(1)] set_swap_remove [OF p(1)] p(3) by simp_all
  have "adjacency_ok n required ?g'"
    using core uv out
    by (auto simp: adjacency_ok_def alive_arcs_def alive graph_core_def shapes nth_list_update)
  moreover have "degrees_ok n ?g'"
    using core uv by (auto simp: degrees_ok_def alive_arcs_def alive graph_core_def shapes nth_list_update)
  moreover have "graph_shape n required ?g'" using shape by (simp add: graph_shape_def)
  moreover have "g_remaining ?g' = int (size (alive_arcs ?g'))"
    using ok by (simp add: graph_ok_def alive_arcs_def alive shapes)
  ultimately show ?thesis using step arcs
    by (simp add: graph_core_def graph_ok_def alive_arcs_def alive shapes)
qed

lemma removed_dead: "graph_Remove i g = Some g' \<Longrightarrow> \<not> g_alive g' ! unat i"
  by (auto simp: graph_Remove_def slice_Some_iffs split: if_splits)

section \<open>Choosing the next vertex\<close>

text \<open>The score that the planner maximises: out-degree surplus, then out-degree, then the smaller id.\<close>

definition vertex_score :: "mutable_graph \<Rightarrow> vertex_id \<Rightarrow> int \<times> int \<times> int" where
  "vertex_score g v =
     (g_out_degree g ! unat v - g_in_degree g ! unat v, g_out_degree g ! unat v, - uint v)"

definition pick_better :: "mutable_graph \<Rightarrow> arc \<Rightarrow> arc option \<Rightarrow> arc option" where
  "pick_better g e best = (case best of None \<Rightarrow> Some e
     | Some b \<Rightarrow> if vertex_score g (arc_to e) > vertex_score g (arc_to b) then Some e else Some b)"

definition scan_entry :: "mutable_graph \<Rightarrow> arc \<Rightarrow> vertex_id \<times> arc \<times> int \<times> int" where
  "scan_entry g e = (arc_to e, e, g_out_degree g ! unat (arc_to e) - g_in_degree g ! unat (arc_to e),
     g_out_degree g ! unat (arc_to e))"

lemma fold_pick_better:
  "fold (pick_better g) es (Some b) = Some e \<Longrightarrow>
     e \<in> insert b (set es) \<and> (\<forall>x \<in> insert b (set es). vertex_score g (arc_to x) \<le> vertex_score g (arc_to e))"
proof (induction es arbitrary: b)
  case (Cons x es)
  obtain c where c: "pick_better g x (Some b) = Some c" "c = x \<or> c = b"
    "vertex_score g (arc_to x) \<le> vertex_score g (arc_to c)"
    "vertex_score g (arc_to b) \<le> vertex_score g (arc_to c)"
    by (cases "vertex_score g (arc_to x) > vertex_score g (arc_to b)") (auto simp: pick_better_def)
  from Cons.IH [of c] Cons.prems c(1) have
    "e \<in> insert c (set es) \<and> (\<forall>y \<in> insert c (set es). vertex_score g (arc_to y) \<le> vertex_score g (arc_to e))"
    by simp
  with c(2-4) show ?case by (auto intro: order_trans)
qed simp

lemma fold_pick_better_Some: "\<exists>e. fold (pick_better g) es (Some b) = Some e"
  by (induction es arbitrary: b) (auto simp: pick_better_def)

lemma dense_scan_lift:
  assumes "\<forall>i \<in> set ids. unat i < length (g_edges g)"
    and "\<forall>i \<in> set ids. unat (arc_to (g_edges g ! unat i)) < length (g_out_degree g)"
    and "length (g_in_degree g) = length (g_out_degree g)" "c < w"
  shows "dense_scan g w ids c (map_option (scan_entry g) best)
     = Some (map_option (scan_entry g)
         (fold (pick_better g) (map (\<lambda>i. g_edges g ! unat i) (take (nat (w - c)) ids)) best))"
  using assms
proof (induction ids arbitrary: c best)
  case (Cons i ids)
  let ?e = "g_edges g ! unat i"
  have step: "dense_scan g w (i # ids) c (map_option (scan_entry g) best)
    = (if c + 1 \<ge> w then Some (map_option (scan_entry g) (pick_better g ?e best))
       else dense_scan g w ids (c + 1) (map_option (scan_entry g) (pick_better g ?e best)))"
    using Cons.prems(1-3)
    by (cases best) (auto simp: slice_simps scan_entry_def Let_def pick_better_def vertex_score_def
        less_prod_def word_less_alt)
  have n: "nat (w - c) = Suc (nat (w - (c + 1)))" using Cons.prems(4) by simp
  show ?case
  proof (cases "c + 1 \<ge> w")
    case True
    then have "nat (w - (c + 1)) = 0" by simp
    with True show ?thesis by (simp only: step n take_Suc_Cons take_0) simp
  next
    case False
    then show ?thesis using Cons.IH [of "c + 1"] Cons.prems
      by (simp only: step n take_Suc_Cons) simp
  qed
qed simp

lemma SelectDenseNext_lift:
  assumes core: "graph_core n required g" and u: "unat u < n"
  shows "SelectDenseNext u window g = Some (map_option (\<lambda>e. (arc_to e, e))
     (fold (pick_better g) (map (\<lambda>i. required ! unat i) (take (nat (if window \<le> 0 then 8 else window)) (g_out g ! unat u))) None))"
proof -
  let ?w = "if window \<le> 0 then 8 else window"
  have shapes: "length (g_out g) = n" "length (g_out_degree g) = n" "length (g_in_degree g) = n"
    "g_edges g = required" and arcs: "arcs_ok n required"
    using core by (simp_all add: graph_core_def graph_shape_def)
  have "\<forall>i \<in> set (g_out g ! unat u). unat i < length (g_edges g)"
    "\<forall>i \<in> set (g_out g ! unat u). unat (arc_to (g_edges g ! unat i)) < length (g_out_degree g)"
    using adjacency_member(1) [OF core u] arcs_ok_valid [OF arcs] by (simp_all add: shapes)
  from dense_scan_lift [OF this, of 0 ?w None] show ?thesis
    using u by (simp add: SelectDenseNext_def slice_simps shapes option.map_comp comp_def
        scan_entry_def Let_def)
qed

text \<open>
  The successor is an alive out-arc of \<open>u\<close> with the best score among the first
  \<open>window\<close> out-neighbours, and there is one as soon as \<open>u\<close> has an alive out-arc.
\<close>

lemma SelectDenseNext_ok:
  assumes core: "graph_core n required g" and u: "unat u < n"
  shows "(g_out_degree g ! unat u = 0 \<and> SelectDenseNext u window g = Some None) \<or>
    (\<exists>i. i \<in> set (g_out g ! unat u) \<and> g_out_degree g ! unat u > 0 \<and>
       SelectDenseNext u window g = Some (Some (arc_to (required ! unat i), required ! unat i)) \<and>
       (\<forall>j \<in> set (take (nat (if window \<le> 0 then 8 else window)) (g_out g ! unat u)).
          vertex_score g (arc_to (required ! unat j)) \<le> vertex_score g (arc_to (required ! unat i))))"
proof -
  let ?w = "nat (if window \<le> 0 then 8 else window)"
  let ?arcs = "map (\<lambda>i. required ! unat i) (take ?w (g_out g ! unat u))"
  have "mset (map (\<lambda>i. required ! unat i) (g_out g ! unat u)) = out_of (unat u) (alive_arcs g)"
    using core u by (simp add: graph_core_def adjacency_ok_def)
  then have "length (g_out g ! unat u) = size (out_of (unat u) (alive_arcs g))"
    by (metis length_map size_mset)
  then have deg: "g_out_degree g ! unat u = int (length (g_out g ! unat u))"
    using core u by (simp add: graph_core_def degrees_ok_def)
  have sel: "SelectDenseNext u window g = Some (map_option (\<lambda>e. (arc_to e, e)) (fold (pick_better g) ?arcs None))"
    using SelectDenseNext_lift [OF core u] by simp
  show ?thesis
  proof (cases "g_out g ! unat u")
    case Nil
    then show ?thesis using sel deg by simp
  next
    case (Cons i ids)
    have "?w > 0" by simp
    then obtain k where w: "?w = Suc k" using gr0_implies_Suc by blast
    obtain e where e: "fold (pick_better g) ?arcs None = Some e"
      using fold_pick_better_Some [of g "map (\<lambda>i. required ! unat i) (take k ids)" "required ! unat i"]
      by (auto simp: Cons w pick_better_def)
    have "e \<in> set ?arcs \<and> (\<forall>x \<in> set ?arcs. vertex_score g (arc_to x) \<le> vertex_score g (arc_to e))"
      using fold_pick_better [of g "map (\<lambda>i. required ! unat i) (take k ids)" "required ! unat i" e] e
      by (simp add: Cons w pick_better_def)
    moreover have "g_out_degree g ! unat u > 0" using deg Cons by simp
    ultimately show ?thesis using sel e set_take_subset [of ?w "g_out g ! unat u"] by auto
  qed
qed

section \<open>Cloning\<close>

lemma clone_outs:
  assumes "length xs = n"
  shows "fold_opt (\<lambda>u outs. do { out \<leftarrow> slice_get xs u; slice_set outs u out }) [0..<n] (replicate n []) = Some xs"
proof -
  let ?f = "\<lambda>u outs. do { out \<leftarrow> slice_get xs u; slice_set outs u out }"
  have "k \<le> n \<Longrightarrow> fold_opt ?f [0..<k] (replicate n []) = Some (take k xs @ replicate (n - k) [])" for k
  proof (induction k)
    case (Suc k)
    have "(take k xs @ replicate (n - k) [])[k := xs ! k] = take (Suc k) xs @ replicate (n - Suc k) []"
      using Suc.prems assms by (simp add: list_update_append take_Suc_conv_app_nth) (cases "n - k"; simp)
    with Suc assms show ?case by (simp add: fold_opt_append slice_simps)
  qed simp
  from this [of n] assms show ?thesis by simp
qed

lemma graph_Clone_equal:
  assumes "graph_core n required g"
  shows "graph_Clone g = Some g"
proof -
  have "g_n g = n" "length (g_out g) = n" "length (g_out_degree g) = n" "length (g_in_degree g) = n"
    using assms by (simp_all add: graph_core_def graph_shape_def)
  with clone_outs [of "g_out g" n] show ?thesis by (simp add: graph_Clone_def copy_into_def)
qed

section \<open>Properties\<close>

text \<open>
  C23: \<open>MutableGraph\<close> refines a multiset of arcs. The constructor holds all of them;
  \<open>Remove\<close> of a live edge takes exactly that arc out and keeps the invariant (adjacency,
  degrees and the counter agree with the multiset), and removing it again changes nothing.
\<close>

theorem MutableGraph_refines_multiset:
  assumes "graph_ok n required g" "unat i < length required"
  shows "\<exists>g'. graph_Remove i g = Some g' \<and> graph_ok n required g' \<and>
    alive_arcs g' = alive_arcs g - {#required ! unat i#} \<and>
    RemainingEdges g' = int (size (alive_arcs g')) \<and> graph_Remove i g' = Some g'"
proof -
  have core: "graph_core n required g" using assms(1) by (simp add: graph_ok_def)
  then have shape: "length (g_alive g) = length required" "g_edges g = required" and arcs: "arcs_ok n required"
    by (simp_all add: graph_core_def graph_shape_def)
  show ?thesis
  proof (cases "g_alive g ! unat i")
    case True
    from graph_Remove_ok [OF assms True] obtain g' where
      g': "graph_Remove i g = Some g'" "graph_ok n required g'" "alive_arcs g = add_mset (required ! unat i) (alive_arcs g')"
      by blast
    have "unat i < length (g_alive g')" "\<not> g_alive g' ! unat i"
      using removed_dead [OF g'(1)] g'(2) assms(2) by (auto simp: graph_ok_def graph_core_def graph_shape_def)
    with g' graph_Remove_dead show ?thesis by (auto simp: graph_ok_def RemainingEdges_def)
  next
    case False
    then have "required ! unat i \<notin># alive_arcs g"
      using live_member [of "g_alive g" required] shape assms(2) ids_are_positions_distinct(1) [of required] arcs
      by (auto simp: alive_arcs_def arcs_ok_def nth_eq_iff_index_eq)
    with False graph_Remove_dead [of i g] assms shape(1) show ?thesis
      by (simp add: graph_ok_def RemainingEdges_def diff_single_trivial)
  qed
qed

theorem MutableGraph_refines_multiset_witness:
  "\<exists>g g'. NewMutableGraph 3 [Arc 0 0 1, Arc 1 1 2] = Some g \<and> graph_Remove 0 g = Some g' \<and>
     alive_arcs g' = {#Arc 1 1 2#} \<and> RemainingEdges g' = 1"
proof -
  let ?as = "[Arc 0 0 1, Arc 1 1 2]"
  have "arcs_ok 3 ?as" by (auto simp: arcs_ok_def ids_are_positions_def less_Suc_eq)
  from NewMutableGraph_ok [OF this] obtain g where g: "NewMutableGraph 3 ?as = Some g" "graph_ok 3 ?as g"
    "alive_arcs g = mset ?as" by blast
  with MutableGraph_refines_multiset [OF g(2), of 0] show ?thesis by auto
qed



end
