(* ===== verification/Heap_Order.thy ===== *)
theory Heap_Order
  imports Matrix_Prelude
begin

text \<open>
  Array heaps over an arbitrary comparison: the sifting loops on lists and, under the laws of
  the locale \<open>better_order\<close>, what they do to the heap order. The comparison of
  \<open>IndexedVertexHeap\<close> is an instance (theory \<open>Vertex_Heap\<close>).
\<close>

definition parent :: "nat \<Rightarrow> nat" where
  "parent i = (i - 1) div 2"

lemma parent_less: "0 < i \<Longrightarrow> parent i < i"
  by (simp add: parent_def)

lemma parent_less_length: "0 < i \<Longrightarrow> i < n \<Longrightarrow> parent i < n"
  using parent_less by (rule order.strict_trans)

definition swap_at :: "nat \<Rightarrow> nat \<Rightarrow> 'a list \<Rightarrow> 'a list" where
  "swap_at i j xs = xs[i := xs ! j, j := xs ! i]"

function up_list :: "('a \<Rightarrow> 'a \<Rightarrow> bool) \<Rightarrow> nat \<Rightarrow> 'a list \<Rightarrow> 'a list" where
  "up_list better i xs =
     (if i > 0 \<and> better (xs ! i) (xs ! parent i) then up_list better (parent i) (swap_at i (parent i) xs)
      else xs)"
  by pat_completeness auto
termination
  by (relation "measure (\<lambda>(better, i, xs). i)") (auto simp: parent_less)

declare up_list.simps [simp del]

definition best_child :: "('a \<Rightarrow> 'a \<Rightarrow> bool) \<Rightarrow> nat \<Rightarrow> 'a list \<Rightarrow> nat" where
  "best_child better i xs =
     (if 2 * i + 2 < length xs \<and> better (xs ! (2 * i + 2)) (xs ! (2 * i + 1)) then 2 * i + 2 else 2 * i + 1)"

lemma length_swap_at [simp]: "length (swap_at i j xs) = length xs"
  by (simp add: swap_at_def)

lemma best_child_gt: "i < best_child better i xs"
  by (simp add: best_child_def)

lemma best_child_lt: "2 * i + 1 < length xs \<Longrightarrow> best_child better i xs < length xs"
  by (simp add: best_child_def)

lemma parent_best_child: "parent (best_child better i xs) = i"
  by (simp add: best_child_def parent_def)

function down_list :: "('a \<Rightarrow> 'a \<Rightarrow> bool) \<Rightarrow> nat \<Rightarrow> 'a list \<Rightarrow> 'a list" where
  "down_list better i xs =
     (if 2 * i + 1 < length xs \<and> better (xs ! best_child better i xs) (xs ! i)
      then down_list better (best_child better i xs) (swap_at i (best_child better i xs) xs)
      else xs)"
  by pat_completeness auto
termination
proof (relation "measure (\<lambda>(better, i, xs). length xs - i)")
  fix better :: "'a \<Rightarrow> 'a \<Rightarrow> bool" and i xs
  assume "2 * i + 1 < length xs \<and> better (xs ! best_child better i xs) (xs ! i)"
  then show "((better, best_child better i xs, swap_at i (best_child better i xs) xs), better, i, xs)
      \<in> measure (\<lambda>(better, i, xs). length xs - i)"
    using best_child_gt [of i better xs] best_child_lt [of i xs better] by auto
qed simp

declare down_list.simps [simp del]

lemma mset_swap_at: "i < length xs \<Longrightarrow> j < length xs \<Longrightarrow> mset (swap_at i j xs) = mset xs"
  by (simp add: swap_at_def mset_swap)

lemma nth_swap_at:
  "i < length xs \<Longrightarrow> j < length xs \<Longrightarrow> k < length xs \<Longrightarrow>
     swap_at i j xs ! k = (if k = j then xs ! i else if k = i then xs ! j else xs ! k)"
  by (simp add: swap_at_def nth_list_update)

lemma up_list_mset: "i < length xs \<Longrightarrow> mset (up_list better i xs) = mset xs"
proof (induction better i xs rule: up_list.induct)
  case (1 better i xs)
  show ?case
  proof (cases "0 < i \<and> better (xs ! i) (xs ! parent i)")
    case True
    then show ?thesis using 1 parent_less_length [of i "length xs"]
      by (subst up_list.simps) (simp add: mset_swap_at)
  next
    case False
    then show ?thesis by (subst up_list.simps) auto
  qed
qed

lemma up_list_set: "i < length xs \<Longrightarrow> set (up_list better i xs) = set xs"
  by (metis up_list_mset set_mset_mset)

lemma down_list_mset: "mset (down_list better i xs) = mset xs"
proof (induction better i xs rule: down_list.induct)
  case (1 better i xs)
  show ?case
  proof (cases "2 * i + 1 < length xs \<and> better (xs ! best_child better i xs) (xs ! i)")
    case True
    then have "i < length xs" "best_child better i xs < length xs" using best_child_lt by auto
    with 1 True show ?thesis by (simp add: down_list.simps [of better i xs] mset_swap_at)
  next
    case False
    then show ?thesis by (subst down_list.simps) auto
  qed
qed

lemma down_list_set: "set (down_list better i xs) = set xs"
  by (metis down_list_mset set_mset_mset)

lemma up_list_length [simp]: "length (up_list better i xs) = length xs"
  by (induction better i xs rule: up_list.induct) (subst up_list.simps, simp)

lemma down_list_length [simp]: "length (down_list better i xs) = length xs"
  by (metis down_list_mset size_mset)

section \<open>Heap order\<close>

definition edge_in_order :: "('a \<Rightarrow> 'a \<Rightarrow> bool) \<Rightarrow> 'a list \<Rightarrow> nat \<Rightarrow> bool" where
  "edge_in_order better xs j \<longleftrightarrow> \<not> better (xs ! j) (xs ! parent j)"

definition heap_ordered :: "('a \<Rightarrow> 'a \<Rightarrow> bool) \<Rightarrow> 'a list \<Rightarrow> bool" where
  "heap_ordered better xs \<longleftrightarrow> (\<forall>j. 0 < j \<longrightarrow> j < length xs \<longrightarrow> edge_in_order better xs j)"

text \<open>The children of \<open>k\<close> are in order with the parent of \<open>k\<close>.\<close>

definition skip_order :: "('a \<Rightarrow> 'a \<Rightarrow> bool) \<Rightarrow> 'a list \<Rightarrow> nat \<Rightarrow> bool" where
  "skip_order better xs k \<longleftrightarrow>
     (\<forall>j. 0 < k \<longrightarrow> 0 < j \<longrightarrow> j < length xs \<longrightarrow> parent j = k \<longrightarrow> \<not> better (xs ! j) (xs ! parent k))"

definition ordered_above :: "('a \<Rightarrow> 'a \<Rightarrow> bool) \<Rightarrow> 'a list \<Rightarrow> nat \<Rightarrow> bool" where
  "ordered_above better xs k \<longleftrightarrow> skip_order better xs k \<and>
     (\<forall>j. 0 < j \<longrightarrow> j < length xs \<longrightarrow> j \<noteq> k \<longrightarrow> edge_in_order better xs j)"

definition ordered_below :: "('a \<Rightarrow> 'a \<Rightarrow> bool) \<Rightarrow> 'a list \<Rightarrow> nat \<Rightarrow> bool" where
  "ordered_below better xs k \<longleftrightarrow> skip_order better xs k \<and>
     (\<forall>j. 0 < j \<longrightarrow> j < length xs \<longrightarrow> parent j \<noteq> k \<longrightarrow> edge_in_order better xs j)"

text \<open>Only the entry at \<open>k\<close> may be out of order, upwards or downwards.\<close>

definition ordered_but_at :: "('a \<Rightarrow> 'a \<Rightarrow> bool) \<Rightarrow> 'a list \<Rightarrow> nat \<Rightarrow> bool" where
  "ordered_but_at better xs k \<longleftrightarrow> skip_order better xs k \<and>
     (\<forall>j. 0 < j \<longrightarrow> j < length xs \<longrightarrow> j \<noteq> k \<longrightarrow> parent j \<noteq> k \<longrightarrow> edge_in_order better xs j)"

locale better_order =
  fixes better :: "'a \<Rightarrow> 'a \<Rightarrow> bool"
  assumes better_irrefl: "\<not> better x x"
    and better_trans: "better x y \<Longrightarrow> better y z \<Longrightarrow> better x z"
    and better_total: "x \<noteq> y \<Longrightarrow> better x y \<or> better y x"
begin

lemma not_better_trans: "\<not> better y x \<Longrightarrow> \<not> better z y \<Longrightarrow> \<not> better z x"
  using better_irrefl better_trans better_total by metis

lemma better_asym: "better x y \<Longrightarrow> \<not> better y x"
  using better_irrefl better_trans by blast

text \<open>The root of an ordered heap is not worse than any entry.\<close>

lemma heap_root_best:
  assumes "heap_ordered better xs" "j < length xs"
  shows "\<not> better (xs ! j) (xs ! 0)"
  using assms(2)
proof (induction j rule: less_induct)
  case (less j)
  show ?case
  proof (cases "j = 0")
    case False
    then have "\<not> better (xs ! j) (xs ! parent j)"
      using assms(1) less.prems by (simp add: heap_ordered_def edge_in_order_def)
    moreover have "\<not> better (xs ! parent j) (xs ! 0)"
      using less False parent_less [of j] parent_less_length [of j] by simp
    ultimately show ?thesis by (metis not_better_trans)
  qed (simp add: better_irrefl)
qed

lemma up_list_ordered_id: "heap_ordered better xs \<Longrightarrow> i < length xs \<Longrightarrow> up_list better i xs = xs"
  by (subst up_list.simps) (auto simp: heap_ordered_def edge_in_order_def)

lemma down_list_ordered_id:
  assumes "heap_ordered better xs"
  shows "down_list better i xs = xs"
proof -
  have "\<not> better (xs ! best_child better i xs) (xs ! i)" if "2 * i + 1 < length xs"
  proof -
    have "0 < best_child better i xs" using best_child_gt [of i better xs] by simp
    then show ?thesis
      using assms best_child_lt [OF that, of better] parent_best_child [of better i xs]
      unfolding heap_ordered_def edge_in_order_def by metis
  qed
  then show ?thesis by (subst down_list.simps) auto
qed

lemma ordered_above_done:
  "ordered_above better xs k \<Longrightarrow> (k = 0 \<or> edge_in_order better xs k) \<Longrightarrow> heap_ordered better xs"
  unfolding ordered_above_def heap_ordered_def by (metis neq0_conv)

lemma ordered_above_step:
  assumes above: "ordered_above better xs k" and k: "0 < k" "k < length xs"
    and up: "better (xs ! k) (xs ! parent k)"
  shows "ordered_above better (swap_at k (parent k) xs) (parent k)"
proof -
  let ?p = "parent k" and ?ys = "swap_at k (parent k) xs"
  have p: "?p < length xs" "?p \<noteq> k"
    using k parent_less [of k] parent_less_length [of k] by auto
  have nth: "?ys ! j = (if j = ?p then xs ! k else if j = k then xs ! ?p else xs ! j)" if "j < length xs" for j
    using nth_swap_at [OF k(2) p(1) that] .
  have ord: "\<not> better (xs ! j) (xs ! parent j)" if "0 < j" "j < length xs" "j \<noteq> k" for j
    using above that by (simp add: ordered_above_def edge_in_order_def)
  have grand: "\<not> better (xs ! j) (xs ! ?p)" if "0 < j" "j < length xs" "parent j = k" for j
    using above that k by (simp add: ordered_above_def skip_order_def)
  have "edge_in_order better ?ys j" if j: "0 < j" "j < length xs" "j \<noteq> ?p" for j
  proof -
    have pj: "parent j < length xs" using j parent_less_length by blast
    consider "j = k" | "j \<noteq> k" "parent j = k" | "j \<noteq> k" "parent j = ?p" | "j \<noteq> k" "parent j \<noteq> k" "parent j \<noteq> ?p"
      by blast
    then show ?thesis
    proof cases
      case 1
      then show ?thesis using up k p by (simp add: edge_in_order_def nth better_asym)
    next
      case 2
      then show ?thesis using grand [of j] j p k by (simp add: edge_in_order_def nth)
    next
      case 3
      then have "\<not> better (xs ! j) (xs ! ?p)" using ord [of j] j by simp
      then have "\<not> better (xs ! j) (xs ! k)" using up better_trans by blast
      then show ?thesis using 3 j p by (simp add: edge_in_order_def nth)
    next
      case 4
      then show ?thesis using ord [of j] j pj by (simp add: edge_in_order_def nth)
    qed
  qed
  moreover have "skip_order better ?ys ?p"
  proof -
    have "\<not> better (?ys ! j) (?ys ! parent ?p)" if j: "0 < ?p" "0 < j" "j < length xs" "parent j = ?p" for j
    proof -
      have pp: "parent ?p < length xs" "parent ?p \<noteq> ?p" "parent ?p \<noteq> k" and jp: "j \<noteq> ?p"
        using j k p parent_less [of k] parent_less [of ?p] parent_less [of j] by auto
      have top: "\<not> better (xs ! ?p) (xs ! parent ?p)" using ord [of ?p] j(1) p by simp
      show ?thesis
      proof (cases "j = k")
        case True
        then show ?thesis using top pp j p by (simp add: nth)
      next
        case False
        then have "\<not> better (xs ! j) (xs ! ?p)" using ord [of j] j by simp
        with top have "\<not> better (xs ! j) (xs ! parent ?p)" by (metis not_better_trans)
        then show ?thesis using False jp pp j by (simp add: nth)
      qed
    qed
    then show ?thesis by (simp add: skip_order_def)
  qed
  ultimately show ?thesis by (simp add: ordered_above_def)
qed

lemma up_list_ordered:
  "ordered_above better xs k \<Longrightarrow> k < length xs \<Longrightarrow> heap_ordered better (up_list better k xs)"
proof (induction k arbitrary: xs rule: less_induct)
  case (less k)
  show ?case
  proof (cases "0 < k \<and> better (xs ! k) (xs ! parent k)")
    case True
    then show ?thesis
      using less.IH [OF _ ordered_above_step [OF less.prems(1)]] less.prems(2)
        parent_less parent_less_length by (subst up_list.simps) auto
  next
    case False
    then have "heap_ordered better xs"
      using less.prems ordered_above_done by (auto simp: edge_in_order_def)
    with False show ?thesis by (subst up_list.simps) auto
  qed
qed

lemma best_child_best:
  assumes "2 * k + 1 < length xs" "0 < j" "j < length xs" "parent j = k"
  shows "\<not> better (xs ! j) (xs ! best_child better k xs)"
proof -
  have "j = 2 * k + 1 \<or> j = 2 * k + 2" using assms(2,4) by (auto simp: parent_def)
  then show ?thesis using assms(3) better_irrefl better_asym by (auto simp: best_child_def)
qed

lemma ordered_below_done:
  assumes "ordered_below better xs k"
    and "\<not> (2 * k + 1 < length xs \<and> better (xs ! best_child better k xs) (xs ! k))"
  shows "heap_ordered better xs"
proof -
  have "\<not> better (xs ! j) (xs ! k)" if j: "0 < j" "j < length xs" "parent j = k" for j
  proof -
    have "2 * k + 1 < length xs" using j by (auto simp: parent_def)
    with assms(2) best_child_best [OF this j] show ?thesis by (metis not_better_trans)
  qed
  with assms(1) show ?thesis
    by (auto simp: ordered_below_def heap_ordered_def edge_in_order_def)
qed

lemma ordered_below_step:
  assumes below: "ordered_below better xs k" and k: "2 * k + 1 < length xs"
  defines "c \<equiv> best_child better k xs"
  assumes down: "better (xs ! c) (xs ! k)"
  shows "ordered_below better (swap_at k c xs) c"
proof -
  let ?ys = "swap_at k c xs"
  have c: "k < c" "c < length xs" "parent c = k" and kl: "k < length xs"
    using best_child_gt best_child_lt [OF k] parent_best_child k by (auto simp: c_def)
  have nth: "?ys ! j = (if j = c then xs ! k else if j = k then xs ! c else xs ! j)" if "j < length xs" for j
    using nth_swap_at [OF kl c(2) that] .
  have ord: "\<not> better (xs ! j) (xs ! parent j)" if "0 < j" "j < length xs" "parent j \<noteq> k" for j
    using below that by (simp add: ordered_below_def edge_in_order_def)
  have "edge_in_order better ?ys j" if j: "0 < j" "j < length xs" "parent j \<noteq> c" for j
  proof -
    have pj: "parent j < length xs" "parent j \<noteq> j"
      using j parent_less_length [of j] parent_less [of j] by auto
    consider "j = c" | "j = k" | "j \<noteq> c" "parent j = k" | "j \<noteq> c" "j \<noteq> k" "parent j \<noteq> k" by blast
    then show ?thesis
    proof cases
      case 1
      then show ?thesis using c kl down by (simp add: edge_in_order_def nth better_asym)
    next
      case 2
      then have "\<not> better (xs ! c) (xs ! parent k)"
        using below c j by (auto simp: ordered_below_def skip_order_def)
      then show ?thesis using 2 j pj kl c(1) by (simp add: edge_in_order_def nth)
    next
      case 3
      then have "\<not> better (xs ! j) (xs ! c)" using best_child_best [OF k j(1,2)] by (simp add: c_def)
      then show ?thesis using 3 j pj kl by (simp add: edge_in_order_def nth)
    next
      case 4
      then show ?thesis using ord [of j] j pj by (simp add: edge_in_order_def nth)
    qed
  qed
  moreover have "skip_order better ?ys c"
  proof -
    have "\<not> better (?ys ! j) (?ys ! parent c)" if j: "0 < j" "j < length xs" "parent j = c" for j
    proof -
      have "j \<noteq> c" "j \<noteq> k" using parent_less [OF j(1)] j(3) c(1) by auto
      then show ?thesis using ord [of j] j c kl by (simp add: nth)
    qed
    then show ?thesis by (simp add: skip_order_def)
  qed
  ultimately show ?thesis by (simp add: ordered_below_def)
qed

lemma down_list_ordered: "ordered_below better xs k \<Longrightarrow> heap_ordered better (down_list better k xs)"
proof (induction "length xs - k" arbitrary: k xs rule: less_induct)
  case less
  show ?case
  proof (cases "2 * k + 1 < length xs \<and> better (xs ! best_child better k xs) (xs ! k)")
    case True
    have "ordered_below better (swap_at k (best_child better k xs) xs) (best_child better k xs)"
      using ordered_below_step less.prems True by blast
    moreover have "length xs - best_child better k xs < length xs - k"
      using True best_child_gt [of k better xs] best_child_lt [of k xs better] by auto
    ultimately show ?thesis using less.hyps True by (subst down_list.simps) simp
  next
    case False
    then have "down_list better k xs = xs" by (subst down_list.simps) auto
    with ordered_below_done [OF less.prems False] show ?thesis by simp
  qed
qed

text \<open>
  Repairing one entry: up, then down. If the first loop moves the entry the heap is in order
  and the second loop does nothing, wherever it starts.
\<close>

lemma up_down_ordered:
  assumes but: "ordered_but_at better xs k" and k: "k < length xs"
    and pos: "up_list better k xs = xs \<Longrightarrow> k' = k"
  shows "heap_ordered better (down_list better k' (up_list better k xs))"
proof (cases "0 < k \<and> better (xs ! k) (xs ! parent k)")
  case True
  have "\<not> better (xs ! j) (xs ! k)" if "0 < j" "j < length xs" "parent j = k" for j
    using but that True better_trans unfolding ordered_but_at_def skip_order_def by blast
  then have "ordered_above better xs k"
    using but by (auto simp: ordered_above_def ordered_but_at_def edge_in_order_def)
  then have "heap_ordered better (up_list better k xs)" using k by (rule up_list_ordered)
  then show ?thesis by (simp add: down_list_ordered_id)
next
  case False
  then have id: "up_list better k xs = xs" by (subst up_list.simps) auto
  have "ordered_below better xs k"
    using but False by (auto simp: ordered_below_def ordered_but_at_def edge_in_order_def)
  then show ?thesis using id pos by (simp add: down_list_ordered)
qed

lemma heap_ordered_but_at:
  assumes "heap_ordered better xs" "k < length xs"
  shows "ordered_but_at better xs k"
proof -
  have edge: "\<not> better (xs ! j) (xs ! parent j)" if "0 < j" "j < length xs" for j
    using assms(1) that by (simp add: heap_ordered_def edge_in_order_def)
  have "\<not> better (xs ! j) (xs ! parent k)" if j: "0 < k" "0 < j" "j < length xs" "parent j = k" for j
    using edge [OF j(2,3)] edge [OF j(1) assms(2)] j(4) not_better_trans by metis
  with edge show ?thesis by (simp add: ordered_but_at_def skip_order_def edge_in_order_def)
qed

text \<open>Taking an entry out: the last entry replaces it and is sifted both ways.\<close>

lemma take_out_ordered:
  assumes ord: "ordered_but_at better xs i" and i: "i < length xs"
  defines "ys \<equiv> take (length xs - 1) (swap_at i (length xs - 1) xs)"
  shows "heap_ordered better (if i < length ys then down_list better i (up_list better i ys) else ys)"
proof -
  let ?m = "length xs - 1"
  have m: "?m < length xs" "length ys = ?m" using i by (simp_all add: ys_def)
  have nth: "ys ! j = (if j = i then xs ! ?m else xs ! j)" if "j < ?m" for j
    using nth_swap_at [OF i m(1), of j] that by (simp add: ys_def)
  have edge: "\<not> better (xs ! j) (xs ! parent j)" if "0 < j" "j < ?m" "j \<noteq> i" "parent j \<noteq> i" for j
    using ord that by (simp add: ordered_but_at_def edge_in_order_def)
  have skip: "\<not> better (xs ! j) (xs ! parent i)" if "0 < i" "0 < j" "j < ?m" "parent j = i" for j
    using ord that by (simp add: ordered_but_at_def skip_order_def)
  have pj: "parent j < ?m" if "0 < j" "j < ?m" for j using parent_less_length that .
  show ?thesis
  proof (cases "i < ?m")
    case False
    then have "ys ! j = xs ! j" "j \<noteq> i" if "j < ?m" for j using nth [OF that] that by auto
    then have "heap_ordered better ys"
      using edge pj unfolding heap_ordered_def edge_in_order_def m by metis
    with False show ?thesis by (simp add: m)
  next
    case True
    have "skip_order better ys i"
    proof -
      have "\<not> better (ys ! j) (ys ! parent i)" if j: "0 < i" "0 < j" "j < ?m" "parent j = i" for j
      proof -
        have "j \<noteq> i" "parent i \<noteq> i"
          using parent_less [OF j(1)] parent_less [OF j(2)] j(4) by auto
        then show ?thesis using skip [OF j] j True pj by (simp add: nth)
      qed
      then show ?thesis by (simp add: skip_order_def m)
    qed
    then have "ordered_but_at better ys i"
      using edge pj by (simp add: ordered_but_at_def edge_in_order_def m nth)
    from up_down_ordered [OF this, of i] show ?thesis using True by (simp add: m)
  qed
qed

lemma append_ordered:
  assumes "heap_ordered better xs"
  shows "heap_ordered better (up_list better (length xs) (xs @ [x]))"
proof -
  let ?ys = "xs @ [x]"
  have pj: "parent j < length xs" if "0 < j" "j < length ?ys" for j
    using parent_less [OF that(1)] that(2) by simp
  then have "skip_order better ?ys (length xs)" unfolding skip_order_def by (metis less_irrefl)
  moreover have "edge_in_order better ?ys j" if "0 < j" "j < length ?ys" "j \<noteq> length xs" for j
    using assms that pj [OF that(1,2)] by (simp add: heap_ordered_def edge_in_order_def nth_append)
  ultimately have "ordered_above better ?ys (length xs)" by (simp add: ordered_above_def)
  then show ?thesis by (rule up_list_ordered) simp
qed

end

text \<open>The heap order depends on the comparison of the entries only.\<close>

lemma heap_ordered_cong:
  assumes "\<And>x y. x \<in> set xs \<Longrightarrow> y \<in> set xs \<Longrightarrow> b1 x y = b2 x y"
  shows "heap_ordered b1 xs = heap_ordered b2 xs"
proof -
  have "b1 (xs ! j) (xs ! parent j) = b2 (xs ! j) (xs ! parent j)" if "0 < j" "j < length xs" for j
    using that parent_less_length [of j "length xs"] by (intro assms) auto
  then show ?thesis by (simp add: heap_ordered_def edge_in_order_def)
qed

text \<open>A change of the comparison at one entry leaves all edges that do not touch it in order.\<close>

lemma ordered_but_at_change:
  assumes "better_order b1" and ord: "heap_ordered b1 xs" and dist: "distinct xs" and k: "k < length xs"
    and same: "\<And>x y. x \<noteq> xs ! k \<Longrightarrow> y \<noteq> xs ! k \<Longrightarrow> b1 x y = b2 x y"
  shows "ordered_but_at b2 xs k"
proof -
  have edge: "\<not> b1 (xs ! j) (xs ! parent j)" if "0 < j" "j < length xs" for j
    using ord that by (simp add: heap_ordered_def edge_in_order_def)
  have other: "b1 (xs ! i) (xs ! j) = b2 (xs ! i) (xs ! j)"
    if "i < length xs" "j < length xs" "i \<noteq> k" "j \<noteq> k" for i j
    using that k dist by (intro same) (simp_all add: nth_eq_iff_index_eq)
  have "\<not> b2 (xs ! j) (xs ! parent k)" if j: "0 < k" "0 < j" "j < length xs" "parent j = k" for j
  proof -
    have "\<not> b1 (xs ! j) (xs ! parent k)"
      using edge [OF j(2,3)] edge [OF j(1) k] j(4) better_order.not_better_trans [OF assms(1)] by metis
    moreover have "j \<noteq> k" "parent k \<noteq> k" "parent k < length xs"
      using parent_less [OF j(1)] parent_less [OF j(2)] j(4) parent_less_length [OF j(1) k] by auto
    ultimately show ?thesis using other [of j "parent k"] j by simp
  qed
  moreover have "\<not> b2 (xs ! j) (xs ! parent j)"
    if "0 < j" "j < length xs" "j \<noteq> k" "parent j \<noteq> k" for j
    using edge [OF that(1,2)] other [of j "parent j"] that parent_less_length by blast
  ultimately show ?thesis by (simp add: ordered_but_at_def skip_order_def edge_in_order_def)
qed

end
