(* ===== verification/Vertex_Heap.thy ===== *)
theory Vertex_Heap
  imports Arc_Graph Heap_Order
begin

text \<open>
  \<open>IndexedVertexHeap\<close> of \<open>internal/arccover/graph.go\<close>. The Go heap holds a pointer to the
  graph and reads the current degrees through it; here the graph is an argument of every
  operation. \<open>h_pos\<close> is \<open>-1\<close> for a vertex that is not in the heap. The lemmas say that
  the operations keep the index structure consistent and never panic, that they are the list
  functions of \<open>Heap_Order\<close> on \<open>h_order\<close>, and what they do to the heap order.
\<close>

record vertex_heap =
  h_order :: "vertex_id list"
  h_pos :: "int list"
  h_active :: "bool list"

section \<open>The code\<close>

definition heap_better :: "mutable_graph \<Rightarrow> vertex_id \<Rightarrow> vertex_id \<Rightarrow> bool option" where
  "heap_better g a b = do {
     oa \<leftarrow> slice_get (g_out_degree g) (unat a); ia \<leftarrow> slice_get (g_in_degree g) (unat a);
     ob \<leftarrow> slice_get (g_out_degree g) (unat b); ib \<leftarrow> slice_get (g_in_degree g) (unat b);
     let balA = oa - ia; balB = ob - ib
     in Some (if balA \<noteq> balB then balA > balB else if oa \<noteq> ob then oa > ob else a < b) }"

definition heap_swap :: "nat \<Rightarrow> nat \<Rightarrow> vertex_heap \<Rightarrow> vertex_heap option" where
  "heap_swap i j h = do {
     a \<leftarrow> slice_get (h_order h) i; b \<leftarrow> slice_get (h_order h) j;
     ord1 \<leftarrow> slice_set (h_order h) i b; ord \<leftarrow> slice_set ord1 j a;
     x \<leftarrow> slice_get ord i; pos1 \<leftarrow> slice_set (h_pos h) (unat x) (int i);
     y \<leftarrow> slice_get ord j; pos \<leftarrow> slice_set pos1 (unat y) (int j);
     Some (h\<lparr>h_order := ord, h_pos := pos\<rparr>) }"

fun heap_siftUp :: "mutable_graph \<Rightarrow> nat \<Rightarrow> vertex_heap \<Rightarrow> vertex_heap option" where
  "heap_siftUp g i h =
     (if i > 0 then let p = (i - 1) div 2 in do {
        a \<leftarrow> slice_get (h_order h) i; b \<leftarrow> slice_get (h_order h) p;
        up \<leftarrow> heap_better g a b;
        if \<not> up then Some h else do { h' \<leftarrow> heap_swap i p h; heap_siftUp g p h' } }
      else Some h)"

declare heap_siftUp.simps [simp del]

text \<open>The loop of \<open>siftDown\<close>; \<open>n\<close> is read once, before it.\<close>

definition heap_pick_child :: "mutable_graph \<Rightarrow> nat \<Rightarrow> nat \<Rightarrow> vertex_heap \<Rightarrow> nat option" where
  "heap_pick_child g n i h =
     (let l = 2 * i + 1; r = l + 1
      in if r < n then do {
           a \<leftarrow> slice_get (h_order h) r; b \<leftarrow> slice_get (h_order h) l;
           right \<leftarrow> heap_better g a b; Some (if right then r else l) }
         else Some l)"

partial_function (option) heap_siftDown_loop ::
  "mutable_graph \<Rightarrow> nat \<Rightarrow> nat \<Rightarrow> vertex_heap \<Rightarrow> vertex_heap option" where
  "heap_siftDown_loop g n i h =
     (if 2 * i + 1 \<ge> n then Some h
      else do {
        best \<leftarrow> heap_pick_child g n i h;
        a \<leftarrow> slice_get (h_order h) best; b \<leftarrow> slice_get (h_order h) i;
        down \<leftarrow> heap_better g a b;
        if \<not> down then Some h else do { h' \<leftarrow> heap_swap i best h; heap_siftDown_loop g n best h' } })"

declare heap_siftDown_loop.simps [code]

definition heap_siftDown :: "mutable_graph \<Rightarrow> nat \<Rightarrow> vertex_heap \<Rightarrow> vertex_heap option" where
  "heap_siftDown g i h = heap_siftDown_loop g (length (h_order h)) i h"

definition heap_push :: "vertex_id \<Rightarrow> mutable_graph \<Rightarrow> vertex_heap \<Rightarrow> vertex_heap option" where
  "heap_push v g h = do {
     act \<leftarrow> slice_get (h_active h) (unat v);
     if act then Some h else do {
       active \<leftarrow> slice_set (h_active h) (unat v) True;
       pos \<leftarrow> slice_set (h_pos h) (unat v) (int (length (h_order h)));
       p \<leftarrow> slice_get pos (unat v); i \<leftarrow> nat_index p;
       heap_siftUp g i (h\<lparr>h_order := h_order h @ [v], h_pos := pos, h_active := active\<rparr>) } }"

definition heap_remove :: "vertex_id \<Rightarrow> mutable_graph \<Rightarrow> vertex_heap \<Rightarrow> vertex_heap option" where
  "heap_remove v g h = do {
     act \<leftarrow> slice_get (h_active h) (unat v);
     if \<not> act then Some h else do {
       p \<leftarrow> slice_get (h_pos h) (unat v); i \<leftarrow> nat_index p;
       last \<leftarrow> nat_index (int (length (h_order h)) - 1);
       h1 \<leftarrow> heap_swap i last h;
       active \<leftarrow> slice_set (h_active h1) (unat v) False;
       pos \<leftarrow> slice_set (h_pos h1) (unat v) (- 1);
       let h2 = h1\<lparr>h_order := take last (h_order h1), h_active := active, h_pos := pos\<rparr>
       in if i < length (h_order h2) then do { h3 \<leftarrow> heap_siftUp g i h2; heap_siftDown g i h3 }
          else Some h2 } }"

definition heap_Update :: "vertex_id \<Rightarrow> mutable_graph \<Rightarrow> vertex_heap \<Rightarrow> vertex_heap option" where
  "heap_Update v g h = do {
     od \<leftarrow> slice_get (g_out_degree g) (unat v);
     if od \<le> 0 then heap_remove v g h else do {
       act \<leftarrow> slice_get (h_active h) (unat v);
       if \<not> act then heap_push v g h else do {
         p \<leftarrow> slice_get (h_pos h) (unat v); i \<leftarrow> nat_index p;
         h1 \<leftarrow> heap_siftUp g i h;
         q \<leftarrow> slice_get (h_pos h1) (unat v); j \<leftarrow> nat_index q;
         heap_siftDown g j h1 } } }"

definition NewIndexedVertexHeap :: "mutable_graph \<Rightarrow> vertex_heap option" where
  "NewIndexedVertexHeap g =
     fold_opt (\<lambda>v h. do {
         od \<leftarrow> slice_get (g_out_degree g) v;
         if od > 0 then heap_push (of_nat v) g h else Some h }) [0..<g_n g]
       \<lparr>h_order = [], h_pos = replicate (g_n g) (- 1), h_active = replicate (g_n g) False\<rparr>"

partial_function (option) PopBestWithOutgoing ::
  "mutable_graph \<Rightarrow> vertex_heap \<Rightarrow> (vertex_id \<times> vertex_heap) option" where
  "PopBestWithOutgoing g h =
     (if length (h_order h) > 0 then do {
        v \<leftarrow> slice_get (h_order h) 0;
        h' \<leftarrow> heap_remove v g h;
        od \<leftarrow> slice_get (g_out_degree g) (unat v);
        if od > 0 then Some (v, h') else PopBestWithOutgoing g h' }
      else Some (InvalidVertex, h))"

declare PopBestWithOutgoing.simps [code]

section \<open>The comparison\<close>

definition vertex_better :: "mutable_graph \<Rightarrow> vertex_id \<Rightarrow> vertex_id \<Rightarrow> bool" where
  "vertex_better g a b \<longleftrightarrow> vertex_score g b < vertex_score g a"

interpretation vb: better_order "vertex_better g" for g
proof
  fix x y z :: vertex_id
  show "\<not> vertex_better g x x" by (simp add: vertex_better_def)
  show "vertex_better g x y \<Longrightarrow> vertex_better g y z \<Longrightarrow> vertex_better g x z"
    unfolding vertex_better_def by (rule less_trans)
  assume "x \<noteq> y"
  then have "vertex_score g x \<noteq> vertex_score g y"
    by (auto simp: vertex_score_def simp flip: word_uint_eq_iff)
  then show "vertex_better g x y \<or> vertex_better g y x"
    unfolding vertex_better_def by (metis neqE)
qed

text \<open>The slices of degrees cover the vertices below \<open>n\<close>.\<close>

definition degrees_for :: "nat \<Rightarrow> mutable_graph \<Rightarrow> bool" where
  "degrees_for n g \<longleftrightarrow> length (g_out_degree g) = n \<and> length (g_in_degree g) = n"

lemma graph_core_degrees: "graph_core n required g \<Longrightarrow> degrees_for n g"
  by (simp add: graph_core_def graph_shape_def degrees_for_def)

lemma heap_better_lift:
  assumes "degrees_for n g" "unat a < n" "unat b < n"
  shows "heap_better g a b = Some (vertex_better g a b)"
  using assms by (auto simp: heap_better_def degrees_for_def slice_simps vertex_better_def
      vertex_score_def less_prod_def word_less_alt Let_def)

section \<open>The index structure\<close>

definition heap_wf :: "nat \<Rightarrow> vertex_heap \<Rightarrow> bool" where
  "heap_wf n h \<longleftrightarrow> length (h_pos h) = n \<and> length (h_active h) = n \<and> distinct (h_order h) \<and>
     (\<forall>v \<in> set (h_order h). unat v < n) \<and>
     (\<forall>v. unat v < n \<longrightarrow> h_active h ! unat v = (v \<in> set (h_order h))) \<and>
     (\<forall>i < length (h_order h). h_pos h ! unat (h_order h ! i) = int i)"

lemma heap_wf_nth: "heap_wf n h \<Longrightarrow> i < length (h_order h) \<Longrightarrow> unat (h_order h ! i) < n"
  by (simp add: heap_wf_def)

lemma heap_wf_pos:
  assumes "heap_wf n h" "v \<in> set (h_order h)"
  obtains i where "i < length (h_order h)" "h_order h ! i = v" "h_pos h ! unat v = int i"
proof -
  from assms(2) obtain i where "i < length (h_order h)" "h_order h ! i = v"
    by (auto simp: in_set_conv_nth)
  with assms(1) that show thesis by (auto simp: heap_wf_def)
qed

lemma heap_swap_lift:
  assumes wf: "heap_wf n h" and ij: "i < length (h_order h)" "j < length (h_order h)"
  shows "\<exists>h'. heap_swap i j h = Some h' \<and> heap_wf n h' \<and>
     h_order h' = swap_at i j (h_order h) \<and> h_active h' = h_active h"
proof -
  let ?os = "h_order h" and ?ord = "swap_at i j (h_order h)"
  have ord: "?ord ! k = (if k = j then ?os ! i else if k = i then ?os ! j else ?os ! k)"
    if "k < length ?os" for k
    using nth_swap_at [OF ij that] .
  let ?pos = "(h_pos h)[unat (?ord ! i) := int i, unat (?ord ! j) := int j]"
  have bound: "unat (?ord ! k) < length (h_pos h)" if "k < length ?os" for k
    using wf ij that by (auto simp: ord heap_wf_def)
  have dist: "distinct ?ord" using wf ij by (simp add: heap_wf_def swap_at_def)
  have set: "set ?ord = set ?os" using ij by (simp add: swap_at_def)
  have eq: "unat (?ord ! k) = unat (?ord ! l) \<longleftrightarrow> k = l" if "k < length ?os" "l < length ?os" for k l
    using dist that by (simp add: nth_eq_iff_index_eq flip: word_unat_eq_iff)
  have "unat (?os ! i) < length (h_pos h)" "unat (?os ! j) < length (h_pos h)"
    using wf ij by (simp_all add: heap_wf_def)
  then have step: "heap_swap i j h = Some (h\<lparr>h_order := ?ord, h_pos := ?pos\<rparr>)"
    using ij bound ord [OF ij(1)] ord [OF ij(2)]
    by (simp add: heap_swap_def slice_simps flip: swap_at_def)
  have "?pos ! unat (?ord ! k) = int k" if k: "k < length ?os" for k
  proof -
    have "h_pos h ! unat (?ord ! k) = int k" if "k \<noteq> i" "k \<noteq> j"
      using wf k that by (simp add: ord heap_wf_def)
    then show ?thesis using bound [OF k] bound ij eq k
      by (cases "k = i"; cases "k = j") (auto simp: nth_list_update)
  qed
  then have "heap_wf n (h\<lparr>h_order := ?ord, h_pos := ?pos\<rparr>)"
    using wf dist set by (simp add: heap_wf_def)
  with step show ?thesis by simp
qed

lemma heap_siftUp_lift:
  assumes "degrees_for n g" "heap_wf n h" "i < length (h_order h)"
  shows "\<exists>h'. heap_siftUp g i h = Some h' \<and> heap_wf n h' \<and>
     h_order h' = up_list (vertex_better g) i (h_order h) \<and> h_active h' = h_active h"
  using assms(2,3)
proof (induction i arbitrary: h rule: less_induct)
  case (less i)
  show ?case
  proof (cases "0 < i")
    case False
    then show ?thesis using less.prems
      by (subst heap_siftUp.simps, subst up_list.simps) auto
  next
    case True
    have p: "parent i < i" "(i - 1) div 2 = parent i" "parent i < length (h_order h)"
      using True less.prems(2) parent_less [OF True] by (auto simp: parent_def)
    have better: "heap_better g (h_order h ! i) (h_order h ! parent i)
        = Some (vertex_better g (h_order h ! i) (h_order h ! parent i))"
      using assms(1) less.prems p by (intro heap_better_lift) (auto intro: heap_wf_nth)
    show ?thesis
    proof (cases "vertex_better g (h_order h ! i) (h_order h ! parent i)")
      case False
      then show ?thesis using True less.prems p better
        by (subst heap_siftUp.simps, subst up_list.simps) (simp add: slice_simps)
    next
      case up: True
      obtain h1 where h1: "heap_swap i (parent i) h = Some h1" "heap_wf n h1"
        "h_order h1 = swap_at i (parent i) (h_order h)" "h_active h1 = h_active h"
        using heap_swap_lift [OF less.prems p(3)] by blast
      obtain h' where "heap_siftUp g (parent i) h1 = Some h'" "heap_wf n h'"
        "h_order h' = up_list (vertex_better g) (parent i) (h_order h1)" "h_active h' = h_active h1"
        using less.IH [OF p(1) h1(2)] h1(3) p(3) by auto
      with h1 show ?thesis using True less.prems p better up
        by (subst heap_siftUp.simps, subst up_list.simps) (simp add: slice_simps)
    qed
  qed
qed

lemma heap_pick_child_lift:
  assumes "degrees_for n g" "heap_wf n h" "2 * i + 1 < length (h_order h)"
  shows "heap_pick_child g (length (h_order h)) i h
     = Some (best_child (vertex_better g) i (h_order h))"
  using assms heap_better_lift [OF assms(1) heap_wf_nth [OF assms(2)] heap_wf_nth [OF assms(2)]]
  by (auto simp: heap_pick_child_def best_child_def slice_simps Let_def)

lemma heap_siftDown_loop_lift:
  assumes "degrees_for n g"
  shows "heap_wf n h \<Longrightarrow> \<exists>h'. heap_siftDown_loop g (length (h_order h)) i h = Some h' \<and> heap_wf n h' \<and>
     h_order h' = down_list (vertex_better g) i (h_order h) \<and> h_active h' = h_active h"
proof (induction "length (h_order h) - i" arbitrary: i h rule: less_induct)
  case less
  let ?c = "best_child (vertex_better g) i (h_order h)"
  show ?case
  proof (cases "2 * i + 1 < length (h_order h)")
    case False
    then show ?thesis using less.prems
      by (subst heap_siftDown_loop.simps, subst down_list.simps) auto
  next
    case True
    have c: "?c < length (h_order h)" "i < ?c" using best_child_lt [OF True] best_child_gt by auto
    then have i: "i < length (h_order h)" by simp
    have better: "heap_better g (h_order h ! ?c) (h_order h ! i)
        = Some (vertex_better g (h_order h ! ?c) (h_order h ! i))"
      using assms less.prems c(1) i by (intro heap_better_lift) (auto intro: heap_wf_nth)
    note pick = heap_pick_child_lift [OF assms less.prems True]
    show ?thesis
    proof (cases "vertex_better g (h_order h ! ?c) (h_order h ! i)")
      case False
      then show ?thesis using True less.prems c i better pick
        by (subst heap_siftDown_loop.simps, subst down_list.simps) (simp add: slice_simps)
    next
      case down: True
      obtain h1 where h1: "heap_swap i ?c h = Some h1" "heap_wf n h1"
        "h_order h1 = swap_at i ?c (h_order h)" "h_active h1 = h_active h"
        using heap_swap_lift [OF less.prems i c(1)] by blast
      have len: "length (h_order h1) = length (h_order h)" using h1(3) by simp
      have lt: "length (h_order h) - ?c < length (h_order h) - i" using c by simp
      obtain h' where "heap_siftDown_loop g (length (h_order h)) ?c h1 = Some h'" "heap_wf n h'"
        "h_order h' = down_list (vertex_better g) ?c (h_order h1)" "h_active h' = h_active h1"
        using less.hyps [of h1 ?c] h1(2) lt unfolding len by blast
      with h1 show ?thesis using True less.prems c i better pick down
        by (subst heap_siftDown_loop.simps, subst down_list.simps) (simp add: slice_simps)
    qed
  qed
qed

lemma heap_siftDown_lift:
  assumes "degrees_for n g" "heap_wf n h"
  shows "\<exists>h'. heap_siftDown g i h = Some h' \<and> heap_wf n h' \<and>
     h_order h' = down_list (vertex_better g) i (h_order h) \<and> h_active h' = h_active h"
  using heap_siftDown_loop_lift [OF assms] by (simp add: heap_siftDown_def)

section \<open>Operations keep the structure and the order\<close>

abbreviation heap_vertices :: "vertex_heap \<Rightarrow> vertex_id set" where
  "heap_vertices h \<equiv> set (h_order h)"

lemma heap_push_lift:
  assumes "degrees_for n g" "heap_wf n h" "unat v < n" "v \<notin> heap_vertices h"
  shows "\<exists>h'. heap_push v g h = Some h' \<and> heap_wf n h' \<and>
     h_order h' = up_list (vertex_better g) (length (h_order h)) (h_order h @ [v])"
proof -
  let ?h = "h\<lparr>h_order := h_order h @ [v], h_pos := (h_pos h)[unat v := int (length (h_order h))],
      h_active := (h_active h)[unat v := True]\<rparr>"
  have other: "unat v \<noteq> unat w" if "w \<in> heap_vertices h" for w
    using assms(4) that by (auto simp flip: word_unat_eq_iff)
  have "heap_wf n ?h"
    using assms other unfolding heap_wf_def
    by (auto simp: nth_append nth_list_update less_Suc_eq simp flip: word_unat_eq_iff)
  from heap_siftUp_lift [OF assms(1) this, of "length (h_order h)"] assms(2-4)
  show ?thesis by (auto simp: heap_push_def slice_simps heap_wf_def)
qed

lemma heap_remove_lift:
  assumes deg: "degrees_for n g" and wf: "heap_wf n h" and v: "v \<in> heap_vertices h"
  shows "\<exists>h' i. heap_remove v g h = Some h' \<and> heap_wf n h' \<and>
     i < length (h_order h) \<and> h_order h ! i = v \<and>
     h_order h' = (let xs = h_order h; ys = take (length xs - 1) (swap_at i (length xs - 1) xs)
       in if i < length ys then down_list (vertex_better g) i (up_list (vertex_better g) i ys) else ys)"
proof -
  obtain i where i: "i < length (h_order h)" "h_order h ! i = v" "h_pos h ! unat v = int i"
    using heap_wf_pos [OF wf v] .
  let ?last = "length (h_order h) - 1"
  have last: "?last < length (h_order h)" "nat_index (int (length (h_order h)) - 1) = Some ?last"
    using i(1) by (auto simp: nat_index_def nat_diff_distrib)
  obtain h1 where h1: "heap_swap i ?last h = Some h1" "heap_wf n h1"
    "h_order h1 = swap_at i ?last (h_order h)" "h_active h1 = h_active h"
    using heap_swap_lift [OF wf i(1) last(1)] by blast
  let ?ys = "take ?last (h_order h1)"
  let ?h2 = "h1\<lparr>h_order := ?ys, h_active := (h_active h1)[unat v := False],
      h_pos := (h_pos h1)[unat v := - 1]\<rparr>"
  have vn: "unat v < n" and act: "h_active h ! unat v"
    using wf v by (auto simp: heap_wf_def)
  have len1: "length (h_order h1) = Suc ?last" using h1(3) last(1) by simp
  have vlast: "h_order h1 ! ?last = v"
    using nth_swap_at [OF i(1) last(1) last(1)] i(2) by (simp add: h1(3))
  have split: "h_order h1 = ?ys @ [v]"
    using take_Suc_conv_app_nth [of ?last "h_order h1"] len1 vlast by simp
  have set1: "set (h_order h1) = insert v (set ?ys)" "v \<notin> set ?ys"
    using arg_cong [OF split, of set] arg_cong [OF split, of distinct] h1(2)
    by (auto simp: heap_wf_def)
  have other: "unat v \<noteq> unat w" if "w \<in> set ?ys" for w
    using set1(2) that by (auto simp flip: word_unat_eq_iff)
  have nth: "?ys ! k = h_order h1 ! k" "?ys ! k \<in> set ?ys" if "k < ?last" for k
    using that len1 by (auto simp: in_set_conv_nth)
  have wf2: "heap_wf n ?h2"
    using h1(2) vn other set1 nth len1 unfolding heap_wf_def
    by (auto simp: nth_list_update simp flip: word_unat_eq_iff)
  have lens: "length (h_active h) = n" "length (h_pos h) = n" "length (h_pos h1) = n"
    using wf h1(2) by (simp_all add: heap_wf_def)
  have start: "heap_remove v g h = (if i < length ?ys
      then do { h3 \<leftarrow> heap_siftUp g i ?h2; heap_siftDown g i h3 } else Some ?h2)"
    using lens vn act i(3) last(2) h1(1,4)
    by (simp add: heap_remove_def slice_simps Let_def)
  show ?thesis
  proof (cases "i < length ?ys")
    case False
    with start wf2 i h1(3) show ?thesis by (intro exI [of _ ?h2] exI [of _ i]) (simp add: Let_def)
  next
    case True
    then obtain h3 where h3: "heap_siftUp g i ?h2 = Some h3" "heap_wf n h3"
      "h_order h3 = up_list (vertex_better g) i ?ys"
      using heap_siftUp_lift [OF deg wf2, of i] by auto
    obtain h4 where "heap_siftDown g i h3 = Some h4" "heap_wf n h4"
      "h_order h4 = down_list (vertex_better g) i (h_order h3)"
      using heap_siftDown_lift [OF deg h3(2), of i] by blast
    with start h3 True i h1(3) show ?thesis
      by (intro exI [of _ h4] exI [of _ i]) (simp add: Let_def)
  qed
qed

lemma mset_take_out:
  assumes "i < length xs"
  shows "mset xs = add_mset (xs ! i) (mset (take (length xs - 1) (swap_at i (length xs - 1) xs)))"
proof -
  let ?m = "length xs - 1" and ?zs = "swap_at i (length xs - 1) xs"
  have m: "?m < length xs" using assms by simp
  have "?zs = take ?m ?zs @ [xs ! i]"
    using take_Suc_conv_app_nth [of ?m ?zs] m nth_swap_at [OF assms m m] by simp
  then have "mset ?zs = mset (take ?m ?zs @ [xs ! i])" by (rule arg_cong)
  then show ?thesis using mset_swap_at [OF assms m] by simp
qed

lemma heap_remove_ok:
  assumes "degrees_for n g" "heap_wf n h" "v \<in> heap_vertices h"
  shows "\<exists>h'. heap_remove v g h = Some h' \<and> heap_wf n h' \<and>
     heap_vertices h' = heap_vertices h - {v} \<and> length (h_order h) = Suc (length (h_order h')) \<and>
     (heap_ordered (vertex_better g) (h_order h) \<longrightarrow> heap_ordered (vertex_better g) (h_order h'))"
proof -
  let ?xs = "h_order h"
  obtain h' i where h': "heap_remove v g h = Some h'" "heap_wf n h'" "i < length ?xs" "?xs ! i = v"
    and order: "h_order h' = (let ys = take (length ?xs - 1) (swap_at i (length ?xs - 1) ?xs)
       in if i < length ys then down_list (vertex_better g) i (up_list (vertex_better g) i ys) else ys)"
    using heap_remove_lift [OF assms] by (auto simp: Let_def)
  have "mset (h_order h') = mset (take (length ?xs - 1) (swap_at i (length ?xs - 1) ?xs))"
    by (simp add: order Let_def down_list_mset up_list_mset)
  then have mset: "mset ?xs = add_mset v (mset (h_order h'))"
    using mset_take_out [OF h'(3)] h'(4) by simp
  then have "set ?xs = insert v (set (h_order h'))"
    by (metis set_mset_add_mset_insert set_mset_mset)
  moreover have "distinct ?xs" using assms(2) by (simp add: heap_wf_def)
  then have "v \<notin> set (h_order h')"
    using mset mset_eq_imp_distinct_iff [of ?xs "v # h_order h'"] by simp
  moreover have "length ?xs = Suc (length (h_order h'))"
    using mset by (metis size_add_mset size_mset)
  moreover have "heap_ordered (vertex_better g) ?xs \<Longrightarrow> heap_ordered (vertex_better g) (h_order h')"
    unfolding order Let_def
    by (rule vb.take_out_ordered [OF vb.heap_ordered_but_at h'(3)], assumption) (rule h'(3))
  ultimately show ?thesis using h' by auto
qed

text \<open>
  \<open>same_scores_but v g g'\<close>: between two graphs only the score of \<open>v\<close> may differ. This is
  the situation in which \<open>Update(v)\<close> restores the heap order.
\<close>

definition same_scores_but :: "vertex_id \<Rightarrow> mutable_graph \<Rightarrow> mutable_graph \<Rightarrow> bool" where
  "same_scores_but v g g' \<longleftrightarrow> (\<forall>w. w \<noteq> v \<longrightarrow> vertex_score g' w = vertex_score g w)"

lemma heap_Update_ok:
  assumes deg: "degrees_for n g'" and wf: "heap_wf n h" and v: "unat v < n"
  shows "\<exists>h'. heap_Update v g' h = Some h' \<and> heap_wf n h' \<and>
     heap_vertices h' = (if g_out_degree g' ! unat v \<le> 0 then heap_vertices h - {v}
                         else insert v (heap_vertices h)) \<and>
     (same_scores_but v g g' \<longrightarrow> heap_ordered (vertex_better g) (h_order h)
        \<longrightarrow> heap_ordered (vertex_better g') (h_order h'))"
proof -
  have act: "h_active h ! unat v = (v \<in> heap_vertices h)" and lens: "length (h_active h) = n"
    "length (h_pos h) = n" and dist: "distinct (h_order h)"
    using wf v by (simp_all add: heap_wf_def)
  have dlen: "unat v < length (g_out_degree g')" using deg v by (simp add: degrees_for_def)
  have same: "vertex_better g x y = vertex_better g' x y"
    if "same_scores_but v g g'" "x \<noteq> v" "y \<noteq> v" for x y
    using that by (simp add: same_scores_but_def vertex_better_def)
  have keep: "heap_ordered (vertex_better g') (h_order h)"
    if "v \<notin> heap_vertices h" "same_scores_but v g g'" "heap_ordered (vertex_better g) (h_order h)"
  proof -
    have "heap_ordered (vertex_better g) (h_order h) = heap_ordered (vertex_better g') (h_order h)"
      using that(1) by (intro heap_ordered_cong same [OF that(2)]) auto
    with that(3) show ?thesis by simp
  qed
  consider (gone) "v \<notin> heap_vertices h" "g_out_degree g' ! unat v \<le> 0"
    | (rem) "v \<in> heap_vertices h" "g_out_degree g' ! unat v \<le> 0"
    | (push) "v \<notin> heap_vertices h" "\<not> g_out_degree g' ! unat v \<le> 0"
    | (sift) "v \<in> heap_vertices h" "\<not> g_out_degree g' ! unat v \<le> 0"
    by blast
  then show ?thesis
  proof cases
    case gone
    then show ?thesis using wf act lens dlen v keep
      by (simp add: heap_Update_def heap_remove_def slice_simps)
  next
    case rem
    obtain i where i: "i < length (h_order h)" "h_order h ! i = v" using heap_wf_pos [OF wf rem(1)] .
    obtain h' where h': "heap_remove v g' h = Some h'" "heap_wf n h'"
      "heap_vertices h' = heap_vertices h - {v}"
      using heap_remove_ok [OF deg wf rem(1)] by blast
    have "heap_ordered (vertex_better g') (h_order h')"
      if "same_scores_but v g g'" "heap_ordered (vertex_better g) (h_order h)"
    proof -
      obtain j where "h_order h' = (let xs = h_order h; ys = take (length xs - 1) (swap_at j (length xs - 1) xs)
          in if j < length ys then down_list (vertex_better g') j (up_list (vertex_better g') j ys) else ys)"
        "j < length (h_order h)" "h_order h ! j = v"
        using heap_remove_lift [OF deg wf rem(1)] h'(1) by auto
      moreover have "j = i" using calculation(2,3) i dist nth_eq_iff_index_eq by metis
      moreover have "ordered_but_at (vertex_better g') (h_order h) i"
        using ordered_but_at_change [OF vb.better_order_axioms that(2) dist i(1)] same [OF that(1)] i(2)
        by blast
      ultimately show ?thesis
        using vb.take_out_ordered [of g' "h_order h" i] i(1) by (simp only: Let_def)
    qed
    with h' rem dlen show ?thesis by (auto simp: heap_Update_def slice_simps)
  next
    case push
    obtain h' where h': "heap_push v g' h = Some h'" "heap_wf n h'"
      "h_order h' = up_list (vertex_better g') (length (h_order h)) (h_order h @ [v])"
      using heap_push_lift [OF deg wf v push(1)] by blast
    have "set (h_order h') = set (h_order h @ [v])"
      unfolding h'(3) by (rule up_list_set) simp
    then have "heap_vertices h' = insert v (heap_vertices h)" by simp
    moreover have "heap_ordered (vertex_better g') (h_order h')"
      if "same_scores_but v g g'" "heap_ordered (vertex_better g) (h_order h)"
      unfolding h'(3) using keep [OF push(1) that] by (rule vb.append_ordered)
    ultimately show ?thesis using h' push act lens dlen v by (simp add: heap_Update_def slice_simps)
  next
    case sift
    obtain i where i: "i < length (h_order h)" "h_order h ! i = v" "h_pos h ! unat v = int i"
      using heap_wf_pos [OF wf sift(1)] .
    obtain h1 where h1: "heap_siftUp g' i h = Some h1" "heap_wf n h1"
      "h_order h1 = up_list (vertex_better g') i (h_order h)"
      using heap_siftUp_lift [OF deg wf i(1)] by blast
    have set1: "heap_vertices h1 = heap_vertices h"
      unfolding h1(3) using i(1) by (rule up_list_set)
    with sift(1) obtain j where j: "j < length (h_order h1)" "h_order h1 ! j = v" "h_pos h1 ! unat v = int j"
      using heap_wf_pos [OF h1(2)] by blast
    obtain h2 where h2: "heap_siftDown g' j h1 = Some h2" "heap_wf n h2"
      "h_order h2 = down_list (vertex_better g') j (h_order h1)"
      using heap_siftDown_lift [OF deg h1(2)] by blast
    have set2: "heap_vertices h2 = heap_vertices h"
      using set1 by (simp add: h2(3) down_list_set)
    have run: "heap_Update v g' h = Some h2"
      using sift act lens dlen v i(3) j(3) h1 h2 by (simp add: heap_Update_def slice_simps heap_wf_def)
    have "heap_ordered (vertex_better g') (h_order h2)"
      if sc: "same_scores_but v g g'" and ord: "heap_ordered (vertex_better g) (h_order h)"
    proof -
      have "ordered_but_at (vertex_better g') (h_order h) i"
        using ordered_but_at_change [OF vb.better_order_axioms ord dist i(1)] same [OF sc] i(2) by blast
      moreover have "j = i" if "up_list (vertex_better g') i (h_order h) = h_order h"
        using that i j h1(3) dist nth_eq_iff_index_eq by metis
      ultimately show ?thesis unfolding h2(3) h1(3) by (rule vb.up_down_ordered [OF _ i(1)])
    qed
    with run h2(2) set2 sift show ?thesis by auto
  qed
qed

section \<open>Building the heap and popping the best vertex\<close>

definition built_for :: "nat \<Rightarrow> mutable_graph \<Rightarrow> nat list \<Rightarrow> vertex_heap \<Rightarrow> bool" where
  "built_for n g us h \<longleftrightarrow> heap_wf n h \<and> heap_ordered (vertex_better g) (h_order h) \<and>
     heap_vertices h = {v. unat v \<in> set us \<and> g_out_degree g ! unat v > 0}"

lemma built_for_step:
  assumes deg: "degrees_for n g" and n: "n \<le> 2 ^ 32" and u: "u < n" "u \<notin> set us"
    and built: "built_for n g us h"
  shows "\<exists>h'. (do { od \<leftarrow> slice_get (g_out_degree g) u;
           if od > 0 then heap_push (of_nat u) g h else Some h }) = Some h' \<and> built_for n g (us @ [u]) h'"
proof -
  have uu: "unat (of_nat u :: vertex_id) = u" using u n by (simp add: unat_of_nat)
  have eq: "unat v = u \<longleftrightarrow> v = of_nat u" for v :: vertex_id
    using uu by (metis word_unat_eq_iff)
  let ?P = "\<lambda>v :: vertex_id. g_out_degree g ! unat v > 0"
  have split: "{v. unat v \<in> set (us @ [u]) \<and> ?P v}
      = (if ?P (of_nat u) then insert (of_nat u) {v. unat v \<in> set us \<and> ?P v}
         else {v. unat v \<in> set us \<and> ?P v})"
    using eq by auto
  have len: "u < length (g_out_degree g)" using deg u by (simp add: degrees_for_def)
  show ?thesis
  proof (cases "g_out_degree g ! u > 0")
    case False
    then have "built_for n g (us @ [u]) h"
      using built unfolding built_for_def split by (simp only: uu if_False)
    with False len show ?thesis by (simp add: slice_simps)
  next
    case True
    have "of_nat u \<notin> heap_vertices h" using built u uu by (simp add: built_for_def)
    then obtain h' where h': "heap_push (of_nat u) g h = Some h'" "heap_wf n h'"
      "h_order h' = up_list (vertex_better g) (length (h_order h)) (h_order h @ [of_nat u])"
      using heap_push_lift [OF deg _ _, of h "of_nat u"] built u uu by (auto simp: built_for_def)
    have "set (h_order h') = set (h_order h @ [of_nat u])"
      unfolding h'(3) by (rule up_list_set) simp
    moreover have "heap_ordered (vertex_better g) (h_order h')"
      unfolding h'(3) using built by (intro vb.append_ordered) (simp add: built_for_def)
    ultimately have "built_for n g (us @ [u]) h'"
      using built h'(2) True unfolding built_for_def split by (simp add: uu)
    with True len h'(1) show ?thesis by (simp add: slice_simps)
  qed
qed

lemma NewIndexedVertexHeap_ok:
  assumes deg: "degrees_for n g" and n: "g_n g = n" "n \<le> 2 ^ 32"
  shows "\<exists>h. NewIndexedVertexHeap g = Some h \<and> heap_wf n h \<and>
     heap_ordered (vertex_better g) (h_order h) \<and>
     heap_vertices h = {v. unat v < n \<and> g_out_degree g ! unat v > 0}"
proof -
  let ?h0 = "\<lparr>h_order = [], h_pos = replicate (g_n g) (- 1), h_active = replicate (g_n g) False\<rparr>"
  let ?f = "\<lambda>v h. do { od \<leftarrow> slice_get (g_out_degree g) v;
         if od > 0 then heap_push (of_nat v) g h else Some h }"
  have "\<exists>h. fold_opt ?f [0..<n] ?h0 = Some h \<and> built_for n g [0..<n] h"
  proof (rule fold_opt_rule)
    show "built_for n g [] ?h0" by (simp add: built_for_def heap_wf_def heap_ordered_def n)
  next
    fix us u zs h assume split: "[0..<n] = us @ u # zs" and built: "built_for n g us h"
    have "u < n" "u \<notin> set us"
      using arg_cong [OF split, of set] arg_cong [OF split, of distinct] by auto
    from built_for_step [OF deg n(2) this built]
    show "\<exists>h'. ?f u h = Some h' \<and> built_for n g (us @ [u]) h'" .
  qed
  then show ?thesis by (auto simp: NewIndexedVertexHeap_def n built_for_def)
qed

text \<open>The outcome of a pop: what leaves the heap, and that the popped vertex is a best one.\<close>

definition popped :: "mutable_graph \<Rightarrow> vertex_heap \<Rightarrow> vertex_id \<Rightarrow> vertex_heap \<Rightarrow> bool" where
  "popped g h v h' \<longleftrightarrow> heap_vertices h' \<subseteq> heap_vertices h \<and>
     (\<forall>w \<in> heap_vertices h - heap_vertices h' - {v}. g_out_degree g ! unat w \<le> 0) \<and>
     (v = InvalidVertex \<and> heap_vertices h' = {} \<and> (\<forall>w \<in> heap_vertices h. g_out_degree g ! unat w \<le> 0)
      \<or> v \<in> heap_vertices h \<and> v \<notin> heap_vertices h' \<and> g_out_degree g ! unat v > 0)"

definition popped_best :: "mutable_graph \<Rightarrow> vertex_heap \<Rightarrow> vertex_id \<Rightarrow> vertex_heap \<Rightarrow> bool" where
  "popped_best g h v h' \<longleftrightarrow> heap_ordered (vertex_better g) (h_order h) \<longrightarrow>
     heap_ordered (vertex_better g) (h_order h') \<and>
     (\<forall>w \<in> heap_vertices h. g_out_degree g ! unat w > 0 \<longrightarrow> \<not> vertex_better g w v)"

lemma popped_skip:
  assumes "popped g h1 v h'" "heap_vertices h1 = heap_vertices h - {u}" "\<not> g_out_degree g ! unat u > 0"
  shows "popped g h v h'"
  using assms unfolding popped_def by auto

lemma popped_best_skip:
  assumes "popped_best g h1 v h'" "heap_vertices h1 = heap_vertices h - {u}"
    "\<not> g_out_degree g ! unat u > 0"
    "heap_ordered (vertex_better g) (h_order h) \<longrightarrow> heap_ordered (vertex_better g) (h_order h1)"
  shows "popped_best g h v h'"
  using assms unfolding popped_best_def by auto

lemma PopBest_ok:
  assumes deg: "degrees_for n g"
  shows "heap_wf n h \<Longrightarrow> \<exists>v h'. PopBestWithOutgoing g h = Some (v, h') \<and> heap_wf n h' \<and>
     popped g h v h' \<and> popped_best g h v h'"
proof (induction "length (h_order h)" arbitrary: h)
  case 0
  then show ?case
    by (subst PopBestWithOutgoing.simps) (simp add: popped_def popped_best_def)
next
  case (Suc k)
  let ?v = "h_order h ! 0"
  have "0 < length (h_order h)" using Suc.hyps(2) by linarith
  then have v: "?v \<in> heap_vertices h" "0 < length (h_order h)" by (simp_all only: nth_mem)
  have "unat ?v < n" using Suc.prems v by (simp add: heap_wf_def)
  then have dv: "slice_get (g_out_degree g) (unat ?v) = Some (g_out_degree g ! unat ?v)"
    using deg by (simp add: degrees_for_def slice_simps)
  obtain h1 where h1: "heap_remove ?v g h = Some h1" "heap_wf n h1"
    "heap_vertices h1 = heap_vertices h - {?v}" "length (h_order h) = Suc (length (h_order h1))"
    "heap_ordered (vertex_better g) (h_order h) \<longrightarrow> heap_ordered (vertex_better g) (h_order h1)"
    using heap_remove_ok [OF deg Suc.prems v(1)] by blast
  have root: "\<not> vertex_better g w ?v"
    if "heap_ordered (vertex_better g) (h_order h)" "w \<in> heap_vertices h" for w
    using that vb.heap_root_best [OF that(1)] by (auto simp: in_set_conv_nth)
  show ?case
  proof (cases "g_out_degree g ! unat ?v > 0")
    case True
    then have "PopBestWithOutgoing g h = Some (?v, h1)"
      using v dv h1(1) by (subst PopBestWithOutgoing.simps) (simp add: slice_simps)
    moreover have "popped g h ?v h1" using True v h1(3) by (auto simp: popped_def)
    moreover have "popped_best g h ?v h1" using root h1(5) by (auto simp: popped_best_def)
    ultimately show ?thesis using h1(2) by blast
  next
    case False
    have step: "PopBestWithOutgoing g h = PopBestWithOutgoing g h1"
      using False v dv h1(1) by (subst PopBestWithOutgoing.simps) (simp add: slice_simps)
    have "k = length (h_order h1)" using Suc.hyps(2) h1(4) by simp
    from Suc.hyps(1) [OF this h1(2)] obtain v h' where
      run: "PopBestWithOutgoing g h1 = Some (v, h')" "heap_wf n h'"
      and "popped g h1 v h'" "popped_best g h1 v h'"
      by blast
    then have "popped g h v h'" "popped_best g h v h'"
      using popped_skip [OF _ h1(3) False] popped_best_skip [OF _ h1(3) False h1(5)] by simp_all
    with run step show ?thesis by auto
  qed
qed

section \<open>Properties\<close>

text \<open>
  C25: on an ordered heap \<open>PopBestWithOutgoing\<close> returns a vertex of the heap with outgoing arcs
  that no other such vertex beats, and leaves an ordered heap without it; \<open>InvalidVertex\<close>
  comes back only when no vertex of the heap has outgoing arcs.
\<close>

theorem PopBest_returns_best:
  assumes "degrees_for n g" "heap_wf n h" "heap_ordered (vertex_better g) (h_order h)"
  shows "\<exists>v h'. PopBestWithOutgoing g h = Some (v, h') \<and> heap_wf n h' \<and>
    heap_ordered (vertex_better g) (h_order h') \<and>
    (v = InvalidVertex \<and> (\<forall>w \<in> heap_vertices h. g_out_degree g ! unat w \<le> 0) \<or>
     v \<in> heap_vertices h - heap_vertices h' \<and> g_out_degree g ! unat v > 0) \<and>
    (\<forall>w \<in> heap_vertices h. g_out_degree g ! unat w > 0 \<longrightarrow> \<not> vertex_better g w v)"
  using PopBest_ok [OF assms(1,2)] assms(3) by (auto simp: popped_def popped_best_def)

theorem PopBest_returns_best_witness:
  "\<exists>g h v h'. NewMutableGraph 3 [Arc 0 0 1, Arc 1 1 2] = Some g \<and> NewIndexedVertexHeap g = Some h \<and>
     PopBestWithOutgoing g h = Some (v, h') \<and> g_out_degree g ! unat v > 0"
proof -
  let ?as = "[Arc 0 0 1, Arc 1 1 2]"
  have "arcs_ok 3 ?as" by (auto simp: arcs_ok_def ids_are_positions_def less_Suc_eq)
  from NewMutableGraph_ok [OF this] obtain g where g: "NewMutableGraph 3 ?as = Some g" "graph_ok 3 ?as g"
    "alive_arcs g = mset ?as" by blast
  then have core: "graph_core 3 ?as g" and deg: "degrees_ok 3 g" and n: "g_n g = 3"
    by (simp_all add: graph_ok_def graph_core_def graph_shape_def)
  have one: "g_out_degree g ! unat (0 :: vertex_id) > 0" using deg g(3) by (simp add: degrees_ok_def)
  obtain h where h: "NewIndexedVertexHeap g = Some h" "heap_wf 3 h" "heap_ordered (vertex_better g) (h_order h)"
    "heap_vertices h = {v. unat v < 3 \<and> g_out_degree g ! unat v > 0}"
    using NewIndexedVertexHeap_ok [OF graph_core_degrees [OF core] n] by auto
  have "0 \<in> heap_vertices h" using one h(4) by simp
  with PopBest_returns_best [OF graph_core_degrees [OF core] h(2,3)] g(1) h(1) one show ?thesis
    by (metis (no_types, lifting) not_le)
qed

text \<open>
  C26: \<open>Update\<close> keeps the heap well formed, puts the vertex in or takes it out according to
  its out-degree, and restores the order after a change of that one vertex's score.
\<close>

theorem heap_Update_restores:
  assumes "degrees_for n g'" "heap_wf n h" "unat v < n"
    and "same_scores_but v g g'" "heap_ordered (vertex_better g) (h_order h)"
  shows "\<exists>h'. heap_Update v g' h = Some h' \<and> heap_wf n h' \<and> heap_ordered (vertex_better g') (h_order h') \<and>
    heap_vertices h' = (if g_out_degree g' ! unat v \<le> 0 then heap_vertices h - {v}
                        else insert v (heap_vertices h))"
  using heap_Update_ok [OF assms(1-3), of g] assms(4,5) by blast

theorem heap_Update_restores_witness:
  "\<exists>g h h'. NewMutableGraph 3 [Arc 0 0 1, Arc 1 1 2] = Some g \<and> NewIndexedVertexHeap g = Some h \<and>
     heap_Update 1 g h = Some h' \<and> heap_ordered (vertex_better g) (h_order h')"
proof -
  let ?as = "[Arc 0 0 1, Arc 1 1 2]"
  have "arcs_ok 3 ?as" by (auto simp: arcs_ok_def ids_are_positions_def less_Suc_eq)
  from NewMutableGraph_ok [OF this] obtain g where g: "NewMutableGraph 3 ?as = Some g" "graph_ok 3 ?as g" by blast
  then have core: "graph_core 3 ?as g" and n: "g_n g = 3"
    by (simp_all add: graph_ok_def graph_core_def graph_shape_def)
  note deg = graph_core_degrees [OF core]
  obtain h where h: "NewIndexedVertexHeap g = Some h" "heap_wf 3 h" "heap_ordered (vertex_better g) (h_order h)"
    using NewIndexedVertexHeap_ok [OF deg n] by auto
  have "same_scores_but 1 g g" by (simp add: same_scores_but_def)
  with heap_Update_restores [OF deg h(2) _ _ h(3), of 1] g(1) h(1) show ?thesis by auto
qed

end
