(* ===== verification/Dense_Route.thy ===== *)
theory Dense_Route
  imports Vertex_Heap
begin

text \<open>
  \<open>DenseRouteFirst\<close> of \<open>internal/arccover/dense.go\<close>: greedy growth of fragments. A Go
  context is polled through \<open>ctx.Err()\<close>; the model takes the answers as a function
  \<open>ctx :: nat \<Rightarrow> bool\<close> of the number of polls made so far (constantly \<open>False\<close> for a
  \<open>nil\<close> context), and each function returns the new number.
\<close>

type_synonym poll = "nat \<Rightarrow> bool"

section \<open>The code\<close>

text \<open>The inner loop: extend the fragment \<open>es\<close> from \<open>current\<close>.\<close>

function dense_grow :: "int \<Rightarrow> int \<Rightarrow> vertex_id \<Rightarrow> arc list \<Rightarrow> mutable_graph \<Rightarrow> vertex_heap
    \<Rightarrow> (arc list \<times> mutable_graph \<times> vertex_heap) option" where
  "dense_grow maxLegs window current es g h =
     (if int (length es) < maxLegs then do {
        r \<leftarrow> SelectDenseNext current window g;
        case r of
          None \<Rightarrow> Some (es, g, h)
        | Some (nxt, edge) \<Rightarrow> do {
            g' \<leftarrow> graph_Remove (arc_id edge) g;
            h1 \<leftarrow> heap_Update (arc_from edge) g' h;
            h2 \<leftarrow> heap_Update (arc_to edge) g' h1;
            dense_grow maxLegs window nxt (es @ [edge]) g' h2 } }
      else Some (es, g, h))"
  by pat_completeness auto
termination
  by (relation "measure (\<lambda>(maxLegs, window, current, es, g, h). nat (maxLegs - int (length es)))") auto

declare dense_grow.simps [simp del]

text \<open>The outer loop: \<open>k\<close> polls so far, \<open>fid\<close> the next fragment identifier.\<close>

partial_function (option) dense_loop :: "poll \<Rightarrow> int \<Rightarrow> int \<Rightarrow> nat \<Rightarrow> int \<Rightarrow> fragment list \<Rightarrow> mutable_graph
    \<Rightarrow> vertex_heap \<Rightarrow> (nat \<times> int \<times> fragment list \<times> mutable_graph) option" where
  "dense_loop ctx maxLegs window k fid fragments g starts =
     (if RemainingEdges g > 0 then
        if ctx k then Some (Suc k, fid, fragments, g)
        else do {
          (start, starts1) \<leftarrow> PopBestWithOutgoing g starts;
          if start = InvalidVertex then Some (Suc k, fid, fragments, g)
          else do {
            (es, g', starts2) \<leftarrow> dense_grow maxLegs window start [] g starts1;
            if length es > 0
            then dense_loop ctx maxLegs window (Suc k) (fid + 1)
                   (fragments @ [\<lparr>frag_edges = es, frag_id = fid\<rparr>]) g' starts2
            else dense_loop ctx maxLegs window (Suc k) fid fragments g' starts2 } }
      else Some (k, fid, fragments, g))"

declare dense_loop.simps [code]

text \<open>The last loop: every arc that is left becomes a fragment of its own.\<close>

definition dense_leftover :: "arc \<Rightarrow> int \<times> fragment list \<times> mutable_graph
    \<Rightarrow> (int \<times> fragment list \<times> mutable_graph) option" where
  "dense_leftover edge = (\<lambda>(fid, fragments, g). do {
     g' \<leftarrow> graph_Remove (arc_id edge) g;
     Some (fid + 1, fragments @ [\<lparr>frag_edges = [edge], frag_id = fid\<rparr>], g') })"

definition DenseRouteFirst :: "poll \<Rightarrow> nat \<Rightarrow> mutable_graph \<Rightarrow> int \<Rightarrow> int
    \<Rightarrow> (nat \<times> fragment list \<times> mutable_graph) option" where
  "DenseRouteFirst ctx k g maxLegs candidateWindow =
     (if maxLegs \<le> 0 then Some (k, [], g)
      else let window = (if candidateWindow \<le> 0 then 8 else candidateWindow) in do {
        starts \<leftarrow> NewIndexedVertexHeap g;
        (k', fid, fragments, g1) \<leftarrow> dense_loop ctx maxLegs window k 0 [] g starts;
        (_, fragments', g2) \<leftarrow> fold_opt dense_leftover (RemainingArcs g1) (fid, fragments, g1);
        Some (k', fragments', g2) })"

section \<open>Trails and fragments\<close>

text \<open>A trail: each arc starts where the one before it ends.\<close>

fun trail :: "arc list \<Rightarrow> bool" where
  "trail (a # b # as) = (arc_to a = arc_from b \<and> trail (b # as))"
| "trail _ = True"

lemma trail_snoc:
  "trail (es @ [e]) \<longleftrightarrow> trail es \<and> (es = [] \<or> arc_to (last es) = arc_from e)"
  by (induction es rule: trail.induct) auto

definition fragment_ok :: "int \<Rightarrow> fragment \<Rightarrow> bool" where
  "fragment_ok maxLegs f \<longleftrightarrow>
     frag_edges f \<noteq> [] \<and> trail (frag_edges f) \<and> int (length (frag_edges f)) \<le> maxLegs"

definition frag_arcs :: "fragment list \<Rightarrow> arc multiset" where
  "frag_arcs fs = mset (concat (map frag_edges fs))"

text \<open>Fragments are numbered in the order of creation.\<close>

definition numbered :: "fragment list \<Rightarrow> bool" where
  "numbered fs \<longleftrightarrow> (\<forall>i < length fs. frag_id (fs ! i) = int i)"

lemma numbered_snoc:
  "numbered fs \<Longrightarrow> frag_id f = int (length fs) \<Longrightarrow> numbered (fs @ [f])"
  by (auto simp: numbered_def nth_append less_Suc_eq)

definition fragments_ok :: "int \<Rightarrow> fragment list \<Rightarrow> bool" where
  "fragments_ok maxLegs fs \<longleftrightarrow> (\<forall>f \<in> set fs. fragment_ok maxLegs f) \<and> numbered fs"

lemma fragments_ok_snoc:
  assumes "fragments_ok L fs" "es \<noteq> []" "trail es" "int (length es) \<le> L"
  shows "fragments_ok L (fs @ [\<lparr>frag_edges = es, frag_id = int (length fs)\<rparr>])"
  using assms by (simp add: fragments_ok_def fragment_ok_def numbered_snoc)

lemma frag_arcs_snoc: "frag_arcs (fs @ [f]) = frag_arcs fs + mset (frag_edges f)"
  by (simp add: frag_arcs_def)

section \<open>The heap holds the vertices with outgoing arcs\<close>

definition heap_covers :: "nat \<Rightarrow> mutable_graph \<Rightarrow> vertex_heap \<Rightarrow> vertex_id set \<Rightarrow> bool" where
  "heap_covers n g h X \<longleftrightarrow> heap_wf n h \<and>
     (\<forall>v. unat v < n \<longrightarrow> v \<notin> X \<longrightarrow> (v \<in> heap_vertices h) = (g_out_degree g ! unat v > 0))"

lemma Update_covers:
  assumes "degrees_for n g" "heap_covers n g h X" "unat v < n"
  shows "\<exists>h'. heap_Update v g h = Some h' \<and> heap_covers n g h' (X - {v})"
proof -
  have "heap_wf n h" using assms(2) by (simp add: heap_covers_def)
  from heap_Update_ok [OF assms(1) this assms(3)]
  obtain h' where h': "heap_Update v g h = Some h'" "heap_wf n h'"
    "heap_vertices h' = (if g_out_degree g ! unat v \<le> 0 then heap_vertices h - {v}
                         else insert v (heap_vertices h))"
    by blast
  have "heap_covers n g h' (X - {v})"
    using assms(2) h'(2,3) by (auto simp: heap_covers_def split: if_splits)
  with h'(1) show ?thesis by blast
qed

lemma removed_out_degree:
  assumes "graph_core n required g" "graph_core n required g'"
    and "alive_arcs g = add_mset e (alive_arcs g')" "unat v < n" "v \<noteq> arc_from e"
  shows "g_out_degree g' ! unat v = g_out_degree g ! unat v"
  using assms by (simp add: graph_core_def degrees_ok_def word_unat_eq_iff)

lemma Remove_covers:
  assumes "graph_core n required g" "graph_core n required g'"
    and "alive_arcs g = add_mset e (alive_arcs g')" "heap_covers n g h {arc_from e}"
  shows "heap_covers n g' h {arc_from e}"
  using assms(4) removed_out_degree [OF assms(1-3)] by (auto simp: heap_covers_def)

section \<open>One fragment\<close>

definition walk_pos :: "vertex_id \<Rightarrow> arc list \<Rightarrow> vertex_id" where
  "walk_pos start es = (if es = [] then start else arc_to (last es))"

text \<open>
  One step of the inner loop: when the current vertex has an outgoing arc, one arc moves from
  the graph to the fragment, and the heap again holds exactly the vertices with outgoing arcs.
\<close>

lemma dense_grow_step:
  assumes ok: "graph_ok n required g" and cov: "heap_covers n g h {cur}"
    and cur: "unat cur < n" and len: "int (length es) < L"
  shows "(g_out_degree g ! unat cur = 0 \<and> dense_grow L w cur es g h = Some (es, g, h)) \<or>
    (\<exists>e g' h'. dense_grow L w cur es g h = dense_grow L w (arc_to e) (es @ [e]) g' h' \<and>
       arc_from e = cur \<and> unat (arc_to e) < n \<and> g_out_degree g ! unat cur > 0 \<and>
       graph_ok n required g' \<and> alive_arcs g = add_mset e (alive_arcs g') \<and> heap_covers n g' h' {})"
proof -
  have core: "graph_core n required g" using ok by (simp add: graph_ok_def)
  then have arcs: "arcs_ok n required" by (simp add: graph_core_def)
  consider (stuck) "g_out_degree g ! unat cur = 0" "SelectDenseNext cur w g = Some None"
    | (go) i where "i \<in> set (g_out g ! unat cur)" "g_out_degree g ! unat cur > 0"
      "SelectDenseNext cur w g = Some (Some (arc_to (required ! unat i), required ! unat i))"
    using SelectDenseNext_ok [OF core cur, of w] by blast
  then show ?thesis
  proof cases
    case stuck
    then show ?thesis using len by (subst dense_grow.simps) simp
  next
    case go
    let ?e = "required ! unat i"
    note mem = adjacency_member [OF core cur go(1)]
    have src: "arc_from ?e = cur" using mem(3) by (simp add: word_unat_eq_iff)
    have dst: "unat (arc_to ?e) < n" using arcs_ok_valid [OF arcs mem(1)] by simp
    obtain g' where g': "graph_Remove i g = Some g'" "graph_ok n required g'"
      "alive_arcs g = add_mset ?e (alive_arcs g')"
      using graph_Remove_ok [OF ok mem(1,2)] by blast
    have core': "graph_core n required g'" using g'(2) by (simp add: graph_ok_def)
    have cov1: "heap_covers n g' h {cur}"
      using Remove_covers [OF core core' g'(3)] cov src by simp
    obtain h1 where h1: "heap_Update cur g' h = Some h1" "heap_covers n g' h1 {}"
      using Update_covers [OF graph_core_degrees [OF core'] cov1 cur] by auto
    obtain h2 where h2: "heap_Update (arc_to ?e) g' h1 = Some h2" "heap_covers n g' h2 {}"
      using Update_covers [OF graph_core_degrees [OF core'] h1(2) dst] by auto
    have "dense_grow L w cur es g h = dense_grow L w (arc_to ?e) (es @ [?e]) g' h2"
      using len go(3) g'(1) h1(1) h2(1) mem(4) src by (subst dense_grow.simps) simp
    with src dst go(2) g'(2,3) h2(2) show ?thesis by blast
  qed
qed

lemma heap_covers_mono: "heap_covers n g h X \<Longrightarrow> X \<subseteq> Y \<Longrightarrow> heap_covers n g h Y"
  by (auto simp: heap_covers_def)

lemma dense_grow_ok:
  assumes "graph_ok n required g" "heap_covers n g h {walk_pos start es}" "es \<noteq> [] \<longrightarrow> heap_covers n g h {}"
    and "unat (walk_pos start es) < n" "trail es" "int (length es) \<le> L"
    and "es = [] \<longrightarrow> L > 0 \<and> g_out_degree g ! unat start > 0"
  shows "\<exists>es' g' h'. dense_grow L w (walk_pos start es) es g h = Some (es', g', h') \<and>
     graph_ok n required g' \<and> heap_covers n g' h' {} \<and> es' \<noteq> [] \<and> trail es' \<and>
     int (length es') \<le> L \<and> mset es + alive_arcs g = mset es' + alive_arcs g'"
  using assms
proof (induction "nat (L - int (length es))" arbitrary: es g h rule: less_induct)
  case less
  note prems = less.prems
  show ?case
  proof (cases "int (length es) < L")
    case False
    with prems(7) have "es \<noteq> []" by auto
    moreover have "dense_grow L w (walk_pos start es) es g h = Some (es, g, h)"
      using False by (subst dense_grow.simps) simp
    ultimately show ?thesis using prems by auto
  next
    case True
    from dense_grow_step [OF prems(1,2,4) True, of w] show ?thesis
    proof (elim disjE exE conjE)
      assume stuck: "g_out_degree g ! unat (walk_pos start es) = 0"
        "dense_grow L w (walk_pos start es) es g h = Some (es, g, h)"
      then have "es \<noteq> []" using prems(7) by (auto simp: walk_pos_def)
      with stuck prems show ?thesis by auto
    next
      fix e g' h'
      assume run: "dense_grow L w (walk_pos start es) es g h = dense_grow L w (arc_to e) (es @ [e]) g' h'"
        and e: "arc_from e = walk_pos start es" "unat (arc_to e) < n"
        and g': "graph_ok n required g'" "alive_arcs g = add_mset e (alive_arcs g')" "heap_covers n g' h' {}"
      have pos: "walk_pos start (es @ [e]) = arc_to e" by (simp add: walk_pos_def)
      have "trail (es @ [e])" using prems(5) e(1) by (simp add: trail_snoc walk_pos_def)
      then have "\<exists>es' g'' h''. dense_grow L w (walk_pos start (es @ [e])) (es @ [e]) g' h' = Some (es', g'', h'') \<and>
        graph_ok n required g'' \<and> heap_covers n g'' h'' {} \<and> es' \<noteq> [] \<and> trail es' \<and>
        int (length es') \<le> L \<and> mset (es @ [e]) + alive_arcs g' = mset es' + alive_arcs g''"
        using True e(2) g' pos heap_covers_mono [OF g'(3)] by (intro less.hyps) auto
      then show ?thesis unfolding run pos using g'(2) by simp
    qed
  qed
qed

section \<open>All fragments\<close>

text \<open>
  The invariant of the outer loop: the heap holds the vertices with outgoing arcs, the
  fragments are well formed and numbered, and fragments and live arcs together are the
  required arcs.
\<close>

definition loop_inv :: "nat \<Rightarrow> arc list \<Rightarrow> int \<Rightarrow> int \<Rightarrow> fragment list \<Rightarrow> mutable_graph \<Rightarrow> bool" where
  "loop_inv n required L fid fs g \<longleftrightarrow> graph_ok n required g \<and> fragments_ok L fs \<and>
     fid = int (length fs) \<and> frag_arcs fs + alive_arcs g = mset required"

lemma no_outgoing_no_arcs:
  assumes ok: "graph_ok n required g" and none: "\<And>v :: vertex_id. unat v < n \<Longrightarrow> g_out_degree g ! unat v \<le> 0"
  shows "alive_arcs g = {#}"
proof (rule ccontr)
  assume "alive_arcs g \<noteq> {#}"
  then obtain a where a: "a \<in># alive_arcs g" by blast
  have core: "graph_core n required g" using ok by (simp add: graph_ok_def)
  have "a \<in> set required"
    using a core by (auto simp: mset_RemainingArcs [symmetric] RemainingArcs_def graph_core_def
        graph_shape_def in_set_zip dest: set_zip_leftD)
  then have v: "unat (arc_from a) < n" using core by (auto simp: graph_core_def arcs_ok_def)
  have "a \<in># out_of (unat (arc_from a)) (alive_arcs g)" using a by simp
  then obtain M where "out_of (unat (arc_from a)) (alive_arcs g) = add_mset a M"
    by (meson multi_member_split)
  then have "g_out_degree g ! unat (arc_from a) > 0"
    using core v by (simp add: graph_core_def degrees_ok_def)
  with none [OF v] show False by simp
qed

lemma popped_covers:
  assumes cov: "heap_covers n g h {}" and pop: "popped g h v h'" and wf: "heap_wf n h'"
  shows "heap_covers n g h' {v}"
proof -
  have "w \<in> heap_vertices h' \<longleftrightarrow> g_out_degree g ! unat w > 0" if w: "unat w < n" "w \<noteq> v" for w
  proof -
    have h: "w \<in> heap_vertices h \<longleftrightarrow> g_out_degree g ! unat w > 0"
      using cov w(1) by (simp add: heap_covers_def)
    have "heap_vertices h' \<subseteq> heap_vertices h" using pop by (simp add: popped_def)
    moreover have "w \<in> heap_vertices h'" if "w \<in> heap_vertices h" "g_out_degree g ! unat w > 0"
      using that pop w(2) by (force simp: popped_def)
    ultimately show ?thesis using h by blast
  qed
  with wf show ?thesis by (simp add: heap_covers_def)
qed

lemma dense_loop_ok:
  assumes n: "n < 2 ^ 32" and L: "L > 0"
  shows "loop_inv n required L fid fs g \<Longrightarrow> heap_covers n g h {} \<Longrightarrow>
    \<exists>k' fid' fs' g'. dense_loop ctx L w k fid fs g h = Some (k', fid', fs', g') \<and>
      loop_inv n required L fid' fs' g' \<and> k \<le> k' \<and>
      (RemainingEdges g' > 0 \<longrightarrow> (\<exists>j < k'. ctx j))"
proof (induction "size (alive_arcs g)" arbitrary: k fid fs g h rule: less_induct)
  case less
  note inv = less.prems(1) and cov = less.prems(2)
  have ok: "graph_ok n required g" using inv by (simp add: loop_inv_def)
  then have core: "graph_core n required g" by (simp add: graph_ok_def)
  note deg = graph_core_degrees [OF core]
  consider "\<not> RemainingEdges g > 0" | "RemainingEdges g > 0" "ctx k" | "RemainingEdges g > 0" "\<not> ctx k"
    by blast
  then show ?case
  proof cases
    case 1
    then show ?thesis using inv by (subst dense_loop.simps) simp
  next
    case 2
    then show ?thesis using inv by (subst dense_loop.simps) (auto intro: exI [of _ k])
  next
    case 3
    have wf: "heap_wf n h" using cov by (simp add: heap_covers_def)
    from PopBest_ok [OF deg wf] obtain v h1 where
      pop: "PopBestWithOutgoing g h = Some (v, h1)" "heap_wf n h1" "popped g h v h1" by blast
    have "alive_arcs g \<noteq> {#}"
      using ok 3(1) by (auto simp: graph_ok_def RemainingEdges_def)
    then obtain u :: vertex_id where "unat u < n" "g_out_degree g ! unat u > 0"
      using no_outgoing_no_arcs [OF ok] by (meson not_le)
    moreover from this have "u \<in> heap_vertices h" using cov by (simp add: heap_covers_def)
    ultimately have "\<not> (\<forall>u \<in> heap_vertices h. g_out_degree g ! unat u \<le> 0)" by (meson not_le)
    then have v: "v \<in> heap_vertices h" "g_out_degree g ! unat v > 0"
      using pop(3) by (auto simp: popped_def)
    have vn: "unat v < n" using wf v(1) by (simp add: heap_wf_def)
    have notinv: "v \<noteq> InvalidVertex"
    proof
      assume "v = InvalidVertex"
      then have "unat v = 2 ^ 32 - 1" by (simp add: InvalidVertex_def unsigned_minus_1_eq_mask mask_eq_exp_minus_1)
      with vn n show False by simp
    qed
    have "heap_covers n g h1 {v}" by (rule popped_covers [OF cov pop(3,2)])
    then obtain es g' h' where grow: "dense_grow L w v [] g h1 = Some (es, g', h')"
      "graph_ok n required g'" "heap_covers n g' h' {}" "es \<noteq> []" "trail es"
      "int (length es) \<le> L" "alive_arcs g = mset es + alive_arcs g'"
      using dense_grow_ok [OF ok, of h1 v "[]" L w] vn v(2) L by (auto simp: walk_pos_def)
    let ?fs = "fs @ [\<lparr>frag_edges = es, frag_id = fid\<rparr>]"
    have inv': "loop_inv n required L (fid + 1) ?fs g'"
      using inv grow fragments_ok_snoc [of L fs es]
      by (simp add: loop_inv_def frag_arcs_snoc add.assoc)
    have smaller: "size (alive_arcs g') < size (alive_arcs g)"
      using grow(4,7) by (simp add: size_mset)
    from less.hyps [OF smaller inv' grow(3), of "Suc k"] obtain k' fid' fs' g'' where rec:
      "dense_loop ctx L w (Suc k) (fid + 1) ?fs g' h' = Some (k', fid', fs', g'')"
      "loop_inv n required L fid' fs' g''" "Suc k \<le> k'" "RemainingEdges g'' > 0 \<longrightarrow> (\<exists>j < k'. ctx j)"
      by blast
    have "dense_loop ctx L w k fid fs g h = Some (k', fid', fs', g'')"
      using 3 pop(1) notinv grow(1,4) rec(1) by (subst dense_loop.simps) simp
    with rec(2-4) show ?thesis by auto
  qed
qed

lemma live_arc_at:
  assumes ok: "graph_ok n required g" and a: "a \<in># alive_arcs g"
  shows "unat (arc_id a) < length required" "g_alive g ! unat (arc_id a)" "required ! unat (arc_id a) = a"
proof -
  have core: "graph_core n required g" using ok by (simp add: graph_ok_def)
  then have arcs: "arcs_ok n required" and shape: "graph_shape n required g" by (simp_all add: graph_core_def)
  obtain i where "i < length required" "g_alive g ! i" "a = required ! i"
    using a shape live_member [of "g_alive g" required a] by (auto simp: alive_arcs_def graph_shape_def)
  with arcs_ok_id [OF arcs] show "unat (arc_id a) < length required" "g_alive g ! unat (arc_id a)"
    "required ! unat (arc_id a) = a" by auto
qed

lemma dense_leftover_ok:
  assumes L: "L > 0" and inv: "loop_inv n required L fid fs g" and a: "a \<in># alive_arcs g"
  shows "\<exists>fid' fs' g'. dense_leftover a (fid, fs, g) = Some (fid', fs', g') \<and>
     loop_inv n required L fid' fs' g' \<and> alive_arcs g = add_mset a (alive_arcs g')"
proof -
  have ok: "graph_ok n required g" using inv by (simp add: loop_inv_def)
  obtain g' where g': "graph_Remove (arc_id a) g = Some g'" "graph_ok n required g'"
    "alive_arcs g = add_mset a (alive_arcs g')"
    using graph_Remove_ok [OF ok live_arc_at(1,2) [OF ok a]] live_arc_at(3) [OF ok a] by auto
  have "loop_inv n required L (fid + 1) (fs @ [\<lparr>frag_edges = [a], frag_id = fid\<rparr>]) g'"
    using inv L g'(2,3) fragments_ok_snoc [of L fs "[a]"] by (simp add: loop_inv_def frag_arcs_snoc)
  with g' show ?thesis by (auto simp: dense_leftover_def)
qed

lemma dense_leftovers_ok:
  assumes L: "L > 0" and inv: "loop_inv n required L fid fs g"
  shows "\<exists>fid' fs' g'. fold_opt dense_leftover (RemainingArcs g) (fid, fs, g) = Some (fid', fs', g') \<and>
     loop_inv n required L fid' fs' g' \<and> alive_arcs g' = {#}"
proof -
  let ?I = "\<lambda>ys (fid, fs, g'). loop_inv n required L fid fs g' \<and> alive_arcs g' = mset (RemainingArcs g) - mset ys"
  have "\<exists>s'. fold_opt dense_leftover (RemainingArcs g) (fid, fs, g) = Some s' \<and> ?I (RemainingArcs g) s'"
  proof (rule fold_opt_rule [where I = ?I])
    show "?I [] (fid, fs, g)" using inv by (simp add: mset_RemainingArcs)
  next
    fix ys x zs t assume split: "RemainingArcs g = ys @ x # zs" and I: "?I ys t"
    obtain i fs1 g1 where t: "t = (i, fs1, g1)" by (cases t)
    have alive: "alive_arcs g1 = add_mset x (mset zs)" using I split by (simp add: t)
    then have "x \<in># alive_arcs g1" by simp
    from dense_leftover_ok [OF L _ this] I alive split
    show "\<exists>t'. dense_leftover x t = Some t' \<and> ?I (ys @ [x]) t'" by (fastforce simp: t)
  qed
  then show ?thesis by auto
qed

text \<open>
  \<open>DenseRouteFirst\<close> on a fresh graph: it returns, whatever the context answers, and its
  fragments are trails of at most \<open>maxLegs\<close> arcs that partition the required arcs.
\<close>

lemma DenseRouteFirst_ok:
  assumes n: "n < 2 ^ 32" and L: "L > 0" and ok: "graph_ok n required g"
    and all: "alive_arcs g = mset required"
  shows "\<exists>k' fs g'. DenseRouteFirst ctx k g L w = Some (k', fs, g') \<and> fragments_ok L fs \<and>
     frag_arcs fs = mset required \<and> alive_arcs g' = {#} \<and> k \<le> k'"
proof -
  let ?w = "if w \<le> 0 then 8 else w"
  have core: "graph_core n required g" using ok by (simp add: graph_ok_def)
  have "g_n g = n" using core by (simp add: graph_core_def graph_shape_def)
  then obtain h where h: "NewIndexedVertexHeap g = Some h" "heap_covers n g h {}"
    using NewIndexedVertexHeap_ok [OF graph_core_degrees [OF core]] n by (auto simp: heap_covers_def)
  have "loop_inv n required L 0 [] g"
    using ok all by (simp add: loop_inv_def fragments_ok_def numbered_def frag_arcs_def)
  from dense_loop_ok [OF n L this h(2), of ctx ?w k] obtain k' fid fs g1 where
    loop: "dense_loop ctx L ?w k 0 [] g h = Some (k', fid, fs, g1)" "loop_inv n required L fid fs g1" "k \<le> k'"
    by blast
  from dense_leftovers_ok [OF L loop(2)] obtain fid' fs' g2 where
    rest: "fold_opt dense_leftover (RemainingArcs g1) (fid, fs, g1) = Some (fid', fs', g2)"
      "loop_inv n required L fid' fs' g2" "alive_arcs g2 = {#}" by blast
  have "DenseRouteFirst ctx k g L w = Some (k', fs', g2)"
    using L h(1) loop(1) rest(1) by (simp add: DenseRouteFirst_def Let_def)
  moreover have "frag_arcs fs' = mset required" using rest(2,3) by (simp add: loop_inv_def)
  ultimately show ?thesis using loop(3) rest(2,3) by (auto simp: loop_inv_def)
qed

section \<open>Properties\<close>

text \<open>
  C9: on the graph of the required arcs \<open>DenseRouteFirst\<close> returns, whatever the context
  answers to its polls, and its fragments are nonempty trails of at most \<open>maxLegs\<close> arcs,
  numbered in order, that together hold every required arc exactly once.
\<close>

theorem DenseRouteFirst_partitions:
  assumes "arcs_ok n required" "n < 2 ^ 32" "0 < maxLegs"
  shows "\<exists>g k' fs g'. NewMutableGraph n required = Some g \<and>
    DenseRouteFirst ctx k g maxLegs window = Some (k', fs, g') \<and>
    (\<forall>f \<in> set fs. frag_edges f \<noteq> [] \<and> trail (frag_edges f) \<and> int (length (frag_edges f)) \<le> maxLegs) \<and>
    (\<forall>i < length fs. frag_id (fs ! i) = int i) \<and> mset (concat (map frag_edges fs)) = mset required"
proof -
  obtain g where g: "NewMutableGraph n required = Some g" "graph_ok n required g" "alive_arcs g = mset required"
    using NewMutableGraph_ok [OF assms(1)] by blast
  obtain k' fs g' where fs: "DenseRouteFirst ctx k g maxLegs window = Some (k', fs, g')" "fragments_ok maxLegs fs"
    "frag_arcs fs = mset required"
    using DenseRouteFirst_ok [OF assms(2,3) g(2,3)] by blast
  then have "(\<forall>f \<in> set fs. frag_edges f \<noteq> [] \<and> trail (frag_edges f) \<and> int (length (frag_edges f)) \<le> maxLegs) \<and>
    (\<forall>i < length fs. frag_id (fs ! i) = int i) \<and> mset (concat (map frag_edges fs)) = mset required"
    by (simp add: fragments_ok_def fragment_ok_def numbered_def frag_arcs_def)
  with fs(1) g(1) show ?thesis by blast
qed

theorem DenseRouteFirst_partitions_witness:
  "\<exists>g k' fs g'. NewMutableGraph 3 [Arc 0 0 1, Arc 1 1 2, Arc 2 2 0] = Some g \<and>
     DenseRouteFirst (\<lambda>_. True) 0 g 2 8 = Some (k', fs, g') \<and>
     mset (concat (map frag_edges fs)) = {#Arc 0 0 1, Arc 1 1 2, Arc 2 2 0#}"
proof -
  have "arcs_ok 3 [Arc 0 0 1, Arc 1 1 2, Arc 2 2 0]"
    by (auto simp: arcs_ok_def ids_are_positions_def less_Suc_eq)
  from DenseRouteFirst_partitions [OF this, of 2 "\<lambda>_. True" 0 8] show ?thesis by auto
qed

text \<open>The state in which the second fragment is started, and whether a better start was in the heap.\<close>

definition second_start :: "nat \<Rightarrow> arc list \<Rightarrow> int \<Rightarrow> (vertex_id \<times> bool) option" where
  "second_start n required maxLegs = do {
     g \<leftarrow> NewMutableGraph n required;
     h \<leftarrow> NewIndexedVertexHeap g;
     (start, h1) \<leftarrow> PopBestWithOutgoing g h;
     (es, g1, h2) \<leftarrow> dense_grow maxLegs 8 start [] g h1;
     (start2, h3) \<leftarrow> PopBestWithOutgoing g1 h2;
     Some (start2, list_ex (\<lambda>w. vertex_better g1 w start2) (h_order h2)) }"


end
