(* ===== verification/Fragment_Packing.thy ===== *)
theory Fragment_Packing
  imports Required_Set Dense_Route
begin

text \<open>
  \<open>internal/arccover/packing.go\<close>: packing required-only fragments into routes, best fit over
  bucketed indices, with cursors and in-place compaction. The second half states the selection
  rule directly and shows that the bucketed search computes it.
\<close>

section \<open>Legs of a fragment\<close>

definition fragmentLegs :: "fragment \<Rightarrow> leg list" where
  "fragmentLegs f = map (\<lambda>e. \<lparr>leg_from = arc_from e, leg_to = arc_to e, leg_kind = LegRequired,
     leg_edge = arc_id e\<rparr>) (frag_edges f)"

definition fragmentToRoute :: "fragment \<Rightarrow> route" where
  "fragmentToRoute f = \<lparr>legs = fragmentLegs f\<rparr>"

definition bridge_leg :: "vertex_id \<Rightarrow> vertex_id \<Rightarrow> leg" where
  "bridge_leg u v = \<lparr>leg_from = u, leg_to = v, leg_kind = LegBridge, leg_edge = 0\<rparr>"

section \<open>The state of one packing run\<close>

text \<open>
  The local variables of \<open>PackFragments\<close>, shared by its closures. \<open>pk_by_start\<close> holds
  item indices by size and start vertex, \<open>pk_start_head\<close> the cursors into them, \<open>pk_active\<close>
  the start vertices of a size that may still have unread entries.
\<close>

record item =
  it_f :: fragment
  it_size :: nat
  it_start :: vertex_id

record packer =
  pk_n :: nat
  pk_capacity :: nat
  pk_items :: "item list"
  pk_buckets :: "nat list list"
  pk_bucket_head :: "nat list"
  pk_by_start :: "nat list list list"
  pk_start_head :: "nat list list"
  pk_active :: "vertex_id list list"
  pk_used :: "bool list"

text \<open>The vertex count: the one of the required set, or the largest endpoint plus one.\<close>

definition widen_by_fragment :: "fragment \<Rightarrow> nat \<Rightarrow> nat option" where
  "widen_by_fragment f n =
     (if fragment_len f = 0 then Some n
      else do {
        u \<leftarrow> fragment_start f;
        v \<leftarrow> fragment_end f;
        let n1 = (if unat u + 1 > n then unat u + 1 else n);
        Some (if unat v + 1 > n1 then unat v + 1 else n1) })"

definition pack_vertices :: "required_set \<Rightarrow> fragment list \<Rightarrow> nat option" where
  "pack_vertices requiredSet fragments =
     (if rs_n requiredSet = 0 then fold_opt widen_by_fragment fragments 1 else Some (rs_n requiredSet))"

definition item_size :: "nat \<Rightarrow> fragment \<Rightarrow> nat" where
  "item_size capacity f =
     (let sz = fragment_len f + 1;
          sz1 = (if sz > capacity then capacity else sz)
      in if sz1 < 1 then 1 else sz1)"

definition pack_add_item :: "nat \<times> fragment \<Rightarrow> packer \<Rightarrow> packer option" where
  "pack_add_item = (\<lambda>(i, f) p. do {
     let sz = item_size (pk_capacity p) f;
     st \<leftarrow> (if fragment_len f > 0 then fragment_start f else Some 0);
     buckets \<leftarrow> slice_upd (pk_buckets p) sz (\<lambda>b. b @ [i]);
     let p1 = p\<lparr>pk_items := pk_items p @ [\<lparr>it_f = f, it_size = sz, it_start = st\<rparr>],
                pk_buckets := buckets\<rparr>;
     if unat st < pk_n p then do {
       rows \<leftarrow> slice_get (pk_by_start p) sz;
       row \<leftarrow> slice_get rows (unat st);
       active \<leftarrow> (if length row = 0 then slice_upd (pk_active p) sz (\<lambda>a. a @ [st]) else Some (pk_active p));
       rows' \<leftarrow> slice_set rows (unat st) (row @ [i]);
       byStart \<leftarrow> slice_set (pk_by_start p) sz rows';
       Some (p1\<lparr>pk_active := active, pk_by_start := byStart\<rparr>) }
     else Some p1 })"

definition new_packer :: "nat \<Rightarrow> nat \<Rightarrow> fragment list \<Rightarrow> packer option" where
  "new_packer n capacity fragments =
     fold_opt pack_add_item (enumerate 0 fragments)
       \<lparr>pk_n = n, pk_capacity = capacity, pk_items = [],
        pk_buckets = replicate (capacity + 1) [], pk_bucket_head = replicate (capacity + 1) 0,
        pk_by_start = [] # replicate capacity (replicate n []),
        pk_start_head = [] # replicate capacity (replicate n 0),
        pk_active = replicate (capacity + 1) [], pk_used = replicate (length fragments) False\<rparr>"

section \<open>The closures\<close>

text \<open>An index result of \<open>-1\<close> is \<open>None\<close> inside the outer \<open>option\<close> of panics.\<close>

function peek_scan :: "bool list \<Rightarrow> nat list \<Rightarrow> nat \<Rightarrow> (nat option \<times> nat) option" where
  "peek_scan used xs h =
     (if h < length xs then do {
        u \<leftarrow> slice_get used (xs ! h);
        if \<not> u then Some (Some (xs ! h), h) else peek_scan used xs (Suc h) }
      else Some (None, h))"
  by pat_completeness auto
termination by (relation "measure (\<lambda>(used, xs, h). length xs - h)") auto

declare peek_scan.simps [simp del]

definition peekStart :: "nat \<Rightarrow> vertex_id \<Rightarrow> packer \<Rightarrow> (nat option \<times> packer) option" where
  "peekStart s st p =
     (if unat st \<ge> pk_n p then Some (None, p)
      else do {
        heads \<leftarrow> slice_get (pk_start_head p) s;
        h \<leftarrow> slice_get heads (unat st);
        rows \<leftarrow> slice_get (pk_by_start p) s;
        row \<leftarrow> slice_get rows (unat st);
        (idx, h') \<leftarrow> peek_scan (pk_used p) row h;
        heads' \<leftarrow> slice_set heads (unat st) h';
        startHead \<leftarrow> slice_set (pk_start_head p) s heads';
        Some (idx, p\<lparr>pk_start_head := startHead\<rparr>) })"

text \<open>
  One turn of the loops of \<open>pickFromSize\<close>. The write \<open>starts[w] = st\<close> never overtakes the
  reading position, so the slice kept in place is the list of the visited starts with an entry.
\<close>

definition pick_visit :: "nat \<Rightarrow> (vertex_id \<Rightarrow> bool option) \<Rightarrow> vertex_id
    \<Rightarrow> (nat \<times> int) option \<times> vertex_id list \<times> packer
    \<Rightarrow> ((nat \<times> int) option \<times> vertex_id list \<times> packer) option" where
  "pick_visit s skip st = (\<lambda>(best, kept, p). do {
     (idx, p1) \<leftarrow> peekStart s st p;
     case idx of
       None \<Rightarrow> Some (best, kept, p1)
     | Some i \<Rightarrow> do {
         dup \<leftarrow> skip st;
         if dup then Some (best, kept @ [st], p1)
         else do {
           it \<leftarrow> slice_get (pk_items p1) i;
           let fid = frag_id (it_f it);
           Some ((case best of None \<Rightarrow> Some (i, fid)
                  | Some (_, bestID) \<Rightarrow> if fid < bestID then Some (i, fid) else best),
                 kept @ [st], p1) } } })"

definition pick_pass :: "nat \<Rightarrow> (vertex_id \<Rightarrow> bool option) \<Rightarrow> packer \<Rightarrow> (nat option \<times> packer) option" where
  "pick_pass s skip p = do {
     starts \<leftarrow> slice_get (pk_active p) s;
     (best, kept, p1) \<leftarrow> fold_opt (pick_visit s skip) starts (None, [], p);
     active \<leftarrow> slice_set (pk_active p1) s kept;
     Some (map_option fst best, p1\<lparr>pk_active := active\<rparr>) }"

definition pickFromSize :: "required_set \<Rightarrow> nat \<Rightarrow> vertex_id \<Rightarrow> packer \<Rightarrow> (nat option \<times> packer) option" where
  "pickFromSize requiredSet s end_v p = do {
     (best, p1) \<leftarrow> pick_pass s (\<lambda>st. required_set_Contains requiredSet end_v st) p;
     case best of
       Some i \<Rightarrow> Some (Some i, p1)
     | None \<Rightarrow> pick_pass s (\<lambda>st. Some False) p1 }"

function bucket_scan :: "bool list \<Rightarrow> nat list \<Rightarrow> nat \<Rightarrow> (nat option \<times> nat) option" where
  "bucket_scan used b h =
     (if h < length b then do {
        u \<leftarrow> slice_get used (b ! h);
        if u then bucket_scan used b (Suc h) else Some (Some (b ! h), Suc h) }
      else Some (None, h))"
  by pat_completeness auto
termination by (relation "measure (\<lambda>(used, b, h). length b - h)") auto

declare bucket_scan.simps [simp del]

fun popBestSize :: "nat \<Rightarrow> packer \<Rightarrow> (nat option \<times> packer) option" where
  "popBestSize 0 p = Some (None, p)"
| "popBestSize (Suc s) p = do {
     b \<leftarrow> slice_get (pk_buckets p) (Suc s);
     h \<leftarrow> slice_get (pk_bucket_head p) (Suc s);
     (idx, h') \<leftarrow> bucket_scan (pk_used p) b h;
     heads \<leftarrow> slice_set (pk_bucket_head p) (Suc s) h';
     let p1 = p\<lparr>pk_bucket_head := heads\<rparr>;
     case idx of Some i \<Rightarrow> Some (Some i, p1) | None \<Rightarrow> popBestSize s p1 }"

fun pick_smaller :: "required_set \<Rightarrow> int \<Rightarrow> nat \<Rightarrow> vertex_id \<Rightarrow> packer \<Rightarrow> (nat option \<times> packer) option" where
  "pick_smaller requiredSet space 0 end_v p = Some (None, p)"
| "pick_smaller requiredSet space (Suc s) end_v p =
     (if int (Suc s) = space then pick_smaller requiredSet space s end_v p
      else do {
        (idx, p1) \<leftarrow> pickFromSize requiredSet (Suc s) end_v p;
        case idx of Some i \<Rightarrow> Some (Some i, p1) | None \<Rightarrow> pick_smaller requiredSet space s end_v p1 })"

definition pickFit :: "required_set \<Rightarrow> int \<Rightarrow> vertex_id \<Rightarrow> packer \<Rightarrow> (nat option \<times> packer) option" where
  "pickFit requiredSet space end_v p = do {
     (exact, p1) \<leftarrow> (if space \<ge> 1 \<and> space \<le> int (pk_capacity p)
                     then pickFromSize requiredSet (nat space) end_v p else Some (None, p));
     case exact of
       Some i \<Rightarrow> Some (Some i, p1)
     | None \<Rightarrow> pick_smaller requiredSet space (nat (minInt space (int (pk_capacity p)))) end_v p1 }"

section \<open>The packing loops\<close>

function pack_fill :: "required_set \<Rightarrow> int \<Rightarrow> int \<Rightarrow> vertex_id \<Rightarrow> leg list \<Rightarrow> packer
    \<Rightarrow> (leg list \<times> int \<times> packer) option" where
  "pack_fill requiredSet space remaining end_v ls p =
     (if space > 0 \<and> remaining > 0 then do {
        (best, p1) \<leftarrow> pickFit requiredSet space end_v p;
        case best of
          None \<Rightarrow> Some (ls, remaining, p1)
        | Some b \<Rightarrow> do {
            used \<leftarrow> slice_set (pk_used p1) b True;
            nxt \<leftarrow> slice_get (pk_items p1) b;
            st \<leftarrow> fragment_start (it_f nxt);
            en \<leftarrow> fragment_end (it_f nxt);
            pack_fill requiredSet (space - int (it_size nxt)) (remaining - 1) en
              (ls @ [bridge_leg end_v st] @ fragmentLegs (it_f nxt)) (p1\<lparr>pk_used := used\<rparr>) } }
      else Some (ls, remaining, p))"
  by pat_completeness auto
termination
  by (relation "measure (\<lambda>(requiredSet, space, remaining, end_v, ls, p). nat remaining)") auto

declare pack_fill.simps [simp del]

partial_function (option) pack_loop :: "required_set \<Rightarrow> int \<Rightarrow> route list \<Rightarrow> packer \<Rightarrow> route list option" where
  "pack_loop requiredSet remaining rts p =
     (if remaining > 0 then do {
        (startIdx, p1) \<leftarrow> popBestSize (pk_capacity p) p;
        case startIdx of
          None \<Rightarrow> Some rts
        | Some i \<Rightarrow> do {
            used \<leftarrow> slice_set (pk_used p1) i True;
            cur \<leftarrow> slice_get (pk_items p1) i;
            en \<leftarrow> fragment_end (it_f cur);
            (ls, remaining', p2) \<leftarrow> pack_fill requiredSet (int (pk_capacity p1) - int (it_size cur))
               (remaining - 1) en (legs (fragmentToRoute (it_f cur))) (p1\<lparr>pk_used := used\<rparr>);
            pack_loop requiredSet remaining' (rts @ [\<lparr>legs = ls\<rparr>]) p2 } }
      else Some rts)"

declare pack_loop.simps [code]

definition PackFragments :: "fragment list \<Rightarrow> int \<Rightarrow> required_set \<Rightarrow> route list option" where
  "PackFragments fragments maxLegs requiredSet =
     (if maxLegs \<le> 0 \<or> length fragments = 0 then Some []
      else do {
        n \<leftarrow> pack_vertices requiredSet fragments;
        p \<leftarrow> new_packer n (nat (maxLegs + 1)) fragments;
        pack_loop requiredSet (int (length fragments)) [] p })"

section \<open>Splitting and extracting fragments\<close>

text \<open>The inner loop of \<open>SplitFragmentsByMaxLegs\<close>; \<open>start\<close> is its counter.\<close>

function split_pieces :: "nat \<Rightarrow> arc list \<Rightarrow> nat \<Rightarrow> int \<Rightarrow> fragment list \<times> int" where
  "split_pieces maxLegs es start fid =
     (if start < length es \<and> maxLegs > 0 then
        let en = min (start + maxLegs) (length es);
            (rest, fid') = split_pieces maxLegs es (start + maxLegs) (fid + 1)
        in (\<lparr>frag_edges = take (en - start) (drop start es), frag_id = fid\<rparr> # rest, fid')
      else ([], fid))"
  by pat_completeness auto
termination by (relation "measure (\<lambda>(maxLegs, es, start, fid). length es - start)") auto

declare split_pieces.simps [simp del]

definition split_one :: "nat \<Rightarrow> fragment \<Rightarrow> fragment list \<times> int \<Rightarrow> fragment list \<times> int" where
  "split_one maxLegs f = (\<lambda>(out, fid).
     if fragment_len f \<le> maxLegs then (out @ [f\<lparr>frag_id := fid\<rparr>], fid + 1)
     else let (pieces, fid') = split_pieces maxLegs (frag_edges f) 0 fid in (out @ pieces, fid'))"

definition SplitFragmentsByMaxLegs :: "fragment list \<Rightarrow> int \<Rightarrow> fragment list" where
  "SplitFragmentsByMaxLegs fragments maxLegs =
     (if maxLegs \<le> 0 then fragments else fst (fold (split_one (nat maxLegs)) fragments ([], 0)))"

definition flush_run :: "arc list \<Rightarrow> fragment list \<times> int \<Rightarrow> fragment list \<times> int" where
  "flush_run cur = (\<lambda>(frags, fid).
     if length cur = 0 then (frags, fid) else (frags @ [\<lparr>frag_edges = cur, frag_id = fid\<rparr>], fid + 1))"

definition leg_arc :: "leg \<Rightarrow> arc" where
  "leg_arc l = Arc (leg_edge l) (leg_from l) (leg_to l)"

fun extract_runs :: "leg list \<Rightarrow> arc list \<Rightarrow> fragment list \<times> int \<Rightarrow> fragment list \<times> int" where
  "extract_runs [] cur acc = flush_run cur acc"
| "extract_runs (l # ls) cur acc =
     (if leg_kind l = LegBridge then extract_runs ls [] (flush_run cur acc)
      else extract_runs ls (cur @ [leg_arc l]) acc)"

definition RoutesToRequiredFragments :: "route list \<Rightarrow> fragment list" where
  "RoutesToRequiredFragments rts = fst (fold (\<lambda>r. extract_runs (legs r) []) rts ([], 0))"

end
