(* ===== verification/Packing_Fit.thy ===== *)
theory Packing_Fit
  imports Fragment_Packing
begin

text \<open>
  The selection rule of \<open>PackFragments\<close>, stated directly: the exact size first, else the
  largest size that fits; within a size a fragment that is not reached by a duplicate bridge,
  else any; among those the minimal identifier. The lemmas show that the bucketed search with
  its cursors (\<open>pickFit\<close>, \<open>popBestSize\<close>) computes it and never panics.
\<close>

section \<open>The rule\<close>

definition frag_from :: "fragment \<Rightarrow> vertex_id" where
  "frag_from f = arc_from (hd (frag_edges f))"

definition frag_to :: "fragment \<Rightarrow> vertex_id" where
  "frag_to f = arc_to (last (frag_edges f))"

definition open_item :: "nat \<Rightarrow> fragment list \<Rightarrow> bool list \<Rightarrow> nat \<Rightarrow> nat \<Rightarrow> bool" where
  "open_item cap fs used s i \<longleftrightarrow> \<not> used ! i \<and> item_size cap (fs ! i) = s"

definition best_of_size :: "nat \<Rightarrow> fragment list \<Rightarrow> (vertex_id \<Rightarrow> bool) \<Rightarrow> bool list \<Rightarrow> nat \<Rightarrow> nat option" where
  "best_of_size cap fs dup used s =
     (case find (\<lambda>i. open_item cap fs used s i \<and> \<not> dup (frag_from (fs ! i))) [0..<length fs] of
        Some i \<Rightarrow> Some i
      | None \<Rightarrow> find (open_item cap fs used s) [0..<length fs])"

fun first_size :: "(nat \<Rightarrow> nat option) \<Rightarrow> nat \<Rightarrow> nat option" where
  "first_size f 0 = None"
| "first_size f (Suc s) = (case f (Suc s) of Some i \<Rightarrow> Some i | None \<Rightarrow> first_size f s)"

definition best_fit :: "nat \<Rightarrow> fragment list \<Rightarrow> (vertex_id \<Rightarrow> bool) \<Rightarrow> bool list \<Rightarrow> nat \<Rightarrow> nat option" where
  "best_fit cap fs dup used space = first_size (best_of_size cap fs dup used) (min space cap)"

definition largest_item :: "nat \<Rightarrow> fragment list \<Rightarrow> bool list \<Rightarrow> nat option" where
  "largest_item cap fs used = first_size (\<lambda>s. find (open_item cap fs used s) [0..<length fs]) cap"

section \<open>The invariant of the packer\<close>

definition bucket :: "nat \<Rightarrow> fragment list \<Rightarrow> nat \<Rightarrow> nat list" where
  "bucket cap fs s = filter (\<lambda>i. item_size cap (fs ! i) = s) [0..<length fs]"

definition cell :: "nat \<Rightarrow> fragment list \<Rightarrow> nat \<Rightarrow> nat \<Rightarrow> nat list" where
  "cell cap fs s v = filter (\<lambda>i. item_size cap (fs ! i) = s \<and> unat (frag_from (fs ! i)) = v) [0..<length fs]"

text \<open>Everything before a cursor is used.\<close>

definition read_ok :: "bool list \<Rightarrow> nat list \<Rightarrow> nat \<Rightarrow> bool" where
  "read_ok used xs h \<longleftrightarrow> (\<forall>j < h. j < length xs \<longrightarrow> used ! (xs ! j))"

definition tables_ok :: "nat \<Rightarrow> nat \<Rightarrow> fragment list \<Rightarrow> packer \<Rightarrow> bool" where
  "tables_ok n cap fs p \<longleftrightarrow> pk_n p = n \<and> pk_capacity p = cap \<and>
     pk_items p = map (\<lambda>f. \<lparr>it_f = f, it_size = item_size cap f, it_start = frag_from f\<rparr>) fs \<and>
     length (pk_buckets p) = cap + 1 \<and> (\<forall>s \<le> cap. pk_buckets p ! s = bucket cap fs s) \<and>
     length (pk_by_start p) = cap + 1 \<and>
     (\<forall>s. 1 \<le> s \<and> s \<le> cap \<longrightarrow> length (pk_by_start p ! s) = n \<and>
        (\<forall>v < n. pk_by_start p ! s ! v = cell cap fs s v))"

definition cursors_ok :: "nat \<Rightarrow> nat \<Rightarrow> fragment list \<Rightarrow> bool list \<Rightarrow> packer \<Rightarrow> bool" where
  "cursors_ok n cap fs used p \<longleftrightarrow>
     length (pk_bucket_head p) = cap + 1 \<and>
     (\<forall>s \<le> cap. read_ok used (bucket cap fs s) (pk_bucket_head p ! s)) \<and>
     length (pk_start_head p) = cap + 1 \<and>
     (\<forall>s. 1 \<le> s \<and> s \<le> cap \<longrightarrow> length (pk_start_head p ! s) = n \<and>
        (\<forall>v < n. read_ok used (cell cap fs s v) (pk_start_head p ! s ! v)))"

definition active_ok :: "nat \<Rightarrow> nat \<Rightarrow> fragment list \<Rightarrow> bool list \<Rightarrow> packer \<Rightarrow> bool" where
  "active_ok n cap fs used p \<longleftrightarrow> length (pk_active p) = cap + 1 \<and>
     (\<forall>s. 1 \<le> s \<and> s \<le> cap \<longrightarrow> (\<forall>st \<in> set (pk_active p ! s). unat st < n) \<and>
        (\<forall>i < length fs. open_item cap fs used s i \<longrightarrow> frag_from (fs ! i) \<in> set (pk_active p ! s)))"

definition packer_ok :: "nat \<Rightarrow> nat \<Rightarrow> fragment list \<Rightarrow> bool list \<Rightarrow> packer \<Rightarrow> bool" where
  "packer_ok n cap fs used p \<longleftrightarrow> pk_used p = used \<and> length used = length fs \<and>
     tables_ok n cap fs p \<and> cursors_ok n cap fs used p \<and> active_ok n cap fs used p"

text \<open>The fragments the planner packs.\<close>

definition packable :: "nat \<Rightarrow> nat \<Rightarrow> fragment list \<Rightarrow> bool" where
  "packable n cap fs \<longleftrightarrow> numbered fs \<and>
     (\<forall>f \<in> set fs. frag_edges f \<noteq> [] \<and> length (frag_edges f) + 1 \<le> cap \<and>
        unat (frag_from f) < n \<and> unat (frag_to f) < n)"

lemma packable_nth:
  assumes "packable n cap fs" "i < length fs"
  shows "frag_edges (fs ! i) \<noteq> []" "item_size cap (fs ! i) = length (frag_edges (fs ! i)) + 1"
    "item_size cap (fs ! i) \<le> cap" "1 \<le> item_size cap (fs ! i)" "unat (frag_from (fs ! i)) < n" "unat (frag_to (fs ! i)) < n"
    "fragment_start (fs ! i) = Some (frag_from (fs ! i))" "fragment_end (fs ! i) = Some (frag_to (fs ! i))"
    "frag_id (fs ! i) = int i"
proof -
  have f: "frag_edges (fs ! i) \<noteq> []" "length (frag_edges (fs ! i)) + 1 \<le> cap"
    "unat (frag_from (fs ! i)) < n" "unat (frag_to (fs ! i)) < n"
    using assms nth_mem [OF assms(2)] by (auto simp: packable_def)
  then show "frag_edges (fs ! i) \<noteq> []" "item_size cap (fs ! i) = length (frag_edges (fs ! i)) + 1"
    "item_size cap (fs ! i) \<le> cap" "1 \<le> item_size cap (fs ! i)" "unat (frag_from (fs ! i)) < n" "unat (frag_to (fs ! i)) < n"
    "fragment_start (fs ! i) = Some (frag_from (fs ! i))" "fragment_end (fs ! i) = Some (frag_to (fs ! i))"
    by (simp_all add: item_size_def fragment_len_def frag_from_def frag_to_def lift_simps Let_def)
  show "frag_id (fs ! i) = int i" using assms by (simp add: packable_def numbered_def)
qed

lemma filter_nth_snoc:
  "filter (\<lambda>i. P ((xs @ [x]) ! i)) [0..<Suc (length xs)] =
     filter (\<lambda>i. P (xs ! i)) [0..<length xs] @ (if P x then [length xs] else [])"
proof -
  have "filter (\<lambda>i. P ((xs @ [x]) ! i)) [0..<length xs] = filter (\<lambda>i. P (xs ! i)) [0..<length xs]"
    by (rule filter_cong) (simp_all add: nth_append)
  then show ?thesis by simp
qed

lemma bucket_snoc: "bucket cap (fs @ [f]) s = bucket cap fs s @ (if item_size cap f = s then [length fs] else [])"
  using filter_nth_snoc [of "\<lambda>f. item_size cap f = s" fs f] by (simp add: bucket_def)

lemma cell_snoc: "cell cap (fs @ [f]) s v = cell cap fs s v @
    (if item_size cap f = s \<and> unat (frag_from f) = v then [length fs] else [])"
  using filter_nth_snoc [of "\<lambda>f. item_size cap f = s \<and> unat (frag_from f) = v" fs f]
  by (simp add: cell_def del: upt_Suc) 

section \<open>Building the tables\<close>

definition building :: "nat \<Rightarrow> nat \<Rightarrow> fragment list \<Rightarrow> fragment list \<Rightarrow> packer \<Rightarrow> bool" where
  "building n cap all fs p \<longleftrightarrow> tables_ok n cap fs p \<and> pk_used p = replicate (length all) False \<and>
     pk_bucket_head p = replicate (cap + 1) 0 \<and> pk_start_head p = [] # replicate cap (replicate n 0) \<and>
     length (pk_active p) = cap + 1 \<and>
     (\<forall>s. 1 \<le> s \<and> s \<le> cap \<longrightarrow> set (pk_active p ! s) = frag_from ` {f \<in> set fs. item_size cap f = s})"

lemma building_step:
  assumes b: "building n cap all fs p" and f: "frag_edges f \<noteq> []" "length (frag_edges f) + 1 \<le> cap" "unat (frag_from f) < n"
  shows "\<exists>p'. pack_add_item (length fs, f) p = Some p' \<and> building n cap all (fs @ [f]) p'"
proof -
  let ?s = "item_size cap f" and ?v = "frag_from f"
  have s: "1 \<le> ?s" "?s \<le> cap" using f by (auto simp: item_size_def fragment_len_def Let_def)
  have start: "(if 0 < fragment_len f then fragment_start f else Some 0) = Some ?v"
    using f(1) by (simp add: fragment_len_def lift_simps frag_from_def)
  have t: "pk_n p = n" "pk_capacity p = cap" "length (pk_buckets p) = cap + 1" "length (pk_by_start p) = cap + 1"
    "length (pk_by_start p ! ?s) = n" "length (pk_active p) = cap + 1"
    "pk_by_start p ! ?s ! unat ?v = cell cap fs ?s (unat ?v)"
    using b s f(3) by (auto simp: building_def tables_ok_def)
  let ?act = "if cell cap fs ?s (unat ?v) = [] then (pk_active p)[?s := pk_active p ! ?s @ [?v]] else pk_active p"
  let ?p = "p\<lparr>pk_items := pk_items p @ [\<lparr>it_f = f, it_size = ?s, it_start = ?v\<rparr>],
     pk_buckets := (pk_buckets p)[?s := pk_buckets p ! ?s @ [length fs]],
     pk_active := ?act,
     pk_by_start := (pk_by_start p)[?s := (pk_by_start p ! ?s)[unat ?v := cell cap fs ?s (unat ?v) @ [length fs]]]\<rparr>"
  have run: "pack_add_item (length fs, f) p = Some ?p"
    using t s f(3) start by (simp add: pack_add_item_def slice_simps Let_def)
  have tables: "tables_ok n cap (fs @ [f]) ?p"
    using b s by (auto simp: building_def tables_ok_def bucket_snoc cell_snoc nth_list_update)
  have "set (?act ! s') = frag_from ` {g \<in> set (fs @ [f]). item_size cap g = s'}"
    if "1 \<le> s'" "s' \<le> cap" for s'
  proof -
    have old: "set (pk_active p ! s') = frag_from ` {g \<in> set fs. item_size cap g = s'}"
      using b that by (simp add: building_def)
    have "?v \<in> set (pk_active p ! ?s)" if "cell cap fs ?s (unat ?v) \<noteq> []"
    proof -
      from that obtain i where "i < length fs" "item_size cap (fs ! i) = ?s" "frag_from (fs ! i) = ?v"
        by (auto simp: cell_def filter_empty_conv word_unat_eq_iff)
      then have "?v \<in> frag_from ` {g \<in> set fs. item_size cap g = ?s}" by (metis (mono_tags, lifting) image_eqI mem_Collect_eq nth_mem)
      then show ?thesis using b s by (simp add: building_def)
    qed
    moreover have "frag_from ` {g \<in> set (fs @ [f]). item_size cap g = s'} =
        set (pk_active p ! s') \<union> (if s' = ?s then {?v} else {})"
      unfolding old by auto
    ultimately show ?thesis using t(6) s by (cases "s' = ?s") auto
  qed
  with b tables t(6) have "building n cap all (fs @ [f]) ?p" by (simp add: building_def)
  with run show ?thesis by blast
qed

lemma new_packer_ok:
  assumes "packable n cap fs"
  shows "\<exists>p. new_packer n cap fs = Some p \<and> packer_ok n cap fs (replicate (length fs) False) p"
proof -
  let ?p0 = "\<lparr>pk_n = n, pk_capacity = cap, pk_items = [],
        pk_buckets = replicate (cap + 1) [], pk_bucket_head = replicate (cap + 1) 0,
        pk_by_start = [] # replicate cap (replicate n []),
        pk_start_head = [] # replicate cap (replicate n 0),
        pk_active = replicate (cap + 1) [], pk_used = replicate (length fs) False\<rparr>"
  let ?I = "\<lambda>ys p. \<exists>k. ys = enumerate 0 (take k fs) \<and> k \<le> length fs \<and> building n cap fs (take k fs) p"
  have "\<exists>p. fold_opt pack_add_item (enumerate 0 fs) ?p0 = Some p \<and> ?I (enumerate 0 fs) p"
  proof (rule fold_opt_rule [where I = ?I])
    have "building n cap fs [] ?p0"
      by (auto simp: building_def tables_ok_def bucket_def cell_def nth_Cons' simp del: replicate_Suc)
    then show "?I [] ?p0" by (intro exI [of _ 0]) simp
  next
    fix ys x zs p
    assume split: "enumerate 0 fs = ys @ x # zs" and "?I ys p"
    then obtain k where k: "ys = enumerate 0 (take k fs)" "k \<le> length fs" "building n cap fs (take k fs) p" by blast
    have len: "length ys = k" using k(1,2) by simp
    have "length (enumerate 0 fs) = length (ys @ x # zs)" by (simp only: split)
    with len have lt: "k < length fs" by simp
    have "enumerate 0 fs ! k = x" using split len by (simp add: nth_append)
    with lt have x: "x = (k, fs ! k)" by (simp add: nth_enumerate_eq)
    have ok: "frag_edges (fs ! k) \<noteq> []" "length (frag_edges (fs ! k)) + 1 \<le> cap" "unat (frag_from (fs ! k)) < n"
      using assms nth_mem [OF lt] by (auto simp: packable_def)
    from building_step [OF k(3) ok] lt
    obtain p' where "pack_add_item x p = Some p'" "building n cap fs (take (Suc k) fs) p'"
      by (auto simp: x take_Suc_conv_app_nth)
    moreover have "ys @ [x] = enumerate 0 (take (Suc k) fs)"
      using lt by (simp add: k(1) x take_Suc_conv_app_nth enumerate_append_eq)
    ultimately show "\<exists>p'. pack_add_item x p = Some p' \<and> ?I (ys @ [x]) p'" using lt by (metis Suc_leI)
  qed
  then obtain p k where p: "fold_opt pack_add_item (enumerate 0 fs) ?p0 = Some p"
    "enumerate 0 fs = enumerate 0 (take k fs)" "k \<le> length fs" "building n cap fs (take k fs) p" by blast
  have "length (enumerate 0 fs) = length (enumerate 0 (take k fs))" by (simp only: p(2))
  with p(3) have "take k fs = fs" by simp
  with p(4) have b: "building n cap fs fs p" by simp
  have "packer_ok n cap fs (replicate (length fs) False) p"
    using b assms
    by (auto simp: packable_def packer_ok_def building_def cursors_ok_def active_ok_def read_ok_def open_item_def
        nth_Cons' simp del: replicate_Suc)
  with p(1) show ?thesis by (auto simp: new_packer_def)
qed

section \<open>The cursors\<close>

lemma find_filter: "find P (filter Q xs) = find (\<lambda>x. Q x \<and> P x) xs"
  by (induction xs) auto

lemma find_upt: "find P [0..<m] = Some i \<longleftrightarrow> i < m \<and> P i \<and> (\<forall>j < i. \<not> P j)"
  by (auto simp: find_Some_iff)

lemma find_upt_None: "find P [0..<m] = None \<longleftrightarrow> (\<forall>i < m. \<not> P i)"
  by (auto simp: find_None_iff)

lemma find_at_cursor:
  assumes "read_ok used xs h" "h < length xs" "\<not> used ! (xs ! h)"
  shows "find (\<lambda>i. \<not> used ! i) xs = Some (xs ! h)"
  using assms by (auto simp: find_Some_iff read_ok_def)

lemma find_past_cursor:
  assumes "read_ok used xs h" "length xs \<le> h"
  shows "find (\<lambda>i. \<not> used ! i) xs = None"
  using assms by (auto simp: find_None_iff read_ok_def in_set_conv_nth)

lemma read_ok_Suc: "read_ok used xs h \<Longrightarrow> used ! (xs ! h) \<Longrightarrow> read_ok used xs (Suc h)"
  by (auto simp: read_ok_def less_Suc_eq)

lemma read_ok_mark: "read_ok used xs h \<Longrightarrow> read_ok (used[i := True]) xs h"
  by (cases "length used \<le> i") (auto simp: list_update_beyond read_ok_def nth_list_update)

lemma peek_scan_ok:
  assumes "\<forall>i \<in> set xs. i < length used"
  shows "read_ok used xs h \<Longrightarrow>
    \<exists>h'. peek_scan used xs h = Some (find (\<lambda>i. \<not> used ! i) xs, h') \<and> read_ok used xs h'"
proof (induction "length xs - h" arbitrary: h rule: less_induct)
  case less
  consider "length xs \<le> h" | "h < length xs" "used ! (xs ! h)" | "h < length xs" "\<not> used ! (xs ! h)"
    by linarith
  then show ?case
  proof cases
    case 1
    then show ?thesis using less.prems find_past_cursor
      by (subst peek_scan.simps) (simp del: find_None_iff find_None_iff2)
  next
    case 2
    with less.hyps [of "Suc h"] less.prems assms show ?thesis
      by (subst peek_scan.simps) (simp add: slice_simps read_ok_Suc)
  next
    case 3
    with less.prems assms find_at_cursor show ?thesis
      by (subst peek_scan.simps) (simp add: slice_simps)
  qed
qed

lemma bucket_scan_ok:
  assumes "\<forall>i \<in> set xs. i < length used"
  shows "read_ok used xs h \<Longrightarrow>
    \<exists>h'. bucket_scan used xs h = Some (find (\<lambda>i. \<not> used ! i) xs, h') \<and>
      (case find (\<lambda>i. \<not> used ! i) xs of None \<Rightarrow> read_ok used xs h'
       | Some i \<Rightarrow> read_ok (used[i := True]) xs h')"
proof (induction "length xs - h" arbitrary: h rule: less_induct)
  case less
  consider "length xs \<le> h" | "h < length xs" "used ! (xs ! h)" | "h < length xs" "\<not> used ! (xs ! h)"
    by linarith
  then show ?case
  proof cases
    case 1
    then show ?thesis using less.prems find_past_cursor
      by (subst bucket_scan.simps) (simp del: find_None_iff find_None_iff2)
  next
    case 2
    with less.hyps [of "Suc h"] less.prems assms show ?thesis
      by (subst bucket_scan.simps) (simp add: slice_simps read_ok_Suc)
  next
    case 3
    then have "read_ok (used[xs ! h := True]) xs (Suc h)"
      using assms read_ok_mark [OF less.prems] by (intro read_ok_Suc) simp_all
    with 3 less.prems assms find_at_cursor show ?thesis
      by (subst bucket_scan.simps) (simp add: slice_simps)
  qed
qed

lemma packer_ok_mark:
  assumes "packer_ok n cap fs used p"
  shows "packer_ok n cap fs (used[i := True]) (p\<lparr>pk_used := used[i := True]\<rparr>)"
proof -
  have "open_item cap fs used s j" if "open_item cap fs (used[i := True]) s j" for s j
    using that by (cases "length used \<le> i") (auto simp: list_update_beyond open_item_def nth_list_update split: if_splits)
  with assms show ?thesis
    by (auto simp: packer_ok_def tables_ok_def cursors_ok_def active_ok_def read_ok_mark)
qed

section \<open>One pass over the starts of a size\<close>

lemma cell_in_range: "\<forall>i \<in> set (cell cap fs s v). i < length fs"
  by (auto simp: cell_def)

lemma find_cell: "find (\<lambda>i. \<not> used ! i) (cell cap fs s (unat st)) = Some i \<longleftrightarrow>
    i < length fs \<and> open_item cap fs used s i \<and> frag_from (fs ! i) = st \<and>
    (\<forall>j < i. open_item cap fs used s j \<longrightarrow> frag_from (fs ! j) \<noteq> st)"
  by (auto simp: cell_def find_filter find_upt open_item_def word_unat_eq_iff)

lemma peekStart_ok:
  assumes ok: "packer_ok n cap fs used p" and s: "1 \<le> s" "s \<le> cap" and st: "unat st < n"
  shows "\<exists>p'. peekStart s st p = Some (find (\<lambda>i. \<not> used ! i) (cell cap fs s (unat st)), p') \<and>
     packer_ok n cap fs used p' \<and> pk_active p' = pk_active p"
proof -
  let ?xs = "cell cap fs s (unat st)" and ?heads = "pk_start_head p ! s"
  have len: "length used = length fs" and t: "pk_n p = n" "length (pk_by_start p) = cap + 1"
    "length (pk_by_start p ! s) = n" "pk_by_start p ! s ! unat st = ?xs" "pk_used p = used"
    and c: "length (pk_start_head p) = cap + 1" "length ?heads = n" "read_ok used ?xs (?heads ! unat st)"
    using ok s st by (simp_all add: packer_ok_def tables_ok_def cursors_ok_def)
  obtain h' where h': "peek_scan used ?xs (?heads ! unat st) = Some (find (\<lambda>i. \<not> used ! i) ?xs, h')"
    "read_ok used ?xs h'"
    using peek_scan_ok [OF _ c(3)] cell_in_range len by metis
  let ?p = "p\<lparr>pk_start_head := (pk_start_head p)[s := ?heads[unat st := h']]\<rparr>"
  have "peekStart s st p = Some (find (\<lambda>i. \<not> used ! i) ?xs, ?p)"
    using t c(1,2) s st h'(1) by (simp add: peekStart_def slice_simps)
  moreover have "packer_ok n cap fs used ?p"
    using ok s st h'(2)
    by (auto simp: packer_ok_def tables_ok_def cursors_ok_def active_ok_def nth_list_update)
  ultimately show ?thesis by auto
qed

definition pick_inv :: "nat \<Rightarrow> nat \<Rightarrow> fragment list \<Rightarrow> bool list \<Rightarrow> nat \<Rightarrow> (vertex_id \<Rightarrow> bool) \<Rightarrow> vertex_id list list
    \<Rightarrow> vertex_id list \<Rightarrow> (nat \<times> int) option \<times> vertex_id list \<times> packer \<Rightarrow> bool" where
  "pick_inv n cap fs used s d act ys = (\<lambda>(best, kept, p).
     let entry = (\<lambda>st. find (\<lambda>i. \<not> used ! i) (cell cap fs s (unat st)))
     in packer_ok n cap fs used p \<and> pk_active p = act \<and>
        kept = filter (\<lambda>st. entry st \<noteq> None) ys \<and>
        (case best of
           None \<Rightarrow> \<forall>st \<in> set ys. entry st \<noteq> None \<longrightarrow> d st
         | Some (i, bestID) \<Rightarrow> bestID = int i \<and> (\<exists>st \<in> set ys. entry st = Some i \<and> \<not> d st) \<and>
             (\<forall>st \<in> set ys. \<forall>j. entry st = Some j \<longrightarrow> \<not> d st \<longrightarrow> i \<le> j)))"

lemma pick_visit_ok:
  assumes fs: "packable n cap fs" and s: "1 \<le> s" "s \<le> cap" and st: "unat st < n"
    and skip: "skip st = Some (d st)" and inv: "pick_inv n cap fs used s d act ys (best, kept, p)"
  shows "\<exists>t'. pick_visit s skip st (best, kept, p) = Some t' \<and> pick_inv n cap fs used s d act (ys @ [st]) t'"
proof -
  let ?e = "find (\<lambda>i. \<not> used ! i) (cell cap fs s (unat st))"
  have ok: "packer_ok n cap fs used p" using inv by (simp add: pick_inv_def Let_def)
  obtain p' where p': "peekStart s st p = Some (?e, p')" "packer_ok n cap fs used p'" "pk_active p' = pk_active p"
    using peekStart_ok [OF ok s st] by blast
  consider "?e = None" | i where "?e = Some i" "d st" | i where "?e = Some i" "\<not> d st" by blast
  then show ?thesis
  proof cases
    case 1
    then show ?thesis using p' inv
      by (auto simp: pick_visit_def pick_inv_def Let_def split: option.splits)
  next
    case (2 i)
    then show ?thesis using p' inv skip
      by (auto simp: pick_visit_def pick_inv_def Let_def split: option.splits)
  next
    case (3 i)
    have i: "i < length fs" using 3(1) by (simp add: find_cell)
    then have it: "slice_get (pk_items p') i = Some \<lparr>it_f = fs ! i, it_size = item_size cap (fs ! i), it_start = frag_from (fs ! i)\<rparr>"
      using p'(2) by (simp add: packer_ok_def tables_ok_def slice_simps)
    show ?thesis using 3 p' inv skip it packable_nth(9) [OF fs i]
      by (cases best) (fastforce simp: pick_visit_def pick_inv_def Let_def)+
  qed
qed

text \<open>A pass finds the least open index of the size whose start is not skipped.\<close>

lemma pick_pass_ok:
  assumes fs: "packable n cap fs" and ok: "packer_ok n cap fs used p" and s: "1 \<le> s" "s \<le> cap"
    and skip: "\<And>st. unat st < n \<Longrightarrow> skip st = Some (d st)"
  shows "\<exists>p'. pick_pass s skip p =
      Some (find (\<lambda>i. open_item cap fs used s i \<and> \<not> d (frag_from (fs ! i))) [0..<length fs], p') \<and>
     packer_ok n cap fs used p'"
proof -
  let ?act = "pk_active p" and ?starts = "pk_active p ! s"
  let ?entry = "\<lambda>st. find (\<lambda>i. \<not> used ! i) (cell cap fs s (unat st))"
  have act: "length ?act = cap + 1" "\<forall>st \<in> set ?starts. unat st < n"
    "\<forall>i < length fs. open_item cap fs used s i \<longrightarrow> frag_from (fs ! i) \<in> set ?starts"
    using ok s by (simp_all add: packer_ok_def active_ok_def)
  have "\<exists>t. fold_opt (pick_visit s skip) ?starts (None, [], p) = Some t \<and> pick_inv n cap fs used s d ?act ?starts t"
  proof (rule fold_opt_rule)
    show "pick_inv n cap fs used s d ?act [] (None, [], p)" using ok by (simp add: pick_inv_def)
  next
    fix ys x zs t
    assume "?starts = ys @ x # zs" and inv: "pick_inv n cap fs used s d ?act ys t"
    with act(2) have x: "unat x < n" by simp
    from inv show "\<exists>t'. pick_visit s skip x t = Some t' \<and> pick_inv n cap fs used s d ?act (ys @ [x]) t'"
      using pick_visit_ok [OF fs s x, of skip d, OF skip [OF x]] by (cases t) blast
  qed
  then obtain best kept p1 where fold: "fold_opt (pick_visit s skip) ?starts (None, [], p) = Some (best, kept, p1)"
    and inv: "pick_inv n cap fs used s d ?act ?starts (best, kept, p1)" by auto
  then have p1: "packer_ok n cap fs used p1" "pk_active p1 = ?act" "kept = filter (\<lambda>st. ?entry st \<noteq> None) ?starts"
    by (simp_all add: pick_inv_def Let_def)
  have entry: "\<exists>j \<le> i. ?entry (frag_from (fs ! i)) = Some j"
    if "i < length fs" "open_item cap fs used s i" for i
  proof (cases "?entry (frag_from (fs ! i))")
    case None
    with that show ?thesis by (auto simp: find_None_iff cell_def open_item_def)
  next
    case (Some j)
    then have "j \<le> i" using that by (auto simp: find_cell not_le [symmetric])
    with Some show ?thesis by blast
  qed
  have "packer_ok n cap fs used (p1\<lparr>pk_active := ?act[s := kept]\<rparr>)"
    using p1(1,2) act s entry unfolding p1(3)
    by (fastforce simp: packer_ok_def tables_ok_def cursors_ok_def active_ok_def nth_list_update)
  moreover have "map_option fst best = find (\<lambda>i. open_item cap fs used s i \<and> \<not> d (frag_from (fs ! i))) [0..<length fs]"
  proof (cases best)
    case None
    then have "d (frag_from (fs ! i))" if "i < length fs" "open_item cap fs used s i" for i
      using inv entry [OF that] act(3) that by (auto simp: pick_inv_def Let_def)
    then have "find (\<lambda>i. open_item cap fs used s i \<and> \<not> d (frag_from (fs ! i))) [0..<length fs] = None"
      by (auto simp only: find_upt_None)
    with None show ?thesis by simp
  next
    case (Some b)
    obtain i where b: "b = (i, int i)" and i: "\<exists>st. ?entry st = Some i \<and> \<not> d st"
      and least: "\<forall>st \<in> set ?starts. \<forall>j. ?entry st = Some j \<longrightarrow> \<not> d st \<longrightarrow> i \<le> j"
      using inv by (cases b) (auto simp: Some pick_inv_def Let_def)
    have "i \<le> j" if "j < length fs" "open_item cap fs used s j" "\<not> d (frag_from (fs ! j))" for j
      using least entry [OF that(1,2)] act(3) that by (meson order_trans)
    with i have "find (\<lambda>i. open_item cap fs used s i \<and> \<not> d (frag_from (fs ! i))) [0..<length fs] = Some i"
      by (auto simp: find_upt find_cell) (meson less_trans not_le)
    with Some b show ?thesis by simp
  qed
  ultimately show ?thesis
    using fold act(1) p1(2) s by (auto simp: pick_pass_def slice_simps)
qed

section \<open>The selections\<close>

lemma pickFromSize_ok:
  assumes fs: "packable n cap fs" and ok: "packer_ok n cap fs used p" and s: "1 \<le> s" "s \<le> cap"
    and dup: "\<And>st. unat st < n \<Longrightarrow> required_set_Contains rs en st = Some (d st)"
  shows "\<exists>p'. pickFromSize rs s en p = Some (best_of_size cap fs d used s, p') \<and> packer_ok n cap fs used p'"
proof -
  obtain p1 where p1: "pick_pass s (required_set_Contains rs en) p =
      Some (find (\<lambda>i. open_item cap fs used s i \<and> \<not> d (frag_from (fs ! i))) [0..<length fs], p1)"
    "packer_ok n cap fs used p1"
    using pick_pass_ok [OF fs ok s, of "required_set_Contains rs en" d, OF dup] by auto
  obtain p2 where "pick_pass s (\<lambda>st. Some False) p1 = Some (find (open_item cap fs used s) [0..<length fs], p2)"
    "packer_ok n cap fs used p2"
    using pick_pass_ok [OF fs p1(2) s, of "\<lambda>st. Some False" "\<lambda>_. False"] by auto
  with p1 show ?thesis by (auto simp: pickFromSize_def best_of_size_def split: option.splits)
qed

lemma pick_smaller_ok:
  assumes fs: "packable n cap fs"
    and dup: "\<And>st. unat st < n \<Longrightarrow> required_set_Contains rs en st = Some (d st)"
  shows "packer_ok n cap fs used p \<Longrightarrow> s \<le> cap \<Longrightarrow>
    \<exists>p'. pick_smaller rs space s en p =
       Some (first_size (\<lambda>t. if int t = space then None else best_of_size cap fs d used t) s, p') \<and>
     packer_ok n cap fs used p'"
proof (induction s arbitrary: p)
  case (Suc s)
  show ?case
  proof (cases "int (Suc s) = space")
    case True
    with Suc show ?thesis by simp
  next
    case False
    obtain p1 where p1: "pickFromSize rs (Suc s) en p = Some (best_of_size cap fs d used (Suc s), p1)"
      "packer_ok n cap fs used p1"
      using pickFromSize_ok [OF fs Suc.prems(1) _ Suc.prems(2), of rs en d, OF _ dup] by auto
    show ?thesis
      using Suc.IH [OF p1(2)] Suc.prems(2) False p1 by (auto split: option.splits)
  qed
qed simp

lemma first_size_cong: "(\<And>t. 1 \<le> t \<Longrightarrow> t \<le> s \<Longrightarrow> f t = g t) \<Longrightarrow> first_size f s = first_size g s"
  by (induction s) (auto split: option.splits)

lemma first_size_None: "first_size f s = None \<longleftrightarrow> (\<forall>t. 1 \<le> t \<longrightarrow> t \<le> s \<longrightarrow> f t = None)"
  by (induction s) (auto split: option.splits simp: le_Suc_eq)

lemma first_size_Some: "first_size f s = Some i \<Longrightarrow>
    \<exists>t. 1 \<le> t \<and> t \<le> s \<and> f t = Some i \<and> (\<forall>u. t < u \<longrightarrow> u \<le> s \<longrightarrow> f u = None)"
proof (induction s)
  case (Suc s)
  show ?case
  proof (cases "f (Suc s)")
    case None
    with Suc obtain t where t: "1 \<le> t" "t \<le> s" "f t = Some i" "\<forall>u. t < u \<longrightarrow> u \<le> s \<longrightarrow> f u = None"
      by auto
    with None have "\<forall>u. t < u \<longrightarrow> u \<le> Suc s \<longrightarrow> f u = None" by (auto simp: le_Suc_eq)
    with t show ?thesis by (meson le_SucI)
  next
    case (Some j)
    with Suc.prems show ?thesis by (intro exI [of _ "Suc s"]) auto
  qed
qed simp

text \<open>\<open>pickFit\<close> is the best fit.\<close>

lemma pickFit_ok:
  assumes fs: "packable n cap fs" and ok: "packer_ok n cap fs used p" and space: "0 < space"
    and dup: "\<And>st. unat st < n \<Longrightarrow> required_set_Contains rs en st = Some (d st)"
  shows "\<exists>p'. pickFit rs space en p = Some (best_fit cap fs d used (nat space), p') \<and> packer_ok n cap fs used p'"
proof -
  let ?f = "best_of_size cap fs d used" and ?g = "\<lambda>t. if int t = space then None else best_of_size cap fs d used t"
  have cap: "pk_capacity p' = cap" if "packer_ok n cap fs used p'" for p'
    using that by (simp add: packer_ok_def tables_ok_def)
  have smaller: "\<exists>p''. pick_smaller rs space (nat (minInt space (int cap))) en p' =
      Some (first_size ?g (min (nat space) cap), p'') \<and> packer_ok n cap fs used p''"
    if "packer_ok n cap fs used p'" for p'
  proof -
    have "nat (minInt space (int cap)) = min (nat space) cap" by (simp add: minInt_def min_def) linarith
    then show ?thesis using pick_smaller_ok [OF fs dup that, of "min (nat space) cap" space] by simp
  qed
  show ?thesis
  proof (cases "space \<le> int cap")
    case True
    have "1 \<le> nat space" "nat space \<le> cap" using True space by linarith+
    then obtain p1 where p1: "pickFromSize rs (nat space) en p = Some (?f (nat space), p1)" "packer_ok n cap fs used p1"
      using pickFromSize_ok [OF fs ok, of "nat space" rs en d, OF _ _ dup] by auto
    have "first_size ?g (min (nat space) cap) = first_size ?f (min (nat space) cap)" if "?f (nat space) = None"
      using that by (intro first_size_cong) auto
    moreover have "first_size ?f (min (nat space) cap) = Some i" if "?f (nat space) = Some i" for i
      using that True space by (cases "nat space") (auto simp: min_def)
    ultimately show ?thesis
      using p1 smaller [OF p1(2)] True space cap [OF ok] cap [OF p1(2)]
      by (cases "?f (nat space)") (auto simp: pickFit_def best_fit_def)
  next
    case False
    have "first_size ?g (min (nat space) cap) = first_size ?f (min (nat space) cap)"
      using False by (intro first_size_cong) auto
    then show ?thesis
      using smaller [OF ok] False cap [OF ok] by (auto simp: pickFit_def best_fit_def)
  qed
qed

text \<open>\<open>popBestSize\<close> is the least index of the largest open size; its cursor passes that index.\<close>

lemma popBestSize_ok:
  "packer_ok n cap fs used p \<Longrightarrow> s \<le> cap \<Longrightarrow>
   \<exists>p'. popBestSize s p = Some (first_size (\<lambda>t. find (open_item cap fs used t) [0..<length fs]) s, p') \<and>
     (case first_size (\<lambda>t. find (open_item cap fs used t) [0..<length fs]) s of
        None \<Rightarrow> packer_ok n cap fs used p'
      | Some i \<Rightarrow> packer_ok n cap fs (used[i := True]) (p'\<lparr>pk_used := used[i := True]\<rparr>))"
proof (induction s arbitrary: p)
  case 0
  then show ?case by simp
next
  case (Suc s)
  note ok = Suc.prems(1)
  let ?xs = "bucket cap fs (Suc s)" and ?find = "find (open_item cap fs used (Suc s)) [0..<length fs]"
  have t: "pk_used p = used" "length used = length fs" "length (pk_buckets p) = cap + 1" "pk_buckets p ! Suc s = ?xs"
    "length (pk_bucket_head p) = cap + 1" "read_ok used ?xs (pk_bucket_head p ! Suc s)"
    using Suc.prems by (simp_all add: packer_ok_def tables_ok_def cursors_ok_def)
  have find: "find (\<lambda>i. \<not> used ! i) ?xs = ?find"
    by (simp add: bucket_def find_filter open_item_def conj_commute cong: find_cong)
  obtain h' where h': "bucket_scan used ?xs (pk_bucket_head p ! Suc s) = Some (?find, h')"
    "case ?find of None \<Rightarrow> read_ok used ?xs h' | Some i \<Rightarrow> read_ok (used[i := True]) ?xs h'"
    using bucket_scan_ok [OF _ t(6)] t(2) unfolding find by (auto simp: bucket_def)
  let ?p = "p\<lparr>pk_bucket_head := (pk_bucket_head p)[Suc s := h']\<rparr>"
  have run: "popBestSize (Suc s) p = (case ?find of Some i \<Rightarrow> Some (Some i, ?p) | None \<Rightarrow> popBestSize s ?p)"
    using t Suc.prems(2) h'(1) by (simp add: slice_simps Let_def)
  show ?case
  proof (cases ?find)
    case None
    then have "packer_ok n cap fs used ?p"
      using ok h'(2) Suc.prems(2)
      by (auto simp: packer_ok_def tables_ok_def cursors_ok_def active_ok_def nth_list_update)
    with Suc.IH [of ?p] None run Suc.prems(2) show ?thesis by simp
  next
    case (Some i)
    have "packer_ok n cap fs (used[i := True]) (?p\<lparr>pk_used := used[i := True]\<rparr>)"
      using packer_ok_mark [OF ok, of i] h'(2) Suc.prems(2)
      by (auto simp: packer_ok_def tables_ok_def cursors_ok_def active_ok_def nth_list_update Some)
    with Some run show ?thesis by simp
  qed
qed

lemma pop_largest:
  assumes "packer_ok n cap fs used p"
  shows "\<exists>p'. popBestSize (pk_capacity p) p = Some (largest_item cap fs used, p') \<and>
     (case largest_item cap fs used of
        None \<Rightarrow> packer_ok n cap fs used p'
      | Some i \<Rightarrow> packer_ok n cap fs (used[i := True]) (p'\<lparr>pk_used := used[i := True]\<rparr>))"
proof -
  have "pk_capacity p = cap" using assms by (simp add: packer_ok_def tables_ok_def)
  then show ?thesis using popBestSize_ok [OF assms, of cap] by (simp add: largest_item_def)
qed

text \<open>What the two selections return: an open item, of a size that fits; nothing when none fits.\<close>

lemma largest_item_Some:
  assumes "packable n cap fs" "largest_item cap fs used = Some i"
  shows "i < length fs" "\<not> used ! i"
    "\<forall>j < length fs. \<not> used ! j \<longrightarrow> item_size cap (fs ! j) \<le> item_size cap (fs ! i)"
proof -
  obtain t where t: "find (open_item cap fs used t) [0..<length fs] = Some i"
    "\<forall>u. t < u \<longrightarrow> u \<le> cap \<longrightarrow> find (open_item cap fs used u) [0..<length fs] = None"
    using first_size_Some assms(2) unfolding largest_item_def by blast
  then show "i < length fs" "\<not> used ! i" by (simp_all add: find_upt open_item_def)
  show "\<forall>j < length fs. \<not> used ! j \<longrightarrow> item_size cap (fs ! j) \<le> item_size cap (fs ! i)"
    using t packable_nth(3) [OF assms(1)] by (auto simp: find_upt find_upt_None open_item_def not_less [symmetric])
qed

lemma largest_item_None:
  assumes "packable n cap fs" "largest_item cap fs used = None" "i < length fs"
  shows "used ! i"
  using assms packable_nth(3,4) [OF assms(1,3)]
  by (auto simp: largest_item_def first_size_None find_upt_None open_item_def)

lemma best_of_size_Some: "best_of_size cap fs d used s = Some i \<Longrightarrow> i < length fs \<and> open_item cap fs used s i"
  by (auto simp: best_of_size_def find_upt split: option.splits)

lemma best_of_size_None: "best_of_size cap fs d used s = None \<longleftrightarrow> (\<forall>i < length fs. \<not> open_item cap fs used s i)"
  by (auto simp: best_of_size_def find_upt_None find_upt split: option.splits)

lemma best_fit_Some:
  assumes "best_fit cap fs d used space = Some i"
  shows "i < length fs" "\<not> used ! i" "item_size cap (fs ! i) \<le> space"
proof -
  obtain t where "t \<le> min space cap" "best_of_size cap fs d used t = Some i"
    using first_size_Some assms unfolding best_fit_def by blast
  with best_of_size_Some show "i < length fs" "\<not> used ! i" "item_size cap (fs ! i) \<le> space"
    by (auto simp: open_item_def)
qed

lemma best_fit_None:
  assumes "packable n cap fs" "best_fit cap fs d used space = None" "i < length fs" "\<not> used ! i"
  shows "space < item_size cap (fs ! i)"
  using assms packable_nth(3,4) [OF assms(1,3)]
  by (auto simp: best_fit_def first_size_None best_of_size_None open_item_def)

section \<open>Property\<close>

text \<open>
  C19: in every state the packer can be in, the bucketed search \<open>pickFit\<close>, with its cursors
  and its in-place compaction of active starts, does not panic, keeps the tables consistent
  and picks exactly what the selection rule \<open>best_fit\<close> says about the fragments themselves.
\<close>

theorem pickFit_is_best_fit:
  assumes "packable n cap fs" "packer_ok n cap fs used p" "0 < space"
    and "\<forall>st. unat st < n \<longrightarrow> required_set_Contains rs en st = Some (dup st)"
  shows "\<exists>p'. pickFit rs space en p = Some (best_fit cap fs dup used (nat space), p') \<and>
    packer_ok n cap fs used p'"
  using pickFit_ok [OF assms(1-3)] assms(4) by blast

theorem pickFit_is_best_fit_witness:
  "\<exists>p p'. new_packer 4 4 [\<lparr>frag_edges = [Arc 0 0 1, Arc 1 1 2], frag_id = 0\<rparr>, \<lparr>frag_edges = [Arc 2 3 0], frag_id = 1\<rparr>] = Some p \<and>
     pickFit \<lparr>rs_bits = [0], rs_n = 4\<rparr> 2 2 p = Some (Some 1, p')"
proof -
  let ?fs = "[\<lparr>frag_edges = [Arc 0 0 1, Arc 1 1 2], frag_id = 0\<rparr>, \<lparr>frag_edges = [Arc 2 3 0], frag_id = 1\<rparr>]"
  have fs: "packable 4 4 ?fs"
    by (auto simp: packable_def numbered_def frag_from_def frag_to_def less_Suc_eq)
  from new_packer_ok [OF fs] obtain p where p: "new_packer 4 4 ?fs = Some p" "packer_ok 4 4 ?fs [False, False] p"
    by auto
  have "represents \<lparr>rs_bits = [0], rs_n = 4\<rparr> 4 {}"
    using represents_empty [of 4] by simp
  then have dup: "\<forall>st. unat st < 4 \<longrightarrow> required_set_Contains \<lparr>rs_bits = [0], rs_n = 4\<rparr> 2 st = Some False"
    using Contains_represents by fastforce
  have "best_fit 4 ?fs (\<lambda>_. False) [False, False] (nat 2) = Some 1"
    by (simp add: best_fit_def best_of_size_def open_item_def item_size_def fragment_len_def numeral_2_eq_2 upt_rec min_def)
  with pickFit_is_best_fit [OF fs p(2) _ dup, of 2] p(1) show ?thesis by auto
qed

end
