(* ===== verification/Packing_Routes.thy ===== *)
theory Packing_Routes
  imports Packing_Fit
begin

text \<open>
  What \<open>PackFragments\<close> guarantees of its routes: they are continuous walks of at most
  \<open>maxLegs\<close> legs, their required legs are exactly the arcs of the fragments, and no two of
  them could have been joined by one bridge. Also the lemmas on \<open>SplitFragmentsByMaxLegs\<close>
  and \<open>RoutesToRequiredFragments\<close>.
\<close>

section \<open>Walks\<close>

fun walk :: "leg list \<Rightarrow> bool" where
  "walk (l # m # ls) = (leg_to l = leg_from m \<and> walk (m # ls))"
| "walk _ = True"

lemma walk_Cons: "walk (l # ls) \<longleftrightarrow> walk ls \<and> (ls \<noteq> [] \<longrightarrow> leg_to l = leg_from (hd ls))"
  by (cases ls) auto

lemma walk_append:
  "walk (xs @ ys) \<longleftrightarrow> walk xs \<and> walk ys \<and> (xs \<noteq> [] \<longrightarrow> ys \<noteq> [] \<longrightarrow> leg_to (last xs) = leg_from (hd ys))"
  by (induction xs) (auto simp: walk_Cons)

definition route_ok :: "int \<Rightarrow> route \<Rightarrow> bool" where
  "route_ok maxLegs r \<longleftrightarrow> legs r \<noteq> [] \<and> walk (legs r) \<and> int (length (legs r)) \<le> maxLegs"

definition required_legs :: "leg list \<Rightarrow> leg list" where
  "required_legs ls = filter (\<lambda>l. leg_kind l = LegRequired) ls"

definition required_arcs :: "leg list \<Rightarrow> arc multiset" where
  "required_arcs ls = mset (map leg_arc (required_legs ls))"

definition routes_arcs :: "route list \<Rightarrow> arc multiset" where
  "routes_arcs rs = required_arcs (concat (map legs rs))"

lemma required_arcs_append [simp]: "required_arcs (xs @ ys) = required_arcs xs + required_arcs ys"
  by (simp add: required_arcs_def required_legs_def)

lemma required_arcs_Nil [simp]: "required_arcs [] = {#}"
  by (simp add: required_arcs_def required_legs_def)

lemma required_arcs_bridge [simp]: "required_arcs (bridge_leg u v # ls) = required_arcs ls"
  by (simp add: required_arcs_def required_legs_def bridge_leg_def)

lemma routes_arcs_append [simp]: "routes_arcs (xs @ ys) = routes_arcs xs + routes_arcs ys"
  by (simp add: routes_arcs_def)

lemma routes_arcs_simps [simp]:
  "routes_arcs [] = {#}" "routes_arcs (r # rs) = required_arcs (legs r) + routes_arcs rs"
  by (simp_all add: routes_arcs_def)

lemma required_arcs_fragment [simp]: "required_arcs (fragmentLegs f) = mset (frag_edges f)"
  by (simp add: required_arcs_def required_legs_def fragmentLegs_def leg_arc_def filter_map o_def)

lemma length_fragmentLegs [simp]: "length (fragmentLegs f) = length (frag_edges f)"
  by (simp add: fragmentLegs_def)

lemma fragmentLegs_ends:
  assumes "frag_edges f \<noteq> []"
  shows "fragmentLegs f \<noteq> []" "leg_from (hd (fragmentLegs f)) = frag_from f"
    "leg_to (last (fragmentLegs f)) = frag_to f"
  using assms by (simp_all add: fragmentLegs_def frag_from_def frag_to_def hd_map last_map)

lemma walk_fragmentLegs: "walk (fragmentLegs f) = trail (frag_edges f)"
proof -
  have "walk (map (\<lambda>e. \<lparr>leg_from = arc_from e, leg_to = arc_to e, leg_kind = LegRequired,
     leg_edge = arc_id e\<rparr>) es) = trail es" for es
    by (induction es rule: trail.induct) auto
  then show ?thesis by (simp add: fragmentLegs_def)
qed

text \<open>Appending a bridge and a fragment.\<close>

lemma walk_extend:
  assumes "walk ls" "ls \<noteq> []" "leg_to (last ls) = en" "trail (frag_edges f)" "frag_edges f \<noteq> []"
  shows "walk (ls @ [bridge_leg en (frag_from f)] @ fragmentLegs f)"
    "leg_to (last (ls @ [bridge_leg en (frag_from f)] @ fragmentLegs f)) = frag_to f"
  using assms fragmentLegs_ends [OF assms(5)]
  by (auto simp: walk_append walk_Cons walk_fragmentLegs bridge_leg_def)

text \<open>All legs run between endpoints of the fragments' arcs.\<close>

definition frag_vertices :: "fragment list \<Rightarrow> vertex_id set" where
  "frag_vertices fs = (\<Union>f \<in> set fs. \<Union>a \<in> set (frag_edges f). {arc_from a, arc_to a})"

definition legs_within :: "vertex_id set \<Rightarrow> leg list \<Rightarrow> bool" where
  "legs_within V ls \<longleftrightarrow> (\<forall>l \<in> set ls. leg_from l \<in> V \<and> leg_to l \<in> V)"

lemma legs_within_append [simp]: "legs_within V (xs @ ys) \<longleftrightarrow> legs_within V xs \<and> legs_within V ys"
  by (auto simp: legs_within_def)

lemma legs_within_bridge [simp]: "legs_within V (bridge_leg u v # ls) \<longleftrightarrow> u \<in> V \<and> v \<in> V \<and> legs_within V ls"
  by (simp add: legs_within_def bridge_leg_def)

lemma fragment_within:
  assumes "f \<in> set fs"
  shows "legs_within (frag_vertices fs) (fragmentLegs f)"
    "frag_edges f \<noteq> [] \<Longrightarrow> frag_from f \<in> frag_vertices fs"
    "frag_edges f \<noteq> [] \<Longrightarrow> frag_to f \<in> frag_vertices fs"
proof -
  show "legs_within (frag_vertices fs) (fragmentLegs f)"
    using assms by (auto simp: legs_within_def fragmentLegs_def frag_vertices_def)
  assume "frag_edges f \<noteq> []"
  then have "hd (frag_edges f) \<in> set (frag_edges f)" "last (frag_edges f) \<in> set (frag_edges f)" by simp_all
  with assms show "frag_from f \<in> frag_vertices fs" "frag_to f \<in> frag_vertices fs"
    by (auto simp: frag_vertices_def frag_from_def frag_to_def)
qed

lemma legs_within_last: "legs_within V ls \<Longrightarrow> ls \<noteq> [] \<Longrightarrow> leg_to (last ls) \<in> V"
  by (simp add: legs_within_def)

section \<open>The fragments not yet used\<close>

definition open_items :: "fragment list \<Rightarrow> bool list \<Rightarrow> nat set" where
  "open_items fs used = {i. i < length fs \<and> \<not> used ! i}"

definition open_arcs :: "fragment list \<Rightarrow> bool list \<Rightarrow> arc multiset" where
  "open_arcs fs used = (\<Sum>i \<in> open_items fs used. mset (frag_edges (fs ! i)))"

lemma finite_open_items [simp]: "finite (open_items fs used)"
  by (simp add: open_items_def)

lemma open_items_mark:
  assumes "length used = length fs" "i < length fs"
  shows "open_items fs (used[i := True]) = open_items fs used - {i}"
  using assms by (auto simp: open_items_def nth_list_update)

lemma mark_open:
  assumes "length used = length fs" "i < length fs" "\<not> used ! i"
  shows "open_arcs fs used = mset (frag_edges (fs ! i)) + open_arcs fs (used[i := True])"
    "card (open_items fs used) = Suc (card (open_items fs (used[i := True])))"
proof -
  have i: "i \<in> open_items fs used" using assms by (simp add: open_items_def)
  show "open_arcs fs used = mset (frag_edges (fs ! i)) + open_arcs fs (used[i := True])"
    unfolding open_arcs_def open_items_mark [OF assms(1,2)] by (rule sum.remove) (use i in simp_all)
  show "card (open_items fs used) = Suc (card (open_items fs (used[i := True])))"
    unfolding open_items_mark [OF assms(1,2)] by (rule card.remove) (use i in simp_all)
qed

lemma open_arcs_none: "open_items fs used = {} \<Longrightarrow> open_arcs fs used = {#}"
  by (simp add: open_arcs_def)

lemma open_arcs_all: "open_arcs fs (replicate (length fs) False) = frag_arcs fs"
proof -
  have "open_items fs (replicate (length fs) False) = {..<length fs}"
    by (auto simp: open_items_def)
  then have "open_arcs fs (replicate (length fs) False) = (\<Sum>i < length fs. mset (frag_edges (fs ! i)))"
    by (simp add: open_arcs_def)
  also have "\<dots> = sum_list (map (mset \<circ> frag_edges) fs)"
    by (simp add: sum_list_sum_nth atLeast0LessThan)
  also have "\<dots> = frag_arcs fs" by (simp add: frag_arcs_def mset_concat)
  finally show ?thesis .
qed

lemma packer_item:
  assumes "packer_ok n cap fs used p" "i < length fs"
  shows "slice_get (pk_items p) i = Some \<lparr>it_f = fs ! i, it_size = item_size cap (fs ! i), it_start = frag_from (fs ! i)\<rparr>"
    "slice_set (pk_used p) i True = Some (used[i := True])" "pk_capacity p = cap"
  using assms by (simp_all add: packer_ok_def tables_ok_def slice_simps)

lemma popBestSize_used: "popBestSize s p = Some (r, p') \<Longrightarrow> pk_used p' = pk_used p"
  by (induction s arbitrary: p) (auto simp: slice_Some_iffs Let_def split: option.splits prod.splits)

section \<open>Filling one route\<close>

text \<open>Nothing that is still open fits behind the legs \<open>ls\<close>, bridge included.\<close>

definition closed_for :: "nat \<Rightarrow> fragment list \<Rightarrow> bool list \<Rightarrow> leg list \<Rightarrow> bool" where
  "closed_for cap fs used ls \<longleftrightarrow>
     (\<forall>i \<in> open_items fs used. cap \<le> length ls + length (frag_edges (fs ! i)) + 1)"

text \<open>The state between two turns of the inner loop.\<close>

definition fill_inv :: "nat \<Rightarrow> nat \<Rightarrow> fragment list \<Rightarrow> bool list \<Rightarrow> leg list \<Rightarrow> packer \<Rightarrow> bool" where
  "fill_inv n cap fs used ls p \<longleftrightarrow> packer_ok n cap fs used p \<and> walk ls \<and> ls \<noteq> [] \<and> length ls < cap \<and>
     unat (leg_to (last ls)) < n \<and> legs_within (frag_vertices fs) ls"

lemma fill_step:
  assumes fs: "packable n cap fs" and trails: "\<forall>f \<in> set fs. trail (frag_edges f)"
    and inv: "fill_inv n cap fs used ls p"
    and i: "i < length fs" "item_size cap (fs ! i) + length ls < cap"
  shows "fill_inv n cap fs (used[i := True])
    (ls @ [bridge_leg (leg_to (last ls)) (frag_from (fs ! i))] @ fragmentLegs (fs ! i))
    (p\<lparr>pk_used := used[i := True]\<rparr>)"
proof -
  have t: "trail (frag_edges (fs ! i))" using trails i(1) by simp
  note f = packable_nth [OF fs i(1)]
  have w: "walk ls" "ls \<noteq> []" using inv by (simp_all add: fill_inv_def)
  note e = walk_extend [OF w refl t f(1)]
  show ?thesis
    using inv packer_ok_mark [of n cap fs used p i] e f(2,6) i(2)
      fragment_within [OF nth_mem [OF i(1)]] f(1) legs_within_last [of "frag_vertices fs" ls]
    by (simp add: fill_inv_def)
qed

lemma pack_fill_ok:
  assumes fs: "packable n cap fs" and trails: "\<forall>f \<in> set fs. trail (frag_edges f)"
    and dup: "\<And>u v. unat u < n \<Longrightarrow> unat v < n \<Longrightarrow> required_set_Contains rs u v = Some (d u v)"
  shows "fill_inv n cap fs used ls p \<Longrightarrow>
    \<exists>ls' used' p'. pack_fill rs (int cap - 1 - int (length ls)) (int (card (open_items fs used))) (leg_to (last ls)) ls p
        = Some (ls', int (card (open_items fs used')), p') \<and>
      fill_inv n cap fs used' ls' p' \<and> closed_for cap fs used' ls' \<and>
      required_arcs ls' + open_arcs fs used' = required_arcs ls + open_arcs fs used \<and>
      open_items fs used' \<subseteq> open_items fs used \<and> length ls \<le> length ls'"
proof (induction "card (open_items fs used)" arbitrary: used ls p rule: less_induct)
  case less
  let ?space = "int cap - 1 - int (length ls)" and ?rem = "int (card (open_items fs used))" and ?en = "leg_to (last ls)"
  note inv = less.prems
  have ok: "packer_ok n cap fs used p" and en: "unat ?en < n" and len: "length used = length fs"
    using inv by (simp_all add: fill_inv_def packer_ok_def)
  show ?case
  proof (cases "?space > 0 \<and> ?rem > 0")
    case False
    then have "closed_for cap fs used ls" by (auto simp: closed_for_def)
    moreover have "pack_fill rs ?space ?rem ?en ls p = Some (ls, ?rem, p)"
      by (subst pack_fill.simps) (simp only: False if_False)
    ultimately show ?thesis using inv by auto
  next
    case True
    let ?pick = "best_fit cap fs (d ?en) used (nat ?space)"
    obtain p1 where p1: "pickFit rs ?space ?en p = Some (?pick, p1)" "packer_ok n cap fs used p1"
      using pickFit_ok [OF fs ok, of ?space rs ?en "d ?en", OF _ dup [OF en]] True by auto
    show ?thesis
    proof (cases ?pick)
      case None
      have "closed_for cap fs used ls"
        unfolding closed_for_def
      proof
        fix i assume "i \<in> open_items fs used"
        then have i: "i < length fs" "\<not> used ! i" by (simp_all add: open_items_def)
        from best_fit_None [OF fs None i] packable_nth(2) [OF fs i(1)]
        show "cap \<le> length ls + length (frag_edges (fs ! i)) + 1" by linarith
      qed
      moreover have "pack_fill rs ?space ?rem ?en ls p = Some (ls, ?rem, p1)"
        using True p1(1) None by (subst pack_fill.simps) simp
      ultimately show ?thesis using inv p1(2) by (auto simp: fill_inv_def)
    next
      case (Some i)
      note i = best_fit_Some [OF Some]
      let ?ls = "ls @ [bridge_leg ?en (frag_from (fs ! i))] @ fragmentLegs (fs ! i)"
      let ?used = "used[i := True]" and ?p = "p1\<lparr>pk_used := used[i := True]\<rparr>"
      note f = packable_nth [OF fs i(1)] and it = packer_item [OF p1(2) i(1)]
      note cnt = mark_open [OF len i(1,2)]
      have fit: "item_size cap (fs ! i) + length ls < cap" using i(3) True by linarith
      have inv': "fill_inv n cap fs ?used ?ls ?p"
        using inv p1(2) by (intro fill_step [OF fs trails _ i(1) fit]) (simp add: fill_inv_def)
      have last: "leg_to (last ?ls) = frag_to (fs ! i)" using fragmentLegs_ends [OF f(1)] by simp
      have args: "?space - int (item_size cap (fs ! i)) = int cap - 1 - int (length ?ls)"
        "?rem - 1 = int (card (open_items fs ?used))"
        using f(2) cnt(2) by simp_all
      have "pack_fill rs ?space ?rem ?en ls p =
          pack_fill rs (?space - int (item_size cap (fs ! i))) (?rem - 1) (frag_to (fs ! i)) ?ls ?p"
        using True p1(1) Some it f by (subst pack_fill.simps) simp
      then have run: "pack_fill rs ?space ?rem ?en ls p =
          pack_fill rs (int cap - 1 - int (length ?ls)) (int (card (open_items fs ?used))) (leg_to (last ?ls)) ?ls ?p"
        unfolding args last .
      have "card (open_items fs ?used) < card (open_items fs used)" using cnt(2) by simp
      from less.hyps [OF this inv'] obtain ls' used' p' where rec:
        "pack_fill rs (int cap - 1 - int (length ?ls)) (int (card (open_items fs ?used))) (leg_to (last ?ls)) ?ls ?p
          = Some (ls', int (card (open_items fs used')), p')"
        "fill_inv n cap fs used' ls' p'" "closed_for cap fs used' ls'"
        "required_arcs ls' + open_arcs fs used' = required_arcs ?ls + open_arcs fs ?used"
        "open_items fs used' \<subseteq> open_items fs ?used" "length ?ls \<le> length ls'" by blast
      have arcs: "required_arcs ls' + open_arcs fs used' = required_arcs ls + open_arcs fs used"
        using rec(4) cnt(1) by (simp add: add.assoc)
      have sub: "open_items fs used' \<subseteq> open_items fs used"
        using rec(5) open_items_mark [OF len i(1)] by blast
      have "length ls \<le> length ls'" using rec(6) by simp
      with arcs sub rec(1-3) show ?thesis unfolding run by blast
    qed
  qed
qed

section \<open>All routes\<close>

definition joinless :: "nat \<Rightarrow> route list \<Rightarrow> bool" where
  "joinless cap rts \<longleftrightarrow> (\<forall>j < length rts. \<forall>k < j. cap \<le> length (legs (rts ! k)) + length (legs (rts ! j)) + 1)"

definition loop_ok :: "nat \<Rightarrow> fragment list \<Rightarrow> bool list \<Rightarrow> route list \<Rightarrow> bool" where
  "loop_ok cap fs used rts \<longleftrightarrow> (\<forall>r \<in> set rts. route_ok (int cap - 1) r \<and> closed_for cap fs used (legs r) \<and>
       legs_within (frag_vertices fs) (legs r)) \<and>
     joinless cap rts \<and> routes_arcs rts + open_arcs fs used = frag_arcs fs"

lemma closed_for_mono:
  "closed_for cap fs used ls \<Longrightarrow> open_items fs used' \<subseteq> open_items fs used \<Longrightarrow> closed_for cap fs used' ls"
  by (auto simp: closed_for_def)

lemma joinless_snoc:
  assumes "joinless cap rts" "\<forall>r \<in> set rts. cap \<le> length (legs r) + length (legs r') + 1"
  shows "joinless cap (rts @ [r'])"
  using assms by (auto simp: joinless_def nth_append less_Suc_eq)

lemma loop_step:
  assumes ok: "loop_ok cap fs used rts" and i: "i \<in> open_items fs used"
    and r: "route_ok (int cap - 1) r" "closed_for cap fs used' (legs r)" "legs_within (frag_vertices fs) (legs r)"
    and len: "length (frag_edges (fs ! i)) \<le> length (legs r)"
    and arcs: "required_arcs (legs r) + open_arcs fs used' = open_arcs fs used"
    and sub: "open_items fs used' \<subseteq> open_items fs used"
  shows "loop_ok cap fs used' (rts @ [r])"
proof -
  have "cap \<le> length (legs r0) + length (legs r) + 1" if "r0 \<in> set rts" for r0
  proof -
    have "closed_for cap fs used (legs r0)" using ok that by (simp add: loop_ok_def)
    with i have "cap \<le> length (legs r0) + length (frag_edges (fs ! i)) + 1" by (simp add: closed_for_def)
    with len show ?thesis by linarith
  qed
  then have "joinless cap (rts @ [r])" using ok by (simp add: loop_ok_def joinless_snoc)
  with ok r arcs closed_for_mono [OF _ sub] show ?thesis
    by (auto simp: loop_ok_def add.assoc)
qed

lemma pack_loop_ok:
  assumes fs: "packable n cap fs" and trails: "\<forall>f \<in> set fs. trail (frag_edges f)"
    and dup: "\<And>u v. unat u < n \<Longrightarrow> unat v < n \<Longrightarrow> required_set_Contains rs u v = Some (d u v)"
  shows "packer_ok n cap fs used p \<Longrightarrow> loop_ok cap fs used rts \<Longrightarrow>
    \<exists>rts' used'. pack_loop rs (int (card (open_items fs used))) rts p = Some rts' \<and>
      loop_ok cap fs used' rts' \<and> open_items fs used' = {}"
proof (induction "card (open_items fs used)" arbitrary: used rts p rule: less_induct)
  case less
  let ?rem = "int (card (open_items fs used))"
  have len: "length used = length fs" using less.prems(1) by (simp add: packer_ok_def)
  show ?case
  proof (cases "?rem > 0")
    case False
    then have "pack_loop rs ?rem rts p = Some rts" by (subst pack_loop.simps) simp
    with False less.prems(2) show ?thesis by auto
  next
    case True
    then obtain i0 where i0: "i0 < length fs" "\<not> used ! i0" by (auto simp: card_gt_0_iff open_items_def)
    with largest_item_None [OF fs] obtain i where i: "largest_item cap fs used = Some i" by blast
    note large = largest_item_Some [OF fs i]
    let ?used = "used[i := True]"
    obtain p1 where p1: "popBestSize (pk_capacity p) p = Some (Some i, p1)"
      "packer_ok n cap fs ?used (p1\<lparr>pk_used := ?used\<rparr>)"
      using pop_largest [OF less.prems(1)] i by auto
    note f = packable_nth [OF fs large(1)] and cnt = mark_open [OF len large(1,2)]
    note it = packer_item [OF p1(2) large(1)]
    have used1: "slice_set (pk_used p1) i True = Some ?used"
      using popBestSize_used [OF p1(1)] less.prems(1) large(1) len by (simp add: packer_ok_def slice_simps)
    let ?ls = "fragmentLegs (fs ! i)" and ?p = "p1\<lparr>pk_used := ?used\<rparr>"
    have ends: "?ls \<noteq> []" "leg_to (last ?ls) = frag_to (fs ! i)" using fragmentLegs_ends [OF f(1)] by simp_all
    have "trail (frag_edges (fs ! i))" using trails large(1) by simp
    then have inv: "fill_inv n cap fs ?used ?ls ?p"
      using p1(2) ends f(2,3,6) fragment_within(1) [OF nth_mem [OF large(1)]]
      by (simp add: fill_inv_def walk_fragmentLegs)
    from pack_fill_ok [OF fs trails dup inv] obtain ls' used' p' where fill:
      "pack_fill rs (int cap - 1 - int (length ?ls)) (int (card (open_items fs ?used))) (leg_to (last ?ls)) ?ls ?p
        = Some (ls', int (card (open_items fs used')), p')"
      "fill_inv n cap fs used' ls' p'" "closed_for cap fs used' ls'"
      "required_arcs ls' + open_arcs fs used' = required_arcs ?ls + open_arcs fs ?used"
      "open_items fs used' \<subseteq> open_items fs ?used" "length ?ls \<le> length ls'" by blast
    have args: "int cap - int (item_size cap (fs ! i)) = int cap - 1 - int (length ?ls)"
      "?rem - 1 = int (card (open_items fs ?used))" "legs (fragmentToRoute (fs ! i)) = ?ls"
      using f(2) cnt(2) by (simp_all add: fragmentToRoute_def)
    have "pack_fill rs (int cap - int (item_size cap (fs ! i))) (?rem - 1) (frag_to (fs ! i))
        (legs (fragmentToRoute (fs ! i))) ?p = Some (ls', int (card (open_items fs used')), p')"
      unfolding args ends(2) [symmetric] by (rule fill(1))
    then have run: "pack_loop rs ?rem rts p = pack_loop rs (int (card (open_items fs used'))) (rts @ [\<lparr>legs = ls'\<rparr>]) p'"
      using True p1(1) used1 it f(8) by (subst pack_loop.simps) simp
    have sub: "open_items fs used' \<subseteq> open_items fs used" "card (open_items fs used') < card (open_items fs used)"
      using fill(5) open_items_mark [OF len large(1)] cnt(2) card_mono [OF finite_open_items fill(5)] by auto
    have "loop_ok cap fs used' (rts @ [\<lparr>legs = ls'\<rparr>])"
    proof (rule loop_step [OF less.prems(2) _ _ _ _ _ _ sub(1)])
      show "i \<in> open_items fs used" using large by (simp add: open_items_def)
      show "route_ok (int cap - 1) \<lparr>legs = ls'\<rparr>" using fill(2) by (auto simp: route_ok_def fill_inv_def)
      show "closed_for cap fs used' (legs \<lparr>legs = ls'\<rparr>)" using fill(3) by simp
      show "legs_within (frag_vertices fs) (legs \<lparr>legs = ls'\<rparr>)" using fill(2) by (simp add: fill_inv_def)
      show "length (frag_edges (fs ! i)) \<le> length (legs \<lparr>legs = ls'\<rparr>)" using fill(6) by simp
      show "required_arcs (legs \<lparr>legs = ls'\<rparr>) + open_arcs fs used' = open_arcs fs used"
        using fill(4) cnt(1) by simp
    qed
    then show ?thesis
      using less.hyps [OF sub(2)] fill(2) run by (simp add: fill_inv_def)
  qed
qed

text \<open>\<open>PackFragments\<close> does not panic, and what its routes are.\<close>

lemma PackFragments_ok:
  assumes fs: "packable n (nat (maxLegs + 1)) fs" and trails: "\<forall>f \<in> set fs. trail (frag_edges f)"
    and n: "pack_vertices rs fs = Some n" and L: "0 < maxLegs"
    and dup: "\<And>u v. unat u < n \<Longrightarrow> unat v < n \<Longrightarrow> required_set_Contains rs u v = Some (d u v)"
  shows "\<exists>rts. PackFragments fs maxLegs rs = Some rts \<and> (\<forall>r \<in> set rts. route_ok maxLegs r \<and> legs_within (frag_vertices fs) (legs r)) \<and>
     joinless (nat (maxLegs + 1)) rts \<and> routes_arcs rts = frag_arcs fs"
proof (cases "fs = []")
  case True
  then show ?thesis by (simp add: PackFragments_def joinless_def frag_arcs_def)
next
  case False
  let ?cap = "nat (maxLegs + 1)" and ?used = "replicate (length fs) False"
  obtain p where p: "new_packer n ?cap fs = Some p" "packer_ok n ?cap fs ?used p"
    using new_packer_ok [OF fs] by blast
  have open_all: "open_items fs ?used = {..<length fs}" by (auto simp: open_items_def)
  have "loop_ok ?cap fs ?used []" by (simp add: loop_ok_def joinless_def open_arcs_all)
  from pack_loop_ok [OF fs trails dup p(2) this] open_all obtain rts used' where
    "pack_loop rs (int (length fs)) [] p = Some rts" "loop_ok ?cap fs used' rts" "open_items fs used' = {}"
    by auto
  with False L n p(1) open_arcs_none show ?thesis
    by (auto simp: PackFragments_def loop_ok_def)
qed

section \<open>Property\<close>

text \<open>
  C10: packing the fragments of a set of required arcs does not panic; every route is a nonempty
  continuous walk of at most \<open>maxLegs\<close> legs, the required legs of the routes are the arcs of
  the fragments with their multiplicities, and no two routes could be joined by a bridge
  within the limit.
\<close>

theorem PackFragments_correct:
  assumes "0 < maxLegs" "0 < n" "packable n (nat (maxLegs + 1)) fs" "\<forall>f \<in> set fs. trail (frag_edges f)"
    and "\<forall>a \<in> set required. valid_arc n a" "NewRequiredSet n required = Some rs"
  shows "\<exists>rts. PackFragments fs maxLegs rs = Some rts \<and>
    (\<forall>r \<in> set rts. legs r \<noteq> [] \<and> walk (legs r) \<and> int (length (legs r)) \<le> maxLegs) \<and>
    mset (map leg_arc (filter (\<lambda>l. leg_kind l = LegRequired) (concat (map legs rts)))) =
      mset (concat (map frag_edges fs)) \<and>
    (\<forall>j < length rts. \<forall>k < j. maxLegs < int (length (legs (rts ! k)) + 1 + length (legs (rts ! j))))"
proof -
  have rs: "represents rs n (arc_ends ` set required)"
    using NewRequiredSet_represents [OF assms(5)] assms(6) by auto
  then have "pack_vertices rs fs = Some n" using assms(2) by (simp add: pack_vertices_def represents_def)
  from PackFragments_ok [OF assms(3,4) this assms(1) Contains_represents [OF rs]] obtain rts where
    rts: "PackFragments fs maxLegs rs = Some rts" "\<forall>r \<in> set rts. route_ok maxLegs r"
    "joinless (nat (maxLegs + 1)) rts" "routes_arcs rts = frag_arcs fs" by blast
  have "\<forall>j < length rts. \<forall>k < j. maxLegs < int (length (legs (rts ! k)) + 1 + length (legs (rts ! j)))"
  proof (intro allI impI)
    fix j k assume "j < length rts" "k < j"
    then have "nat (maxLegs + 1) \<le> length (legs (rts ! k)) + length (legs (rts ! j)) + 1"
      using rts(3) by (simp add: joinless_def)
    then show "maxLegs < int (length (legs (rts ! k)) + 1 + length (legs (rts ! j)))" by linarith
  qed
  with rts(1,2,4) show ?thesis
    by (auto simp: route_ok_def routes_arcs_def required_arcs_def required_legs_def frag_arcs_def)
qed

theorem PackFragments_correct_witness:
  "\<exists>rs rts. NewRequiredSet 4 [Arc 0 0 1, Arc 1 1 2, Arc 2 3 0] = Some rs \<and>
     PackFragments [\<lparr>frag_edges = [Arc 0 0 1, Arc 1 1 2], frag_id = 0\<rparr>, \<lparr>frag_edges = [Arc 2 3 0], frag_id = 1\<rparr>] 4 rs
       = Some rts \<and> (\<forall>r \<in> set rts. walk (legs r) \<and> int (length (legs r)) \<le> 4)"
proof -
  let ?fs = "[\<lparr>frag_edges = [Arc 0 0 1, Arc 1 1 2], frag_id = 0\<rparr>, \<lparr>frag_edges = [Arc 2 3 0], frag_id = 1\<rparr>]"
    and ?as = "[Arc 0 0 1, Arc 1 1 2, Arc 2 3 0]"
  have fs: "packable 4 (nat (4 + 1)) ?fs" "\<forall>f \<in> set ?fs. trail (frag_edges f)" and valid: "\<forall>a \<in> set ?as. valid_arc 4 a"
    by (auto simp: packable_def numbered_def frag_from_def frag_to_def valid_arc_def less_Suc_eq)
  obtain rs where "NewRequiredSet 4 ?as = Some rs" using NewRequiredSet_represents [OF valid] by blast
  with PackFragments_correct [OF _ _ fs valid this] show ?thesis by auto
qed

end
