(* ===== verification/Plan_Validate.thy ===== *)
theory Plan_Validate
  imports Packing_Routes
begin

text \<open>
  \<open>internal/arccover/validate.go\<close>: the defensive pass over a plan, the statistics, and the
  coverage count. The clock readings of \<open>FinalizePlan\<close> are not modelled; the quotient
  \<open>OptimalityGap\<close> is a rational number.
\<close>

section \<open>ValidateAndComplete\<close>

text \<open>
  The loop over the legs of one route. The flag is \<open>False\<close> when a discontinuity breaks it;
  the edges marked before the break stay marked.
\<close>

definition mark_covered :: "leg \<Rightarrow> bool list \<Rightarrow> bool list" where
  "mark_covered leg covered =
     (if leg_kind leg = LegRequired \<and> unat (leg_edge leg) < length covered
      then covered[unat (leg_edge leg) := True] else covered)"

fun check_legs :: "leg option \<Rightarrow> leg list \<Rightarrow> bool list \<Rightarrow> bool \<times> bool list" where
  "check_legs prev [] covered = (True, covered)"
| "check_legs prev (leg # ls) covered =
     (if (case prev of Some p \<Rightarrow> leg_to p \<noteq> leg_from leg | None \<Rightarrow> False) then (False, covered)
      else check_legs (Some leg) ls (mark_covered leg covered))"

definition validate_route :: "int \<Rightarrow> route \<Rightarrow> route list \<times> int \<times> bool list \<Rightarrow> route list \<times> int \<times> bool list" where
  "validate_route maxLegs r = (\<lambda>(rts, fallbacks, covered).
     if length (legs r) = 0 then (rts @ [r], fallbacks, covered)
     else if int (length (legs r)) > maxLegs
     then (rts @ [\<lparr>legs = []\<rparr>], fallbacks + int (length (legs r)), covered)
     else case check_legs None (legs r) covered of
       (True, covered') \<Rightarrow> (rts @ [r], fallbacks, covered')
     | (False, covered') \<Rightarrow> (rts @ [\<lparr>legs = []\<rparr>], fallbacks, covered'))"

definition single_pair :: "arc \<Rightarrow> route" where
  "single_pair edge = \<lparr>legs = [\<lparr>leg_from = arc_from edge, leg_to = arc_to edge,
     leg_kind = LegRequired, leg_edge = arc_id edge\<rparr>]\<rparr>"

definition complete_edge :: "arc \<Rightarrow> route list \<times> int \<times> bool list \<Rightarrow> (route list \<times> int \<times> bool list) option" where
  "complete_edge edge = (\<lambda>(rts, fallbacks, covered). do {
     c \<leftarrow> slice_get covered (unat (arc_id edge));
     if c then Some (rts, fallbacks, covered)
     else do {
       covered' \<leftarrow> slice_set covered (unat (arc_id edge)) True;
       Some (rts @ [single_pair edge], fallbacks + 1, covered') } })"

definition ValidateAndComplete :: "plan \<Rightarrow> arc list \<Rightarrow> int \<Rightarrow> plan option" where
  "ValidateAndComplete plan required maxLegs =
     (let (rts, fallbacks, covered) =
            fold (validate_route maxLegs) (routes plan)
              ([], single_pair_fallbacks (stats plan), replicate (length required) False);
          compact = filter (\<lambda>r. length (legs r) > 0) rts
      in do {
        (rts', fallbacks', _) \<leftarrow> fold_opt complete_edge required (compact, fallbacks, covered);
        Some (plan\<lparr>routes := rts', stats := (stats plan)\<lparr>single_pair_fallbacks := fallbacks'\<rparr>\<rparr>) })"

section \<open>FinalizePlan and CountCoverage\<close>

definition widen_by_arc :: "arc \<Rightarrow> nat \<Rightarrow> nat" where
  "widen_by_arc e n =
     (let n1 = (if unat (arc_from e) + 1 > n then unat (arc_from e) + 1 else n)
      in if unat (arc_to e) + 1 > n1 then unat (arc_to e) + 1 else n1)"

definition count_leg :: "required_set \<Rightarrow> leg \<Rightarrow> int \<times> int \<times> bool list \<Rightarrow> (int \<times> int \<times> bool list) option" where
  "count_leg reqSet leg = (\<lambda>(bridges, dup, seen).
     case leg_kind leg of
       LegBridge \<Rightarrow> do {
         c \<leftarrow> required_set_Contains reqSet (leg_from leg) (leg_to leg);
         Some (bridges + 1, if c then dup + 1 else dup, seen) }
     | LegRequired \<Rightarrow>
         let i = unat (leg_edge leg) in
         if i < length seen
         then Some (if seen ! i then (bridges, dup + 1, seen) else (bridges, dup, seen[i := True]))
         else Some (bridges, dup, seen))"

definition FinalizePlan :: "plan \<Rightarrow> arc list \<Rightarrow> int \<Rightarrow> plan option" where
  "FinalizePlan plan0 required maxLegs = do {
     plan \<leftarrow> ValidateAndComplete plan0 required maxLegs;
     let n = fold widen_by_arc required 0;
     reqSet \<leftarrow> NewRequiredSet (max n 1) required;
     (bridges, dup, _) \<leftarrow> fold_opt (\<lambda>r. fold_opt (count_leg reqSet) (legs r)) (routes plan)
        (0, 0, replicate (length required) False);
     let calls = int (length (routes plan));
     let lb = lower_bound (stats plan);
     let st = (stats plan)\<lparr>required_edges := int (length required), provider_calls := calls,
        bridge_edges := bridges, duplicate_required_edges := dup\<rparr>;
     Some (plan\<lparr>stats := (if lb > 0
        then st\<lparr>optimality_gap := of_int (calls - lb) / of_int lb, optimal := (calls = lb)\<rparr>
        else st)\<rparr>) }"

definition CountCoverage :: "plan \<Rightarrow> arc list \<Rightarrow> int" where
  "CountCoverage plan required =
     int (length (filter (\<lambda>c. c)
       (fold (\<lambda>r. fold mark_covered (legs r)) (routes plan) (replicate (length required) False))))"

section \<open>Validation keeps a valid plan\<close>

lemma check_legs_walk:
  assumes "walk (case prev of None \<Rightarrow> ls | Some p \<Rightarrow> p # ls)"
  shows "check_legs prev ls covered = (True, fold mark_covered ls covered)"
  using assms
proof (induction ls arbitrary: prev covered)
  case (Cons l ls)
  then have "walk (l # ls)" by (cases prev) auto
  with Cons show ?case by (cases prev) auto
qed simp

lemma validate_routes_ok:
  assumes "\<forall>r \<in> set rts. route_ok maxLegs r"
  shows "fold (validate_route maxLegs) rts (out, k, covered) =
     (out @ rts, k, fold mark_covered (concat (map legs rts)) covered)"
  using assms
proof (induction rts arbitrary: out covered)
  case (Cons r rts)
  then have "check_legs None (legs r) covered = (True, fold mark_covered (legs r) covered)"
    by (intro check_legs_walk) (simp add: route_ok_def)
  with Cons show ?case by (simp add: validate_route_def route_ok_def)
qed simp

lemma length_mark_covered [simp]: "length (fold mark_covered ls covered) = length covered"
  by (induction ls arbitrary: covered) (simp_all add: mark_covered_def)

text \<open>An edge is marked iff it was or some required leg carries its identifier.\<close>

lemma fold_mark_covered:
  assumes "i < length covered"
  shows "fold mark_covered ls covered ! i \<longleftrightarrow>
    covered ! i \<or> (\<exists>a \<in># required_arcs ls. unat (arc_id a) = i)"
  using assms
proof (induction ls arbitrary: covered)
  case (Cons l ls)
  have "i < length (mark_covered l covered)" using Cons.prems by (simp add: mark_covered_def)
  with Cons.IH [of "mark_covered l covered"] Cons.prems show ?case
    by (auto simp: mark_covered_def required_arcs_def required_legs_def leg_arc_def nth_list_update)
qed simp

lemma complete_covered:
  assumes "ids_are_positions required" "length required \<le> 2 ^ 32" "length covered = length required"
    and "\<forall>i < length required. covered ! i" "set es \<subseteq> set required"
  shows "fold_opt complete_edge es (rts, k, covered) = Some (rts, k, covered)"
  using assms(5)
proof (induction es)
  case (Cons e es)
  then obtain i where i: "i < length required" "e = required ! i" by (auto simp: in_set_conv_nth)
  then have "unat (arc_id e) = i" using ids_are_positions_distinct(2) [OF assms(1,2)] by blast
  with Cons i assms(3,4) show ?case by (simp add: complete_edge_def slice_simps)
qed simp

lemma all_covered:
  assumes "ids_are_positions required" "length required \<le> 2 ^ 32" "mset required \<subseteq># routes_arcs rts"
    and "i < length required"
  shows "fold mark_covered (concat (map legs rts)) (replicate (length required) False) ! i"
proof -
  have "required ! i \<in># routes_arcs rts" using assms(3,4) by (meson mset_subset_eqD nth_mem_mset)
  moreover have "unat (arc_id (required ! i)) = i"
    using ids_are_positions_distinct(2) [OF assms(1,2,4)] .
  ultimately show ?thesis
    using assms(4) by (subst fold_mark_covered) (auto simp: routes_arcs_def)
qed

lemma ValidateAndComplete_keeps:
  assumes "ids_are_positions required" "length required \<le> 2 ^ 32" "mset required \<subseteq># routes_arcs (routes p)"
    and "\<forall>r \<in> set (routes p). route_ok maxLegs r"
  shows "ValidateAndComplete p required maxLegs = Some p"
proof -
  have "filter (\<lambda>r. legs r \<noteq> []) (routes p) = routes p"
    using assms(4) by (simp add: filter_id_conv route_ok_def)
  with all_covered [OF assms(1-3)] show ?thesis
    by (simp add: ValidateAndComplete_def validate_routes_ok [OF assms(4)] Let_def
        complete_covered [OF assms(1,2)])
qed

section \<open>The statistics of a valid plan\<close>

definition plan_legs :: "plan \<Rightarrow> leg list" where
  "plan_legs p = concat (map legs (routes p))"

definition bridge_legs :: "leg list \<Rightarrow> leg list" where
  "bridge_legs ls = filter (\<lambda>l. leg_kind l = LegBridge) ls"

definition duplicate_bridges :: "(vertex_id \<times> vertex_id) set \<Rightarrow> leg list \<Rightarrow> leg list" where
  "duplicate_bridges P ls = filter (\<lambda>l. (leg_from l, leg_to l) \<in> P) (bridge_legs ls)"

lemma fold_opt_concat: "fold_opt (\<lambda>r. fold_opt f (g r)) rs s = fold_opt f (concat (map g rs)) s"
  by (induction rs arbitrary: s) (simp_all add: fold_opt_append)

lemma fold_widen_by_arc:
  "n \<le> fold widen_by_arc as n \<and> (\<forall>a \<in> set as. valid_arc (fold widen_by_arc as n) a)"
proof (induction as arbitrary: n)
  case (Cons a as)
  from Cons [of "widen_by_arc a n"] show ?case
    by (auto simp: valid_arc_def widen_by_arc_def Let_def split: if_splits)
qed simp

definition counted :: "(vertex_id \<times> vertex_id) set \<Rightarrow> nat \<Rightarrow> leg list \<Rightarrow> int \<times> int \<times> bool list \<Rightarrow> bool" where
  "counted P m ls = (\<lambda>(bridges, dup, seen). bridges = int (length (bridge_legs ls)) \<and>
     dup = int (length (duplicate_bridges P ls)) \<and> length seen = m \<and>
     (\<forall>i < m. seen ! i \<longrightarrow> (\<exists>l \<in> set (required_legs ls). unat (leg_edge l) = i)))"

lemma leg_kind_cases: "leg_kind l = LegRequired \<or> leg_kind l = LegBridge"
  by (cases "leg_kind l") auto

lemma count_legs_ok:
  assumes rep: "represents rs n P" and within: "\<forall>l \<in> set ls. unat (leg_from l) < n \<and> unat (leg_to l) < n"
    and ids: "distinct (map leg_edge (required_legs ls))"
  shows "\<exists>t. fold_opt (count_leg rs) ls (0, 0, replicate m False) = Some t \<and> counted P m ls t"
proof (rule fold_opt_rule)
  show "counted P m [] (0, 0, replicate m False)"
    by (simp add: counted_def bridge_legs_def duplicate_bridges_def)
next
  fix ys x zs t assume split: "ls = ys @ x # zs" and I: "counted P m ys t"
  obtain b d seen where t: "t = (b, d, seen)" by (cases t)
  show "\<exists>t'. count_leg rs x t = Some t' \<and> counted P m (ys @ [x]) t'"
  proof (cases "leg_kind x")
    case LegBridge
    have "required_set_Contains rs (leg_from x) (leg_to x) = Some ((leg_from x, leg_to x) \<in> P)"
      using within split by (intro Contains_represents [OF rep]) simp_all
    with LegBridge I show ?thesis
      by (auto simp: t count_leg_def counted_def bridge_legs_def duplicate_bridges_def required_legs_def)
  next
    case LegRequired
    have "leg_edge x \<notin> set (map leg_edge (required_legs ys))"
      using ids LegRequired by (auto simp: split required_legs_def)
    then have "\<forall>l \<in> set (required_legs ys). unat (leg_edge l) \<noteq> unat (leg_edge x)"
      by (metis image_eqI list.set_map word_unat_eq_iff)
    then have "\<not> seen ! unat (leg_edge x)" if "unat (leg_edge x) < m"
      using I that by (auto simp: t counted_def)
    with LegRequired I show ?thesis
      by (auto simp: t count_leg_def counted_def bridge_legs_def duplicate_bridges_def required_legs_def
          Let_def nth_list_update)
  qed
qed

lemma distinct_ids_of_arcs:
  assumes "ids_are_positions required" "length required \<le> 2 ^ 32" "required_arcs ls = mset required"
  shows "distinct (map leg_edge (required_legs ls))"
proof -
  have "distinct (map arc_id required)"
    unfolding distinct_conv_nth using ids_are_positions_distinct(2) [OF assms(1,2)]
    by (metis length_map nth_map)
  moreover have "mset (map arc_id required) = mset (map arc_id (map leg_arc (required_legs ls)))"
    using assms(3) unfolding required_arcs_def mset_map by simp
  ultimately have "distinct (map arc_id (map leg_arc (required_legs ls)))"
    by (metis mset_eq_imp_distinct_iff)
  then show ?thesis by (simp add: leg_arc_def o_def)
qed

definition stats_of :: "plan \<Rightarrow> arc list \<Rightarrow> plan_stats" where
  "stats_of p required =
     (let calls = int (length (routes p));
          lb = lower_bound (stats p);
          st = (stats p)\<lparr>required_edges := int (length required), provider_calls := calls,
            bridge_edges := int (length (bridge_legs (plan_legs p))),
            duplicate_required_edges := int (length (duplicate_bridges (arc_ends ` set required) (plan_legs p)))\<rparr>
      in if lb > 0
         then st\<lparr>optimality_gap := of_int (calls - lb) / of_int lb, optimal := (calls = lb)\<rparr> else st)"

definition arc_vertices :: "arc list \<Rightarrow> vertex_id set" where
  "arc_vertices as = (\<Union>a \<in> set as. {arc_from a, arc_to a})"

lemma FinalizePlan_ok:
  assumes ids: "ids_are_positions required" "length required \<le> 2 ^ 32"
    and arcs: "routes_arcs (routes p) = mset required"
    and rts: "\<forall>r \<in> set (routes p). route_ok maxLegs r \<and> legs_within (arc_vertices required) (legs r)"
  shows "FinalizePlan p required maxLegs = Some (p\<lparr>stats := stats_of p required\<rparr>)"
proof -
  let ?n = "max (fold widen_by_arc required 0) 1"
  have valid: "\<forall>a \<in> set required. valid_arc ?n a"
    using fold_widen_by_arc [of 0 required] by (force simp: valid_arc_def)
  obtain rs where rs: "NewRequiredSet ?n required = Some rs" "represents rs ?n (arc_ends ` set required)"
    using NewRequiredSet_represents [OF valid] by blast
  have keep: "ValidateAndComplete p required maxLegs = Some p"
    using ids arcs rts by (intro ValidateAndComplete_keeps) auto
  have within: "\<forall>l \<in> set (plan_legs p). unat (leg_from l) < ?n \<and> unat (leg_to l) < ?n"
    using rts valid by (fastforce simp: plan_legs_def legs_within_def arc_vertices_def valid_arc_def)
  have "distinct (map leg_edge (required_legs (plan_legs p)))"
    using arcs by (intro distinct_ids_of_arcs [OF ids]) (simp add: plan_legs_def routes_arcs_def)
  from count_legs_ok [OF rs(2) within this, of "length required"] obtain b d seen where
    "fold_opt (count_leg rs) (plan_legs p) (0, 0, replicate (length required) False) = Some (b, d, seen)"
    "b = int (length (bridge_legs (plan_legs p)))"
    "d = int (length (duplicate_bridges (arc_ends ` set required) (plan_legs p)))"
    by (auto simp: counted_def)
  then show ?thesis
    using keep rs(1) by (simp add: FinalizePlan_def fold_opt_concat plan_legs_def stats_of_def Let_def)
qed

lemma fold_fold_concat: "fold (\<lambda>r. fold f (g r)) rs s = fold f (concat (map g rs)) s"
  by (induction rs arbitrary: s) simp_all

lemma CountCoverage_all:
  assumes "ids_are_positions required" "length required \<le> 2 ^ 32" "mset required \<subseteq># routes_arcs (routes p)"
  shows "CountCoverage p required = int (length required)"
proof -
  let ?c = "fold mark_covered (concat (map legs (routes p))) (replicate (length required) False)"
  have "fold (\<lambda>r. fold mark_covered (legs r)) (routes p) c = fold mark_covered (concat (map legs (routes p))) c" for c
    by (rule fold_fold_concat)
  moreover have "filter (\<lambda>c. c) ?c = ?c"
    using all_covered [OF assms] by (auto simp: filter_id_conv in_set_conv_nth)
  ultimately show ?thesis by (simp add: CountCoverage_def)
qed

section \<open>Validation repairs a damaged plan\<close>

definition kept :: "int \<Rightarrow> route \<Rightarrow> bool" where
  "kept maxLegs r \<longleftrightarrow> int (length (legs r)) \<le> maxLegs \<and> walk (legs r)"

lemma check_legs_flag: "fst (check_legs prev ls covered) = walk (case prev of None \<Rightarrow> ls | Some p \<Rightarrow> p # ls)"
proof (induction ls arbitrary: prev covered)
  case Nil
  then show ?case by (cases prev) simp_all
next
  case (Cons l ls)
  then show ?case by (cases prev) auto
qed

lemma length_check_legs [simp]: "length (snd (check_legs prev ls covered)) = length covered"
  by (induction ls arbitrary: prev covered) (auto simp: mark_covered_def)

text \<open>After the loop over the routes: bad routes are empty, and what is marked has a kept route.\<close>

definition marked_by :: "route list \<Rightarrow> nat \<Rightarrow> bool" where
  "marked_by rts i \<longleftrightarrow> (\<exists>a \<in># routes_arcs rts. unat (arc_id a) = i)"

lemma validate_route_step:
  assumes "walk (legs r) \<or> int (length (legs r)) > maxLegs"
  shows "\<exists>r' k' covered'. validate_route maxLegs r (out, k, covered) = (out @ [r'], k', covered') \<and>
    length covered' = length covered \<and> (legs r' = [] \<or> route_ok maxLegs r') \<and>
    (\<forall>i < length covered. covered' ! i \<longrightarrow> covered ! i \<or> marked_by [r'] i)"
proof -
  consider "legs r = []" | "legs r \<noteq> []" "int (length (legs r)) > maxLegs" | "route_ok maxLegs r"
    using assms by (cases "int (length (legs r)) > maxLegs") (auto simp: route_ok_def)
  then show ?thesis
  proof cases
    case 1
    then show ?thesis by (simp add: validate_route_def)
  next
    case 2
    then show ?thesis by (simp add: validate_route_def)
  next
    case 3
    have "check_legs None (legs r) covered = (True, fold mark_covered (legs r) covered)"
      using 3 by (intro check_legs_walk) (simp add: route_ok_def)
    with 3 show ?thesis
      by (intro exI [of _ r] exI [of _ k] exI [of _ "fold mark_covered (legs r) covered"])
        (auto simp: validate_route_def route_ok_def fold_mark_covered marked_by_def)
  qed
qed

lemma marked_by_append: "marked_by (xs @ ys) i \<longleftrightarrow> marked_by xs i \<or> marked_by ys i"
  by (auto simp: marked_by_def)

lemma validate_routes_repair:
  assumes "\<forall>r \<in> set rts. walk (legs r) \<or> int (length (legs r)) > maxLegs"
    and "\<forall>r \<in> set out. legs r = [] \<or> route_ok maxLegs r" "\<forall>i < length covered. covered ! i \<longrightarrow> marked_by out i"
  shows "\<exists>out' k' covered'. fold (validate_route maxLegs) rts (out, k, covered) = (out', k', covered') \<and>
    length covered' = length covered \<and> (\<forall>r \<in> set out'. legs r = [] \<or> route_ok maxLegs r) \<and>
    (\<forall>i < length covered. covered' ! i \<longrightarrow> marked_by out' i)"
  using assms
proof (induction rts arbitrary: out k covered)
  case (Cons r rts)
  obtain r' k' covered' where step: "validate_route maxLegs r (out, k, covered) = (out @ [r'], k', covered')"
    "length covered' = length covered" "legs r' = [] \<or> route_ok maxLegs r'"
    "\<forall>i < length covered. covered' ! i \<longrightarrow> covered ! i \<or> marked_by [r'] i"
    using validate_route_step [of r maxLegs out k covered] Cons.prems(1) by auto
  have "\<forall>i < length covered'. covered' ! i \<longrightarrow> marked_by (out @ [r']) i"
    using step(2,4) Cons.prems(3) by (auto simp: marked_by_append)
  moreover have "\<forall>x \<in> set (out @ [r']). legs x = [] \<or> route_ok maxLegs x" using step(3) Cons.prems(2) by auto
  ultimately show ?case
    using Cons.IH [of "out @ [r']" covered' k'] Cons.prems(1) step(1,2) by auto
qed auto

lemma marked_by_compact: "marked_by (filter (\<lambda>r. legs r \<noteq> []) rts) i \<longleftrightarrow> marked_by rts i"
  by (induction rts) (auto simp: marked_by_def)

lemma complete_edges_ok:
  assumes ids: "ids_are_positions required" "length required \<le> 2 ^ 32" and L: "1 \<le> maxLegs"
    and es: "set es \<subseteq> set required" and len: "length covered = length required"
    and out: "\<forall>r \<in> set out. route_ok maxLegs r" "\<forall>i < length covered. covered ! i \<longrightarrow> marked_by out i"
  shows "\<exists>out' k' covered'. fold_opt complete_edge es (out, k, covered) = Some (out', k', covered') \<and>
    (\<forall>r \<in> set out'. route_ok maxLegs r) \<and> (\<forall>i. marked_by out i \<longrightarrow> marked_by out' i) \<and>
    (\<forall>e \<in> set es. marked_by out' (unat (arc_id e)))"
  using es len out
proof (induction es arbitrary: out k covered)
  case (Cons e es)
  then obtain i where i: "i < length required" "e = required ! i" by (auto simp: in_set_conv_nth)
  then have id: "unat (arc_id e) = i" using ids_are_positions_distinct(2) [OF ids] by blast
  show ?case
  proof (cases "covered ! i")
    case True
    then have step: "complete_edge e (out, k, covered) = Some (out, k, covered)"
      using id i Cons.prems(2) by (simp add: complete_edge_def slice_simps)
    have e: "marked_by out (unat (arc_id e))" using True Cons.prems(2,4) i id by simp
    have "set es \<subseteq> set required" using Cons.prems(1) by simp
    from Cons.IH [OF this Cons.prems(2-4), of k] step e show ?thesis by fastforce
  next
    case False
    let ?out = "out @ [single_pair e]" and ?cov = "covered[i := True]"
    have step: "complete_edge e (out, k, covered) = Some (?out, k + 1, ?cov)"
      using False id i Cons.prems(2) by (simp add: complete_edge_def slice_simps)
    have single: "required_arcs (legs (single_pair e)) = {#e#}"
      by (simp add: single_pair_def required_arcs_def required_legs_def leg_arc_def)
    have e: "marked_by ?out i" using id single by (auto simp: marked_by_def)
    have "\<forall>r \<in> set ?out. route_ok maxLegs r" using Cons.prems(3) L by (auto simp: single_pair_def route_ok_def)
    moreover have "\<forall>j < length ?cov. ?cov ! j \<longrightarrow> marked_by ?out j"
    proof (intro allI impI)
      fix j assume "j < length ?cov" "?cov ! j"
      with Cons.prems(4) e show "marked_by ?out j"
        by (cases "j = i") (simp_all add: marked_by_append)
    qed
    ultimately obtain out' k' covered' where rec: "fold_opt complete_edge es (?out, k + 1, ?cov) = Some (out', k', covered')"
      "\<forall>r \<in> set out'. route_ok maxLegs r" "\<forall>j. marked_by ?out j \<longrightarrow> marked_by out' j"
      "\<forall>e \<in> set es. marked_by out' (unat (arc_id e))"
      using Cons.IH [of ?cov ?out "k + 1"] Cons.prems(1,2) by auto
    have "marked_by out j \<Longrightarrow> marked_by out' j" for j using rec(3) by (simp add: marked_by_append)
    with rec e id step show ?thesis by auto
  qed
qed auto

text \<open>
  Over-long routes are replaced, and every required edge ends up on a route, provided that no
  route is discontinuous.
\<close>

lemma ValidateAndComplete_repairs:
  assumes ids: "ids_are_positions required" "length required \<le> 2 ^ 32" and L: "1 \<le> maxLegs"
    and cont: "\<forall>r \<in> set (routes p). walk (legs r) \<or> int (length (legs r)) > maxLegs"
  shows "\<exists>p'. ValidateAndComplete p required maxLegs = Some p' \<and> (\<forall>r \<in> set (routes p'). route_ok maxLegs r) \<and>
    (\<forall>e \<in> set required. \<exists>a \<in># routes_arcs (routes p'). arc_id a = arc_id e)"
proof -
  let ?c0 = "replicate (length required) False"
  obtain rts k covered where v: "fold (validate_route maxLegs) (routes p) ([], single_pair_fallbacks (stats p), ?c0)
      = (rts, k, covered)" "length covered = length required" "\<forall>r \<in> set rts. legs r = [] \<or> route_ok maxLegs r"
    "\<forall>i < length required. covered ! i \<longrightarrow> marked_by rts i"
    using validate_routes_repair [OF cont, of "[]" ?c0 "single_pair_fallbacks (stats p)"] by auto
  let ?rts = "filter (\<lambda>r. legs r \<noteq> []) rts"
  have "\<forall>r \<in> set ?rts. route_ok maxLegs r" using v(3) by auto
  moreover have "\<forall>i < length covered. covered ! i \<longrightarrow> marked_by ?rts i" using v(2,4) by (simp add: marked_by_compact)
  ultimately obtain rts' k' c' where c: "fold_opt complete_edge required (?rts, k, covered) = Some (rts', k', c')"
    "\<forall>r \<in> set rts'. route_ok maxLegs r" "\<forall>e \<in> set required. marked_by rts' (unat (arc_id e))"
    using complete_edges_ok [OF ids L _ v(2), of required ?rts k] by blast
  then show ?thesis using v(1)
    by (auto simp: ValidateAndComplete_def marked_by_def word_unat_eq_iff)
qed

section \<open>Properties\<close>




text \<open>
  On a plan that is a valid cover, \<open>FinalizePlan\<close> keeps the routes and sets the statistics:
  numbers of required edges, routes and bridge legs, and as duplicates the bridge legs over a
  required pair; the optimality flag compares the number of routes with the lower bound.
\<close>

lemma FinalizePlan_statistics:
  assumes "ids_are_positions required" "length required \<le> 2 ^ 32" "routes_arcs (routes p) = mset required"
    and "\<forall>r \<in> set (routes p). route_ok maxLegs r \<and> legs_within (arc_vertices required) (legs r)"
    and "lower_bound (stats p) > 0"
  shows "\<exists>st. FinalizePlan p required maxLegs = Some (p\<lparr>stats := st\<rparr>) \<and>
    required_edges st = int (length required) \<and> provider_calls st = int (length (routes p)) \<and>
    bridge_edges st = int (length (filter (\<lambda>l. leg_kind l = LegBridge) (plan_legs p))) \<and>
    duplicate_required_edges st = int (length (filter (\<lambda>l. leg_kind l = LegBridge \<and>
      (leg_from l, leg_to l) \<in> arc_ends ` set required) (plan_legs p))) \<and>
    (optimal st \<longleftrightarrow> int (length (routes p)) = lower_bound (stats p))"
proof -
  have "filter (\<lambda>l. (leg_from l, leg_to l) \<in> P) (filter (\<lambda>l. leg_kind l = LegBridge) ls) =
      filter (\<lambda>l. leg_kind l = LegBridge \<and> (leg_from l, leg_to l) \<in> P) ls" for P ls
    by (simp add: conj_commute)
  with assms(5) have "required_edges (stats_of p required) = int (length required) \<and>
    provider_calls (stats_of p required) = int (length (routes p)) \<and>
    bridge_edges (stats_of p required) = int (length (filter (\<lambda>l. leg_kind l = LegBridge) (plan_legs p))) \<and>
    duplicate_required_edges (stats_of p required) = int (length (filter (\<lambda>l. leg_kind l = LegBridge \<and>
      (leg_from l, leg_to l) \<in> arc_ends ` set required) (plan_legs p))) \<and>
    (optimal (stats_of p required) \<longleftrightarrow> int (length (routes p)) = lower_bound (stats p))"
    by (simp add: stats_of_def Let_def bridge_legs_def duplicate_bridges_def)
  with FinalizePlan_ok [OF assms(1-4)] show ?thesis by blast
qed

lemma FinalizePlan_statistics_example:
  "\<exists>st. FinalizePlan \<lparr>routes = [single_pair (Arc 0 0 1)], stats = zero_stats\<lparr>lower_bound := 1\<rparr>\<rparr> [Arc 0 0 1] 3 =
     Some \<lparr>routes = [single_pair (Arc 0 0 1)], stats = st\<rparr> \<and> optimal st"
proof -
  let ?p = "\<lparr>routes = [single_pair (Arc 0 0 1)], stats = zero_stats\<lparr>lower_bound := 1\<rparr>\<rparr>"
  have "ids_are_positions [Arc 0 0 1]" "routes_arcs (routes ?p) = mset [Arc 0 0 1]"
    "\<forall>r \<in> set (routes ?p). route_ok 3 r \<and> legs_within (arc_vertices [Arc 0 0 1]) (legs r)"
    by (auto simp: ids_are_positions_def single_pair_def required_arcs_def required_legs_def leg_arc_def
        route_ok_def legs_within_def arc_vertices_def)
  from FinalizePlan_statistics [OF this(1) _ this(2,3)] show ?thesis by auto
qed

end
