(* ===== verification/Weak_Components.thy ===== *)
theory Weak_Components
  imports Arc_Types
begin

text \<open>
  \<open>WeakComponents\<close> of \<open>internal/arccover/trail.go\<close>: a union-find forest with path halving in
  which the smaller root always wins. The lemmas show that the root of a vertex is the least
  vertex of its weak component, so the result identifies the components exactly.
\<close>

section \<open>The code\<close>

partial_function (option) uf_find :: "nat list \<Rightarrow> nat \<Rightarrow> (nat \<times> nat list) option" where
  "uf_find parent x = do {
     px \<leftarrow> slice_get parent x;
     if px \<noteq> x then do {
       ppx \<leftarrow> slice_get parent px;
       parent' \<leftarrow> slice_set parent x ppx;
       uf_find parent' ppx }
     else Some (x, parent) }"

declare uf_find.simps [code]

definition uf_union :: "nat \<Rightarrow> nat \<Rightarrow> nat list \<Rightarrow> nat list option" where
  "uf_union a b parent = do {
     (ra, parent1) \<leftarrow> uf_find parent a;
     (rb, parent2) \<leftarrow> uf_find parent1 b;
     if ra = rb then Some parent2
     else if ra < rb then slice_set parent2 rb ra
     else slice_set parent2 ra rb }"

definition join_arc :: "arc \<Rightarrow> bool list \<times> nat list \<Rightarrow> (bool list \<times> nat list) option" where
  "join_arc e = (\<lambda>(touched, parent). do {
     touched1 \<leftarrow> slice_set touched (unat (arc_from e)) True;
     touched2 \<leftarrow> slice_set touched1 (unat (arc_to e)) True;
     parent' \<leftarrow> uf_union (unat (arc_from e)) (unat (arc_to e)) parent;
     Some (touched2, parent') })"

definition component_of :: "bool list \<Rightarrow> nat \<Rightarrow> int list \<times> nat list \<Rightarrow> (int list \<times> nat list) option" where
  "component_of touched i = (\<lambda>(labels, parent). do {
     t \<leftarrow> slice_get touched i;
     if \<not> t then Some (labels @ [- 1], parent)
     else do { (r, parent') \<leftarrow> uf_find parent i; Some (labels @ [int r], parent') } })"

definition WeakComponents :: "nat \<Rightarrow> arc list \<Rightarrow> int list option" where
  "WeakComponents n required = do {
     (touched, parent) \<leftarrow> fold_opt join_arc required (replicate n False, [0..<n]);
     (labels, _) \<leftarrow> fold_opt (component_of touched) [0..<n] ([], parent);
     Some labels }"

section \<open>Roots\<close>

text \<open>Parents are never larger, so the chain of parents ends in a root.\<close>

definition forest :: "nat \<Rightarrow> nat list \<Rightarrow> bool" where
  "forest n ps \<longleftrightarrow> length ps = n \<and> (\<forall>x < n. ps ! x \<le> x)"

function uf_root :: "nat list \<Rightarrow> nat \<Rightarrow> nat" where
  "uf_root ps x = (if ps ! x < x then uf_root ps (ps ! x) else x)"
  by pat_completeness auto
termination by (relation "measure snd") auto

declare uf_root.simps [simp del]

lemma root_le: "uf_root ps x \<le> x"
  by (induction ps x rule: uf_root.induct) (subst uf_root.simps, auto)

lemma root_lt: "x < n \<Longrightarrow> uf_root ps x < n"
  using root_le le_less_trans by blast

lemma root_idem: "\<not> ps ! uf_root ps x < uf_root ps x"
  by (induction ps x rule: uf_root.induct) (subst uf_root.simps, subst (2) uf_root.simps, auto)

lemma root_parent:
  assumes "forest n ps" "x < n"
  shows "uf_root ps (ps ! x) = uf_root ps x"
proof (cases "ps ! x < x")
  case True
  then show ?thesis by (subst (2) uf_root.simps) simp
next
  case False
  with assms have "ps ! x = x" by (simp add: forest_def order.antisym)
  then show ?thesis by simp
qed

lemma root_fixed: "ps ! x = x \<Longrightarrow> uf_root ps x = x"
  by (subst uf_root.simps) simp

lemma forest_step: "forest n ps \<Longrightarrow> x < n \<Longrightarrow> ps ! x < n"
  using le_less_trans by (auto simp: forest_def)

text \<open>Path halving keeps every root.\<close>

lemma halving_root:
  assumes f: "forest n ps" and x: "x < n"
  shows "forest n (ps[x := ps ! (ps ! x)])" "\<forall>y < n. uf_root (ps[x := ps ! (ps ! x)]) y = uf_root ps y"
proof -
  let ?qs = "ps[x := ps ! (ps ! x)]"
  have px: "ps ! x < n" "ps ! (ps ! x) \<le> ps ! x" "ps ! x \<le> x"
    using f x forest_step [OF f x] by (auto simp: forest_def)
  have "ps ! (ps ! x) \<le> x" using px(2,3) by linarith
  then show f': "forest n ?qs" using f x by (simp add: forest_def nth_list_update)
  have "uf_root ?qs y = uf_root ps y" if "y < n" for y
    using that
  proof (induction y rule: less_induct)
    case (less y)
    have len: "length ps = n" using f by (simp add: forest_def)
    show ?case
    proof (cases "?qs ! y < y")
      case True
      then have "uf_root ?qs y = uf_root ?qs (?qs ! y)" by (subst uf_root.simps) simp
      also have "\<dots> = uf_root ps (?qs ! y)" using less True by simp
      also have "\<dots> = uf_root ps y"
        using root_parent [OF f] less.prems px(1) x len by (cases "y = x") (simp_all add: root_parent [OF f])
      finally show ?thesis .
    next
      case False
      then have eq: "?qs ! y = y" using f' less.prems by (simp add: forest_def order.antisym)
      have "ps ! y = y"
      proof (cases "y = x")
        case True
        with eq len x px show ?thesis by simp
      next
        case False
        with eq show ?thesis by simp
      qed
      with eq show ?thesis by (simp add: root_fixed)
    qed
  qed
  then show "\<forall>y < n. uf_root ?qs y = uf_root ps y" by blast
qed

lemma uf_find_ok:
  "forest n ps \<Longrightarrow> x < n \<Longrightarrow>
   \<exists>ps'. uf_find ps x = Some (uf_root ps x, ps') \<and> forest n ps' \<and> (\<forall>y < n. uf_root ps' y = uf_root ps y)"
proof (induction x arbitrary: ps rule: less_induct)
  case (less x)
  have len: "length ps = n" using less.prems(1) by (simp add: forest_def)
  show ?case
  proof (cases "ps ! x = x")
    case True
    then have "uf_find ps x = Some (x, ps)" using less.prems(2) len by (subst uf_find.simps) (simp add: slice_simps)
    with True less.prems(1) show ?thesis by (auto simp: root_fixed)
  next
    case False
    let ?qs = "ps[x := ps ! (ps ! x)]"
    note half = halving_root [OF less.prems]
    have px: "ps ! x < n" "ps ! (ps ! x) < n"
      using less.prems forest_step [OF less.prems(1)] by blast+
    moreover have "ps ! x \<le> x" "ps ! (ps ! x) \<le> ps ! x" using less.prems px by (simp_all add: forest_def)
    ultimately have px: "ps ! x < n" "ps ! (ps ! x) < n" "ps ! (ps ! x) < x" using False by linarith+
    have run: "uf_find ps x = uf_find ?qs (ps ! (ps ! x))"
      using False less.prems(2) len px by (subst uf_find.simps) (simp add: slice_simps)
    have "uf_root ?qs (ps ! (ps ! x)) = uf_root ps x"
      using half(2) px root_parent [OF less.prems(1)] less.prems(2) by simp
    with less.IH [OF px(3) half(1) px(2)] half(2) run show ?thesis by auto
  qed
qed

section \<open>Linking two roots\<close>

lemma link_root:
  assumes f: "forest n ps" and lo: "lo < hi" and hi: "hi < n" and roots: "ps ! lo = lo" "ps ! hi = hi"
  shows "forest n (ps[hi := lo])"
    "\<forall>y < n. uf_root (ps[hi := lo]) y = (if uf_root ps y = hi then lo else uf_root ps y)"
proof -
  let ?qs = "ps[hi := lo]"
  have len: "length ps = n" using f by (simp add: forest_def)
  show f': "forest n ?qs" using f lo hi by (simp add: forest_def nth_list_update)
  have base: "uf_root ps hi = hi" "uf_root ?qs lo = lo" using roots lo len by (simp_all add: root_fixed)
  have "uf_root ?qs y = (if uf_root ps y = hi then lo else uf_root ps y)" if "y < n" for y
    using that
  proof (induction y rule: less_induct)
    case (less y)
    show ?case
    proof (cases "y = hi")
      case True
      then have "?qs ! y = lo" using less.prems len by simp
      then have "uf_root ?qs y = uf_root ?qs lo" using root_parent [OF f' less.prems] by simp
      with True base show ?thesis by simp
    next
      case False
      then have eq: "?qs ! y = ps ! y" by simp
      show ?thesis
      proof (cases "ps ! y < y")
        case True
        then have "uf_root ?qs y = uf_root ?qs (ps ! y)" "uf_root ps y = uf_root ps (ps ! y)"
          using eq by (subst uf_root.simps, simp)+
        with less True show ?thesis by simp
      next
        case nlt: False
        then have "ps ! y = y" using f less.prems by (simp add: forest_def order.antisym)
        with eq False show ?thesis by (simp add: root_fixed)
      qed
    qed
  qed
  then show "\<forall>y < n. uf_root ?qs y = (if uf_root ps y = hi then lo else uf_root ps y)" by blast
qed

lemma uf_union_ok:
  assumes f: "forest n ps" and a: "a < n" and b: "b < n"
  shows "\<exists>ps'. uf_union a b ps = Some ps' \<and> forest n ps' \<and>
    (\<forall>y < n. uf_root ps' y = (if uf_root ps y = uf_root ps a \<or> uf_root ps y = uf_root ps b
        then min (uf_root ps a) (uf_root ps b) else uf_root ps y))"
proof -
  let ?ra = "uf_root ps a" and ?rb = "uf_root ps b"
  obtain ps1 where ps1: "uf_find ps a = Some (?ra, ps1)" "forest n ps1" "\<forall>y < n. uf_root ps1 y = uf_root ps y"
    using uf_find_ok [OF f a] by blast
  obtain ps2 where ps2: "uf_find ps1 b = Some (?rb, ps2)" "forest n ps2" "\<forall>y < n. uf_root ps2 y = uf_root ps y"
    using uf_find_ok [OF ps1(2) b] ps1(3) b by auto
  have lt: "?ra < n" "?rb < n" using a b by (simp_all add: root_lt)
  have fixed: "ps2 ! uf_root ps y = uf_root ps y" if "y < n" for y
    using root_idem [of ps2 y] ps2(2,3) that root_lt [OF that, of ps] by (simp add: forest_def order.antisym)
  have len: "length ps2 = n" using ps2(2) by (simp add: forest_def)
  consider "?ra = ?rb" | "?ra < ?rb" | "?rb < ?ra" by linarith
  then show ?thesis
  proof cases
    case 1
    with ps1(1) ps2 show ?thesis by (auto simp: uf_union_def)
  next
    case 2
    with link_root [OF ps2(2) 2 lt(2) fixed [OF a] fixed [OF b]] ps1(1) ps2 len lt show ?thesis
      by (auto simp: uf_union_def slice_simps)
  next
    case 3
    with link_root [OF ps2(2) 3 lt(1) fixed [OF b] fixed [OF a]] ps1(1) ps2 len lt show ?thesis
      by (auto simp: uf_union_def slice_simps)
  qed
qed

section \<open>Weak connectivity\<close>

definition weakly_connected :: "arc set \<Rightarrow> nat \<Rightarrow> nat \<Rightarrow> bool" where
  "weakly_connected E = (\<lambda>u v. (u, v) \<in> ({(unat (arc_from e), unat (arc_to e)) | e. e \<in> E} \<union>
      {(unat (arc_to e), unat (arc_from e)) | e. e \<in> E})\<^sup>*)"

lemma weakly_connected_refl [simp]: "weakly_connected E u u"
  by (simp add: weakly_connected_def)

lemma weakly_connected_arc: "e \<in> E \<Longrightarrow> weakly_connected E (unat (arc_from e)) (unat (arc_to e))"
  by (auto simp: weakly_connected_def)

lemma weakly_connected_sym: "weakly_connected E u v \<Longrightarrow> weakly_connected E v u"
  unfolding weakly_connected_def by (rule symD [OF sym_rtrancl]) (auto simp: sym_def)

lemma weakly_connected_trans:
  "weakly_connected E u v \<Longrightarrow> weakly_connected E v w \<Longrightarrow> weakly_connected E u w"
  unfolding weakly_connected_def by (rule rtrancl_trans)

lemma weakly_connected_mono: "weakly_connected E u v \<Longrightarrow> E \<subseteq> F \<Longrightarrow> weakly_connected F u v"
  unfolding weakly_connected_def by (erule rev_subsetD [OF _ rtrancl_mono]) auto

text \<open>A labelling that is constant along the arcs is constant on connected vertices.\<close>

lemma weakly_connected_label:
  assumes "\<forall>e \<in> E. f (unat (arc_from e)) = f (unat (arc_to e))" "weakly_connected E u v"
  shows "f u = f v"
  using assms(2) unfolding weakly_connected_def
  by (induction rule: rtrancl_induct) (use assms(1) in auto)

text \<open>The forest after a set of arcs: roots are connected, and arcs do not leave a class.\<close>

definition classes :: "nat \<Rightarrow> arc set \<Rightarrow> nat list \<Rightarrow> bool" where
  "classes n E ps \<longleftrightarrow> forest n ps \<and> (\<forall>y < n. weakly_connected E y (uf_root ps y)) \<and>
     (\<forall>e \<in> E. uf_root ps (unat (arc_from e)) = uf_root ps (unat (arc_to e)))"

lemma classes_iff:
  assumes "classes n E ps" "u < n" "v < n"
  shows "uf_root ps u = uf_root ps v \<longleftrightarrow> weakly_connected E u v"
proof
  assume "uf_root ps u = uf_root ps v"
  moreover have "weakly_connected E u (uf_root ps u)" "weakly_connected E (uf_root ps v) v"
    using assms weakly_connected_sym by (auto simp: classes_def)
  ultimately show "weakly_connected E u v" by (metis weakly_connected_trans)
next
  assume "weakly_connected E u v"
  then show "uf_root ps u = uf_root ps v"
    using assms(1) weakly_connected_label [of E "uf_root ps" u v] by (simp add: classes_def)
qed

text \<open>The root is the least vertex of its component.\<close>

lemma classes_least:
  assumes "classes n E ps" "u < n" "v < n" "weakly_connected E u v"
  shows "uf_root ps u \<le> v"
  using classes_iff [OF assms(1-3)] assms(4) root_le [of ps v] by simp

lemma classes_insert:
  assumes c: "classes n E ps" and e: "unat (arc_from e) < n" "unat (arc_to e) < n"
    and E: "\<forall>e \<in> E. unat (arc_from e) < n \<and> unat (arc_to e) < n"
  shows "\<exists>ps'. uf_union (unat (arc_from e)) (unat (arc_to e)) ps = Some ps' \<and> classes n (insert e E) ps'"
proof -
  let ?a = "unat (arc_from e)" and ?b = "unat (arc_to e)"
  have f: "forest n ps" using c by (simp add: classes_def)
  obtain ps' where ps': "uf_union ?a ?b ps = Some ps'" "forest n ps'"
    "\<forall>y < n. uf_root ps' y = (if uf_root ps y = uf_root ps ?a \<or> uf_root ps y = uf_root ps ?b
        then min (uf_root ps ?a) (uf_root ps ?b) else uf_root ps y)"
    using uf_union_ok [OF f e] by blast
  let ?F = "insert e E"
  have old: "weakly_connected ?F y (uf_root ps y)" if "y < n" for y
    using c that weakly_connected_mono [of E y _ ?F] by (auto simp: classes_def)
  have ab: "weakly_connected ?F ?a ?b" by (rule weakly_connected_arc) simp
  then have roots: "weakly_connected ?F (uf_root ps ?a) (uf_root ps ?b)"
    using old [OF e(1)] old [OF e(2)] by (meson weakly_connected_sym weakly_connected_trans)
  have "weakly_connected ?F y (uf_root ps' y)" if y: "y < n" for y
  proof (cases "uf_root ps y = uf_root ps ?a \<or> uf_root ps y = uf_root ps ?b")
    case True
    then have "weakly_connected ?F y (uf_root ps ?a)" "weakly_connected ?F y (uf_root ps ?b)"
      using old [OF y] roots by (metis weakly_connected_sym weakly_connected_trans)+
    with True ps'(3) y show ?thesis by (simp add: min_def)
  next
    case False
    with old [OF y] ps'(3) y show ?thesis by simp
  qed
  moreover have "uf_root ps' (unat (arc_from x)) = uf_root ps' (unat (arc_to x))" if "x \<in> ?F" for x
  proof (cases "x = e")
    case True
    then show ?thesis using ps'(3) e by simp
  next
    case False
    then have x: "x \<in> E" using that by simp
    then have "uf_root ps (unat (arc_from x)) = uf_root ps (unat (arc_to x))" using c by (simp add: classes_def)
    with x E ps'(3) show ?thesis by simp
  qed
  ultimately show ?thesis using ps'(1,2) by (auto simp: classes_def)
qed

lemma classes_empty: "classes n {} [0..<n]"
proof -
  have "uf_root [0..<n] y = y" if "y < n" for y using that by (simp add: root_fixed)
  then show ?thesis by (simp add: classes_def forest_def)
qed

section \<open>WeakComponents\<close>

text \<open>
  The least vertex of the component, and \<open>-1\<close> for a vertex that no arc touches.
\<close>

definition touched_by :: "arc set \<Rightarrow> nat \<Rightarrow> bool" where
  "touched_by E v \<longleftrightarrow> (\<exists>e \<in> E. unat (arc_from e) = v \<or> unat (arc_to e) = v)"

definition components_of :: "nat \<Rightarrow> arc set \<Rightarrow> int list \<Rightarrow> bool" where
  "components_of n E labels \<longleftrightarrow> length labels = n \<and>
     (\<forall>v < n. labels ! v = (if touched_by E v then int (LEAST w. w < n \<and> weakly_connected E v w) else - 1))"

lemma root_is_least:
  assumes "classes n E ps" "v < n"
  shows "uf_root ps v = (LEAST w. w < n \<and> weakly_connected E v w)"
  using assms classes_least [OF assms] root_lt [OF assms(2)]
  by (intro Least_equality [symmetric]) (auto simp: classes_def)

lemma join_arcs_ok:
  assumes valid: "\<forall>e \<in> set es. unat (arc_from e) < n \<and> unat (arc_to e) < n"
  shows "\<exists>touched ps. fold_opt join_arc es (replicate n False, [0..<n]) = Some (touched, ps) \<and>
    length touched = n \<and> (\<forall>v < n. touched ! v = touched_by (set es) v) \<and> classes n (set es) ps"
proof -
  let ?I = "\<lambda>ys (touched, ps). length touched = n \<and> (\<forall>v < n. touched ! v = touched_by (set ys) v) \<and> classes n (set ys) ps"
  have "\<exists>s. fold_opt join_arc es (replicate n False, [0..<n]) = Some s \<and> ?I es s"
  proof (rule fold_opt_rule [where I = ?I])
    show "?I [] (replicate n False, [0..<n])" by (simp add: touched_by_def classes_empty)
  next
    fix ys x zs t assume split: "es = ys @ x # zs" and I: "?I ys t"
    obtain touched ps where t: "t = (touched, ps)" by (cases t)
    have x: "unat (arc_from x) < n" "unat (arc_to x) < n" using valid split by auto
    obtain ps' where "uf_union (unat (arc_from x)) (unat (arc_to x)) ps = Some ps'" "classes n (insert x (set ys)) ps'"
      using classes_insert [OF _ x, of "set ys" ps] I valid split by (auto simp: t)
    with x I show "\<exists>t'. join_arc x t = Some t' \<and> ?I (ys @ [x]) t'"
      by (auto simp: t join_arc_def slice_simps touched_by_def nth_list_update)
  qed
  then show ?thesis by auto
qed

lemma component_loop_ok:
  assumes c: "classes n E ps" and touched: "length touched = n" "\<forall>v < n. touched ! v = touched_by E v"
  shows "\<exists>labels ps'. fold_opt (component_of touched) [0..<n] ([], ps) = Some (labels, ps') \<and> components_of n E labels"
proof -
  let ?val = "\<lambda>v. if touched_by E v then int (uf_root ps v) else - 1"
  let ?I = "\<lambda>ys (labels, qs). labels = map ?val ys \<and> forest n qs \<and> (\<forall>y < n. uf_root qs y = uf_root ps y)"
  have "\<exists>s. fold_opt (component_of touched) [0..<n] ([], ps) = Some s \<and> ?I [0..<n] s"
  proof (rule fold_opt_rule [where I = ?I])
    show "?I [] ([], ps)" using c by (simp add: classes_def)
  next
    fix ys x zs t assume split: "[0..<n] = ys @ x # zs" and I: "?I ys t"
    have "x \<in> set [0..<n]" by (simp add: split)
    then have x: "x < n" by simp
    obtain labels qs where t: "t = (labels, qs)" by (cases t)
    obtain qs' where "uf_find qs x = Some (uf_root qs x, qs')" "forest n qs'" "\<forall>y < n. uf_root qs' y = uf_root qs y"
      using uf_find_ok [of n qs x] I x by (auto simp: t)
    with x I touched show "\<exists>t'. component_of touched x t = Some t' \<and> ?I (ys @ [x]) t'"
      by (auto simp: t component_of_def slice_simps)
  qed
  then show ?thesis using root_is_least [OF c] by (auto simp: components_of_def)
qed

lemma WeakComponents_ok:
  assumes "\<forall>e \<in> set required. unat (arc_from e) < n \<and> unat (arc_to e) < n"
  shows "\<exists>labels. WeakComponents n required = Some labels \<and> components_of n (set required) labels"
proof -
  obtain touched ps where join: "fold_opt join_arc required (replicate n False, [0..<n]) = Some (touched, ps)"
    "length touched = n" "\<forall>v < n. touched ! v = touched_by (set required) v" "classes n (set required) ps"
    using join_arcs_ok [OF assms] by blast
  from component_loop_ok [OF join(4,2,3)] join(1) show ?thesis by (auto simp: WeakComponents_def)
qed

section \<open>Property\<close>

text \<open>
  C21: \<open>WeakComponents\<close> returns, for every vertex some required arc touches, the least vertex
  that is connected to it by required arcs taken in either direction, and \<open>-1\<close> for the others.
\<close>

theorem WeakComponents_least_vertex:
  assumes "\<forall>e \<in> set required. unat (arc_from e) < n \<and> unat (arc_to e) < n"
  shows "\<exists>labels. WeakComponents n required = Some labels \<and> length labels = n \<and>
    (\<forall>v < n. labels ! v = (if touched_by (set required) v
       then int (LEAST w. w < n \<and> weakly_connected (set required) v w) else - 1))"
  using WeakComponents_ok [OF assms] by (simp add: components_of_def)

theorem WeakComponents_least_vertex_witness:
  "\<exists>labels. WeakComponents 4 [Arc 0 2 1, Arc 1 3 2] = Some labels \<and> labels ! 0 = - 1"
proof -
  have "\<not> touched_by (set [Arc 0 2 1, Arc 1 3 2]) 0" by (simp add: touched_by_def)
  with WeakComponents_least_vertex [of "[Arc 0 2 1, Arc 1 3 2]" 4] show ?thesis by auto
qed

end
