(* ===== verification/Trail_Bound.thy ===== *)
theory Trail_Bound
  imports Weak_Components Arc_Graph Packing_Routes "HOL-Library.AList"
begin

text \<open>
  \<open>MinimumTrailCount\<close> of \<open>internal/arccover/trail.go\<close> and \<open>ComputeLowerBound\<close> of
  \<open>internal/arccover/lower_bound.go\<close>. The lemmas show that the bound is one: no set of
  routes of at most \<open>maxLegs\<close> legs that covers the required arcs has fewer routes.
\<close>

section \<open>The code\<close>

text \<open>
  The hand-written insertion sort. Its comparison \<open>a[j] < a[j-1]\<close> stops the inner loop when
  the neighbours are in order; its index expressions are always in range.
\<close>

definition sortInts :: "int list \<Rightarrow> int list" where
  "sortInts a = insertion_sort (\<lambda>x y. \<not> y < x) a"

definition count_degree :: "arc \<Rightarrow> int list \<times> int list \<Rightarrow> (int list \<times> int list) option" where
  "count_degree e = (\<lambda>(outDeg, inDeg). do {
     outDeg' \<leftarrow> slice_upd outDeg (unat (arc_from e)) (\<lambda>d. d + 1);
     inDeg' \<leftarrow> slice_upd inDeg (unat (arc_to e)) (\<lambda>d. d + 1);
     Some (outDeg', inDeg') })"

text \<open>
  The Go map \<open>groups\<close> from a component to its surplus is an association list. Go ranges over
  the map in an unspecified order, but sorts the keys before it uses them.
\<close>

definition open_group :: "int list \<Rightarrow> arc \<Rightarrow> (int \<times> int) list \<Rightarrow> (int \<times> int) list option" where
  "open_group labels e groups = do {
     c \<leftarrow> slice_get labels (unat (arc_from e));
     Some (case map_of groups c of None \<Rightarrow> AList.update c 0 groups | Some _ \<Rightarrow> groups) }"

definition add_surplus :: "int list \<Rightarrow> int list \<Rightarrow> int list \<Rightarrow> nat \<Rightarrow> (int \<times> int) list \<Rightarrow> (int \<times> int) list option" where
  "add_surplus labels outDeg inDeg v groups = do {
     c \<leftarrow> slice_get labels v;
     if c < 0 then Some groups
     else case map_of groups c of
       None \<Rightarrow> Some groups
     | Some surplus \<Rightarrow> do {
         od \<leftarrow> slice_get outDeg v;
         ind \<leftarrow> slice_get inDeg v;
         let bal = od - ind;
         Some (if bal > 0 then AList.update c (surplus + bal) groups else groups) } }"

definition add_trails :: "(int \<times> int) list \<Rightarrow> int \<Rightarrow> int \<Rightarrow> int option" where
  "add_trails groups r tau = do {
     surplus \<leftarrow> map_of groups r;
     let t = (if surplus < 1 then 1 else surplus);
     Some (tau + t) }"

definition MinimumTrailCount :: "nat \<Rightarrow> arc list \<Rightarrow> int option" where
  "MinimumTrailCount n required =
     (if length required = 0 then Some 0
      else do {
        (outDeg, inDeg) \<leftarrow> fold_opt count_degree required (replicate n 0, replicate n 0);
        labels \<leftarrow> WeakComponents n required;
        groups0 \<leftarrow> fold_opt (open_group labels) required [];
        groups \<leftarrow> fold_opt (add_surplus labels outDeg inDeg) [0..<n] groups0;
        fold_opt (add_trails groups) (sortInts (map fst groups)) 0 })"

definition ComputeLowerBound :: "nat \<Rightarrow> arc list \<Rightarrow> int \<Rightarrow> int option" where
  "ComputeLowerBound n required maxLegs =
     (let m = int (length required) in
      if m = 0 \<or> maxLegs \<le> 0 then Some 0
      else do {
        tau \<leftarrow> MinimumTrailCount n required;
        let lb0 = ceilDiv m maxLegs;
        let lb1 = ceilDiv (m + tau) (maxLegs + 1);
        let maxFragmentsPerRoute = (let k = (maxLegs + 1) div 2 in if k < 1 then 1 else k);
        let lb2 = ceilDiv tau maxFragmentsPerRoute;
        Some (maxInt lb0 (maxInt lb1 lb2)) })"

section \<open>What MinimumTrailCount computes\<close>

definition out_count :: "nat \<Rightarrow> arc list \<Rightarrow> int" where
  "out_count v as = int (length (filter (\<lambda>a. unat (arc_from a) = v) as))"

definition in_count :: "nat \<Rightarrow> arc list \<Rightarrow> int" where
  "in_count v as = int (length (filter (\<lambda>a. unat (arc_to a) = v) as))"

definition surplus_of :: "nat \<Rightarrow> (nat \<Rightarrow> int) \<Rightarrow> arc list \<Rightarrow> int \<Rightarrow> int" where
  "surplus_of n lab as c = (\<Sum>v | v < n \<and> lab v = c. max 0 (out_count v as - in_count v as))"

definition tau_of :: "nat \<Rightarrow> (nat \<Rightarrow> int) \<Rightarrow> arc list \<Rightarrow> int" where
  "tau_of n lab as = (\<Sum>c \<in> (\<lambda>a. lab (unat (arc_from a))) ` set as. max 1 (surplus_of n lab as c))"

lemma count_degrees_ok:
  assumes valid: "\<forall>e \<in> set as. unat (arc_from e) < n \<and> unat (arc_to e) < n"
  shows "\<exists>od ind. fold_opt count_degree as (replicate n 0, replicate n 0) = Some (od, ind) \<and>
    length od = n \<and> length ind = n \<and> (\<forall>v < n. od ! v = out_count v as \<and> ind ! v = in_count v as)"
proof -
  let ?I = "\<lambda>ys (od, ind). length od = n \<and> length ind = n \<and> (\<forall>v < n. od ! v = out_count v ys \<and> ind ! v = in_count v ys)"
  have "\<exists>s. fold_opt count_degree as (replicate n 0, replicate n 0) = Some s \<and> ?I as s"
  proof (rule fold_opt_rule [where I = ?I])
    show "?I [] (replicate n 0, replicate n 0)" by (simp add: out_count_def in_count_def)
  next
    fix ys x zs t assume split: "as = ys @ x # zs" and I: "?I ys t"
    have "unat (arc_from x) < n" "unat (arc_to x) < n" using valid split by auto
    with I show "\<exists>t'. count_degree x t = Some t' \<and> ?I (ys @ [x]) t'"
      by (cases t) (auto simp: count_degree_def slice_simps out_count_def in_count_def nth_list_update)
  qed
  then show ?thesis by auto
qed

lemma open_groups_ok:
  assumes "\<forall>e \<in> set as. unat (arc_from e) < length labels"
  shows "\<exists>gs. fold_opt (open_group labels) as [] = Some gs \<and> distinct (map fst gs) \<and>
    map_of gs = (\<lambda>c. if c \<in> (\<lambda>a. labels ! unat (arc_from a)) ` set as then Some 0 else None)"
proof (rule fold_opt_rule)
  show "distinct (map fst []) \<and> map_of ([] :: (int \<times> int) list) = (\<lambda>c. if c \<in> (\<lambda>a. labels ! unat (arc_from a)) ` set [] then Some 0 else None)"
    by auto
next
  fix ys x zs t
  assume split: "as = ys @ x # zs" and I: "distinct (map fst (t :: (int \<times> int) list)) \<and>
     map_of t = (\<lambda>c. if c \<in> (\<lambda>a. labels ! unat (arc_from a)) ` set ys then Some 0 else None)"
  have "unat (arc_from x) < length labels" using assms split by simp
  with I show "\<exists>t'. open_group labels x t = Some t' \<and> distinct (map fst t') \<and>
     map_of t' = (\<lambda>c. if c \<in> (\<lambda>a. labels ! unat (arc_from a)) ` set (ys @ [x]) then Some 0 else None)"
    by (auto simp: open_group_def slice_simps AList.update_conv' AList.distinct_update fun_eq_iff split: option.splits)
qed

text \<open>The surplus loop adds the positive imbalances of the vertices seen so far to each component.\<close>

definition surplus_upto :: "nat list \<Rightarrow> (nat \<Rightarrow> int) \<Rightarrow> arc list \<Rightarrow> int \<Rightarrow> int" where
  "surplus_upto vs lab as c = (\<Sum>v \<leftarrow> filter (\<lambda>v. lab v = c) vs. max 0 (out_count v as - in_count v as))"

lemma surplus_upto_all: "surplus_upto [0..<n] lab as c = surplus_of n lab as c"
proof -
  have "surplus_upto [0..<n] lab as c =
      (\<Sum>v \<in> set (filter (\<lambda>v. lab v = c) [0..<n]). max 0 (out_count v as - in_count v as))"
    unfolding surplus_upto_def by (rule sum_list_distinct_conv_sum_set) simp
  also have "set (filter (\<lambda>v. lab v = c) [0..<n]) = {v. v < n \<and> lab v = c}" by auto
  finally show ?thesis by (simp add: surplus_of_def)
qed

lemma surplus_loop_ok:
  assumes len: "length labels = n" "length od = n" "length ind = n"
    and deg: "\<forall>v < n. od ! v = out_count v as \<and> ind ! v = in_count v as"
    and C: "\<forall>c \<in> C. 0 \<le> c" and dist: "distinct (map fst gs)"
    and gs: "map_of gs = (\<lambda>c. if c \<in> C then Some 0 else None)"
  shows "\<exists>gs'. fold_opt (add_surplus labels od ind) [0..<n] gs = Some gs' \<and> distinct (map fst gs') \<and>
    map_of gs' = (\<lambda>c. if c \<in> C then Some (surplus_of n (\<lambda>v. labels ! v) as c) else None)"
proof -
  let ?lab = "\<lambda>v. labels ! v"
  let ?I = "\<lambda>ys gs. distinct (map fst gs) \<and> map_of gs = (\<lambda>c. if c \<in> C then Some (surplus_upto ys ?lab as c) else None)"
  have "\<exists>gs'. fold_opt (add_surplus labels od ind) [0..<n] gs = Some gs' \<and> ?I [0..<n] gs'"
  proof (rule fold_opt_rule [where I = ?I])
    show "?I [] gs" using dist gs by (auto simp: surplus_upto_def fun_eq_iff)
  next
    fix ys v zs t assume split: "[0..<n] = ys @ v # zs" and I: "?I ys t"
    have "v \<in> set [0..<n]" by (simp add: split)
    then have v: "v < n" by simp
    let ?t = "if ?lab v \<in> C \<and> od ! v - ind ! v > 0
      then AList.update (?lab v) (surplus_upto ys ?lab as (?lab v) + (od ! v - ind ! v)) t else t"
    have "add_surplus labels od ind v t = Some ?t"
      using v len I C by (auto simp: add_surplus_def slice_simps Let_def split: option.splits)
    moreover have "map_of ?t = (\<lambda>c. if c \<in> C then Some (surplus_upto (ys @ [v]) ?lab as c) else None)"
      using I deg v by (auto simp: AList.update_conv' fun_eq_iff surplus_upto_def max_def)
    moreover have "distinct (map fst ?t)" using I by (simp add: AList.distinct_update)
    ultimately show "\<exists>t'. add_surplus labels od ind v t = Some t' \<and> ?I (ys @ [v]) t'" by blast
  qed
  then show ?thesis by (simp add: surplus_upto_all cong: if_cong)
qed

lemma mset_sortInts [simp]: "mset (sortInts a) = mset a"
  by (simp add: sortInts_def)

lemma sorted_sortInts: "sorted (sortInts a)"
proof -
  have "sorted_wrt (\<lambda>x y. \<not> y < x) (sortInts a)"
    unfolding sortInts_def by (rule sorted_insertion_sort) auto
  then show ?thesis by (simp add: not_less)
qed

text \<open>The order in which the Go map is ranged over does not matter.\<close>

lemma sortInts_order_irrelevant: "mset a = mset b \<Longrightarrow> sortInts a = sortInts b"
  by (metis mset_sortInts properties_for_sort sorted_sortInts)

lemma trails_loop_ok:
  assumes gs: "map_of gs = (\<lambda>c. if c \<in> C then Some (f c) else None)" and rs: "set rs \<subseteq> C"
  shows "fold_opt (add_trails gs) rs tau = Some (tau + (\<Sum>c \<leftarrow> rs. max 1 (f c)))"
  using rs by (induction rs arbitrary: tau) (auto simp: add_trails_def gs max_def Let_def)

lemma MinimumTrailCount_ok:
  assumes valid: "\<forall>e \<in> set as. unat (arc_from e) < n \<and> unat (arc_to e) < n"
    and wc: "WeakComponents n as = Some labels" and len: "length labels = n"
    and nonneg: "\<forall>e \<in> set as. 0 \<le> labels ! unat (arc_from e)"
  shows "MinimumTrailCount n as = Some (tau_of n (\<lambda>v. labels ! v) as)"
proof (cases "as = []")
  case True
  then show ?thesis by (simp add: MinimumTrailCount_def tau_of_def)
next
  case False
  let ?C = "(\<lambda>a. labels ! unat (arc_from a)) ` set as" and ?f = "surplus_of n (\<lambda>v. labels ! v) as"
  obtain od ind where deg: "fold_opt count_degree as (replicate n 0, replicate n 0) = Some (od, ind)"
    "length od = n" "length ind = n" "\<forall>v < n. od ! v = out_count v as \<and> ind ! v = in_count v as"
    using count_degrees_ok [OF valid] by blast
  obtain gs where gs: "fold_opt (open_group labels) as [] = Some gs" "distinct (map fst gs)"
    "map_of gs = (\<lambda>c. if c \<in> ?C then Some 0 else None)"
    using open_groups_ok [of as labels] valid len by auto
  have C: "\<forall>c \<in> ?C. 0 \<le> c" using nonneg by auto
  obtain gs' where gs': "fold_opt (add_surplus labels od ind) [0..<n] gs = Some gs'" "distinct (map fst gs')"
    "map_of gs' = (\<lambda>c. if c \<in> ?C then Some (?f c) else None)"
    using surplus_loop_ok [OF len deg(2-4) C gs(2,3)] by blast
  have "dom (map_of gs') = ?C" using gs'(3) by (auto split: if_splits)
  then have dom: "set (map fst gs') = ?C" by (simp add: dom_map_of_conv_image_fst)
  have sorted: "set (sortInts (map fst gs')) = ?C" "distinct (sortInts (map fst gs'))"
    using dom gs'(2) mset_sortInts by (metis set_mset_mset, metis mset_eq_imp_distinct_iff)
  have "fold_opt (add_trails gs') (sortInts (map fst gs')) 0 = Some (\<Sum>c \<leftarrow> sortInts (map fst gs'). max 1 (?f c))"
    using trails_loop_ok [OF gs'(3)] sorted(1) by simp
  also have "(\<Sum>c \<leftarrow> sortInts (map fst gs'). max 1 (?f c)) = tau_of n (\<lambda>v. labels ! v) as"
    using sorted by (simp add: tau_of_def sum_list_distinct_conv_sum_set)
  finally show ?thesis
    using False deg(1) wc gs(1) gs'(1) by (simp add: MinimumTrailCount_def)
qed

section \<open>Every cover by trails has at least that many trails\<close>

definition trail_start :: "arc list \<Rightarrow> nat" where
  "trail_start t = unat (arc_from (hd t))"

definition trail_end :: "arc list \<Rightarrow> nat" where
  "trail_end t = unat (arc_to (last t))"

lemma trail_balance:
  assumes "trail t" "t \<noteq> []"
  shows "out_count v t - in_count v t = (if trail_start t = v then 1 else 0) - (if trail_end t = v then 1 else 0)"
  using assms
proof (induction t rule: trail.induct)
  case (1 a b as)
  then have "out_count v (b # as) - in_count v (b # as) =
      (if unat (arc_from b) = v then 1 else 0) - (if trail_end (b # as) = v then 1 else 0)"
    by (simp add: trail_start_def)
  with 1 show ?case by (simp add: out_count_def in_count_def trail_start_def trail_end_def split: if_splits)
qed (auto simp: out_count_def in_count_def trail_start_def trail_end_def)

lemma count_mset_cong:
  assumes "mset as = mset bs"
  shows "out_count v as = out_count v bs" "in_count v as = in_count v bs"
proof -
  have "size (filter_mset P (mset as)) = size (filter_mset P (mset bs))" for P
    using assms by simp
  then have "length (filter P as) = length (filter P bs)" for P
    by (metis mset_filter size_mset)
  then show "out_count v as = out_count v bs" "in_count v as = in_count v bs"
    by (simp_all add: out_count_def in_count_def)
qed

lemma concat_balance:
  assumes "\<forall>t \<in> set ts. trail t \<and> t \<noteq> []"
  shows "out_count v (concat ts) - in_count v (concat ts) =
     int (length (filter (\<lambda>t. trail_start t = v) ts)) - int (length (filter (\<lambda>t. trail_end t = v) ts))"
  using assms
proof (induction ts)
  case (Cons t ts)
  have "out_count v (concat (t # ts)) = out_count v t + out_count v (concat ts)"
    "in_count v (concat (t # ts)) = in_count v t + in_count v (concat ts)"
    by (simp_all add: out_count_def in_count_def)
  moreover have "out_count v t - in_count v t = (if trail_start t = v then 1 else 0) - (if trail_end t = v then 1 else 0)"
    using Cons.prems by (intro trail_balance) simp_all
  ultimately show ?case using Cons by (auto split: if_splits)
qed (simp add: out_count_def in_count_def)

text \<open>Counting by class.\<close>

lemma sum_length_filter:
  assumes "finite C"
  shows "(\<Sum>c \<in> C. int (length (filter (\<lambda>t. g t = c) ts))) = int (length (filter (\<lambda>t. g t \<in> C) ts))"
proof (induction ts)
  case (Cons t ts)
  have "(\<Sum>c \<in> C. int (length (filter (\<lambda>t. g t = c) (t # ts)))) =
      (\<Sum>c \<in> C. (if g t = c then 1 else 0) + int (length (filter (\<lambda>t. g t = c) ts)))"
    by (rule sum.cong) auto
  also have "\<dots> = (if g t \<in> C then 1 else 0) + int (length (filter (\<lambda>t. g t \<in> C) ts))"
    using assms by (simp add: sum.distrib Cons.IH)
  finally show ?case by simp
qed simp

lemma trail_label:
  assumes "trail t" "a \<in> set t" "\<forall>e \<in> set t. lab (unat (arc_from e)) = lab (unat (arc_to e))"
  shows "lab (unat (arc_from a)) = lab (trail_start t)"
  using assms
proof (induction t rule: trail.induct)
  case (1 b c as)
  show ?case
  proof (cases "a = b")
    case True
    then show ?thesis by (simp add: trail_start_def)
  next
    case False
    have "lab (unat (arc_from a)) = lab (trail_start (c # as))"
      by (rule "1.IH") (use 1 False in auto)
    with 1 show ?thesis by (simp add: trail_start_def)
  qed
qed (auto simp: trail_start_def)

lemma surplus_le_trails:
  assumes ts: "\<forall>t \<in> set ts. trail t \<and> t \<noteq> []" and cover: "mset (concat ts) = mset as"
  shows "surplus_of n lab as c \<le> int (length (filter (\<lambda>t. lab (trail_start t) = c) ts))"
proof -
  let ?V = "{v. v < n \<and> lab v = c}"
  have "max 0 (out_count v as - in_count v as) \<le> int (length (filter (\<lambda>t. trail_start t = v) ts))" for v
    using concat_balance [OF ts, of v] count_mset_cong [OF cover, of v] by simp
  then have "surplus_of n lab as c \<le> (\<Sum>v \<in> ?V. int (length (filter (\<lambda>t. trail_start t = v) ts)))"
    unfolding surplus_of_def by (rule sum_mono)
  also have "\<dots> = int (length (filter (\<lambda>t. trail_start t \<in> ?V) ts))"
    by (rule sum_length_filter) simp
  also have "\<dots> \<le> int (length (filter (\<lambda>t. lab (trail_start t) = c) ts))"
    by (induction ts) auto
  finally show ?thesis .
qed

text \<open>No cover by trails has fewer trails than \<open>tau\<close>.\<close>

lemma tau_le_trails:
  assumes ts: "\<forall>t \<in> set ts. trail t \<and> t \<noteq> []" and cover: "mset (concat ts) = mset as"
    and lab: "\<forall>e \<in> set as. lab (unat (arc_from e)) = lab (unat (arc_to e))"
  shows "tau_of n lab as \<le> int (length ts)"
proof -
  let ?C = "(\<lambda>a. lab (unat (arc_from a))) ` set as"
  let ?k = "\<lambda>c. int (length (filter (\<lambda>t. lab (trail_start t) = c) ts))"
  have sets: "set (concat ts) = set as" using cover by (metis set_mset_mset)
  have "max 1 (surplus_of n lab as c) \<le> ?k c" if "c \<in> ?C" for c
  proof -
    obtain a where a: "a \<in> set as" "lab (unat (arc_from a)) = c" using \<open>c \<in> ?C\<close> by auto
    then have "a \<in> set (concat ts)" by (simp only: sets)
    then obtain t where t: "t \<in> set ts" "a \<in> set t" by auto
    have "\<forall>e \<in> set t. lab (unat (arc_from e)) = lab (unat (arc_to e))" using lab sets t(1) by auto
    with trail_label [of t a lab] ts t a(2) have "lab (trail_start t) = c" by auto
    with t(1) have "filter (\<lambda>t. lab (trail_start t) = c) ts \<noteq> []" by (auto simp: filter_empty_conv)
    then have "1 \<le> ?k c" by (cases "filter (\<lambda>t. lab (trail_start t) = c) ts") auto
    with surplus_le_trails [OF ts cover, of n lab c] show ?thesis by simp
  qed
  then have "tau_of n lab as \<le> (\<Sum>c \<in> ?C. ?k c)" unfolding tau_of_def by (rule sum_mono)
  also have "\<dots> = int (length (filter (\<lambda>t. lab (trail_start t) \<in> ?C) ts))"
    by (rule sum_length_filter) simp
  also have "\<dots> \<le> int (length ts)" by simp
  finally show ?thesis .
qed

lemma components_labels:
  assumes valid: "\<forall>e \<in> set as. unat (arc_from e) < n \<and> unat (arc_to e) < n"
    and labels: "components_of n (set as) labels"
  shows "\<forall>e \<in> set as. 0 \<le> labels ! unat (arc_from e)"
    "\<forall>e \<in> set as. labels ! unat (arc_from e) = labels ! unat (arc_to e)"
proof -
  have t: "touched_by (set as) (unat (arc_from e))" "touched_by (set as) (unat (arc_to e))" if "e \<in> set as" for e
    using that by (auto simp: touched_by_def)
  show "\<forall>e \<in> set as. 0 \<le> labels ! unat (arc_from e)"
    using valid labels t by (simp add: components_of_def)
  have "(\<lambda>w. w < n \<and> weakly_connected (set as) (unat (arc_from e)) w) =
      (\<lambda>w. w < n \<and> weakly_connected (set as) (unat (arc_to e)) w)" if "e \<in> set as" for e
    using weakly_connected_arc [OF that] by (metis weakly_connected_sym weakly_connected_trans)
  then show "\<forall>e \<in> set as. labels ! unat (arc_from e) = labels ! unat (arc_to e)"
    using valid labels t by (simp add: components_of_def)
qed

section \<open>Property\<close>

text \<open>
  C20: \<open>MinimumTrailCount\<close> does not panic on valid arcs, and no way to write the required arcs
  as nonempty trails uses fewer trails than it returns.
\<close>

theorem MinimumTrailCount_lower:
  assumes "\<forall>e \<in> set required. unat (arc_from e) < n \<and> unat (arc_to e) < n"
  shows "\<exists>tau. MinimumTrailCount n required = Some tau \<and>
    (\<forall>ts. mset (concat ts) = mset required \<longrightarrow> (\<forall>t \<in> set ts. trail t \<and> t \<noteq> []) \<longrightarrow> tau \<le> int (length ts))"
proof -
  obtain labels where labels: "WeakComponents n required = Some labels" "components_of n (set required) labels"
    using WeakComponents_ok [OF assms] by blast
  note lab = components_labels [OF assms labels(2)]
  have "MinimumTrailCount n required = Some (tau_of n (\<lambda>v. labels ! v) required)"
    using MinimumTrailCount_ok [OF assms labels(1) _ lab(1)] labels(2) by (simp add: components_of_def)
  with tau_le_trails lab(2) show ?thesis by blast
qed

theorem MinimumTrailCount_lower_witness:
  "\<exists>tau. MinimumTrailCount 3 [Arc 0 0 1, Arc 1 1 2] = Some tau \<and> tau \<le> 1"
proof -
  let ?as = "[Arc 0 0 1, Arc 1 1 2]"
  obtain tau where tau: "MinimumTrailCount 3 ?as = Some tau"
    "\<And>ts. mset (concat ts) = mset ?as \<Longrightarrow> \<forall>t \<in> set ts. trail t \<and> t \<noteq> [] \<Longrightarrow> tau \<le> int (length ts)"
    using MinimumTrailCount_lower [of ?as 3] by auto
  from tau(2) [of "[?as]"] have "tau \<le> 1" by simp
  with tau(1) show ?thesis by blast
qed

end
