(* ===== verification/Lower_Bound.thy ===== *)
theory Lower_Bound
  imports Trail_Bound
begin

text \<open>
  \<open>RoutesToRequiredFragments\<close> and \<open>SplitFragmentsByMaxLegs\<close> of
  \<open>internal/arccover/packing.go\<close>, and the soundness of \<open>ComputeLowerBound\<close>: the required
  runs of a set of routes are a cover by trails, and their number is limited by the legs.
\<close>

section \<open>The required runs of a route\<close>

fun leg_runs :: "leg list \<Rightarrow> arc list \<Rightarrow> arc list list" where
  "leg_runs [] cur = (if cur = [] then [] else [cur])"
| "leg_runs (l # ls) cur =
     (if leg_kind l = LegBridge then (if cur = [] then [] else [cur]) @ leg_runs ls []
      else leg_runs ls (cur @ [leg_arc l]))"

lemma extract_runs_eq:
  "k = int (length fs) \<Longrightarrow> numbered fs \<Longrightarrow>
   \<exists>fs'. extract_runs ls cur (fs, k) = (fs', int (length fs')) \<and> numbered fs' \<and>
     map frag_edges fs' = map frag_edges fs @ leg_runs ls cur"
proof (induction ls arbitrary: cur fs k)
  case Nil
  then show ?case by (auto simp: flush_run_def numbered_snoc)
next
  case (Cons l ls)
  show ?case
  proof (cases "leg_kind l = LegBridge")
    case False
    then show ?thesis using Cons by simp
  next
    case True
    show ?thesis
    proof (cases "cur = []")
      case True
      then show ?thesis using Cons \<open>leg_kind l = LegBridge\<close> by (simp add: flush_run_def)
    next
      case False
      let ?fs = "fs @ [\<lparr>frag_edges = cur, frag_id = k\<rparr>]"
      have "k + 1 = int (length ?fs)" "numbered ?fs" using Cons.prems by (simp_all add: numbered_snoc)
      from Cons.IH [OF this, of "[]"] show ?thesis using True False by (simp add: flush_run_def)
    qed
  qed
qed

lemma RoutesToRequiredFragments_runs:
  "numbered (RoutesToRequiredFragments rts) \<and>
   map frag_edges (RoutesToRequiredFragments rts) = concat (map (\<lambda>r. leg_runs (legs r) []) rts)"
proof -
  have "k = int (length fs) \<Longrightarrow> numbered fs \<Longrightarrow>
    \<exists>fs'. fold (\<lambda>r. extract_runs (legs r) []) rts (fs, k) = (fs', int (length fs')) \<and> numbered fs' \<and>
     map frag_edges fs' = map frag_edges fs @ concat (map (\<lambda>r. leg_runs (legs r) []) rts)" for fs k
  proof (induction rts arbitrary: fs k)
    case (Cons r rts)
    from extract_runs_eq [OF Cons.prems, of "legs r" "[]"] obtain fs1 where
      "extract_runs (legs r) [] (fs, k) = (fs1, int (length fs1))" "numbered fs1"
      "map frag_edges fs1 = map frag_edges fs @ leg_runs (legs r) []" by blast
    with Cons.IH [of _ fs1] show ?case by auto
  qed simp
  from this [of 0 "[]"] show ?thesis
    by (auto simp: RoutesToRequiredFragments_def numbered_def)
qed

lemma leg_runs_arcs: "mset (concat (leg_runs ls cur)) = mset cur + required_arcs ls"
proof (induction ls arbitrary: cur)
  case (Cons l ls)
  show ?case
    using Cons.IH by (cases "leg_kind l") (auto simp: required_arcs_def required_legs_def)
qed simp

lemma leg_runs_trails:
  assumes "walk ls" "trail cur" "cur \<noteq> [] \<Longrightarrow> ls \<noteq> [] \<Longrightarrow> arc_to (last cur) = leg_from (hd ls)"
  shows "\<forall>t \<in> set (leg_runs ls cur). trail t \<and> t \<noteq> []"
  using assms
proof (induction ls arbitrary: cur)
  case (Cons l ls)
  have ls: "walk ls" "ls \<noteq> [] \<Longrightarrow> leg_to l = leg_from (hd ls)" using Cons.prems(1) by (auto simp: walk_Cons)
  have "trail (cur @ [leg_arc l])" using Cons.prems by (auto simp: trail_snoc leg_arc_def)
  moreover have "\<forall>t \<in> set (leg_runs ls []). trail t \<and> t \<noteq> []" by (rule Cons.IH [OF ls(1)]) simp_all
  moreover have "\<forall>t \<in> set (leg_runs ls (cur @ [leg_arc l])). trail t \<and> t \<noteq> []"
    if "trail (cur @ [leg_arc l])" by (rule Cons.IH [OF ls(1) that]) (use ls(2) in \<open>simp add: leg_arc_def\<close>)
  ultimately show ?case using Cons.prems(2) by simp
qed auto

lemma leg_runs_length:
  "length (leg_runs ls cur) + length (required_legs ls) \<le> length ls + 1"
  "length (leg_runs ls cur) \<le> length (required_legs ls) + (if cur = [] then 0 else 1)"
proof (induction ls arbitrary: cur)
  case (Cons l ls)
  {
    case 1
    show ?case using Cons.IH(1) [of "[]"] Cons.IH(1) [of "cur @ [leg_arc l]"]
      by (cases "leg_kind l") (auto simp: required_legs_def)
  next
    case 2
    show ?case using Cons.IH(2) [of "[]"] Cons.IH(2) [of "cur @ [leg_arc l]"]
      by (cases "leg_kind l") (auto simp: required_legs_def)
  }
qed (simp_all add: required_legs_def)

section \<open>The lower bound\<close>

text \<open>Summed over the routes: arcs plus runs fit into one more than the legs, and runs into half.\<close>

lemma route_budget:
  assumes "route_ok L r"
  shows "int (size (required_arcs (legs r))) + int (length (leg_runs (legs r) [])) \<le> L + 1"
    "int (length (leg_runs (legs r) [])) \<le> (L + 1) div 2" "int (size (required_arcs (legs r))) \<le> L"
proof -
  have r: "int (length (legs r)) \<le> L" using assms by (simp add: route_ok_def)
  have size: "size (required_arcs (legs r)) = length (required_legs (legs r))"
    by (simp add: required_arcs_def)
  have req: "length (required_legs (legs r)) \<le> length (legs r)" by (simp add: required_legs_def)
  note runs = leg_runs_length [of "legs r" "[]"]
  show "int (size (required_arcs (legs r))) + int (length (leg_runs (legs r) [])) \<le> L + 1"
    "int (size (required_arcs (legs r))) \<le> L"
    using runs(1) r size req by linarith+
  have "2 * int (length (leg_runs (legs r) [])) \<le> L + 1" using runs r by simp
  then show "int (length (leg_runs (legs r) [])) \<le> (L + 1) div 2" by linarith
qed

lemma routes_budget:
  assumes "\<forall>r \<in> set rts. route_ok L r"
  shows "int (size (routes_arcs rts)) + int (length (concat (map (\<lambda>r. leg_runs (legs r) []) rts)))
      \<le> int (length rts) * (L + 1)"
    "int (length (concat (map (\<lambda>r. leg_runs (legs r) []) rts))) \<le> int (length rts) * ((L + 1) div 2)"
    "int (size (routes_arcs rts)) \<le> int (length rts) * L"
  using assms
proof (atomize (full), induction rts)
  case (Cons r rts)
  then have "route_ok L r" by simp
  from route_budget [OF this] Cons show ?case by (simp add: algebra_simps)
qed simp

lemma ComputeLowerBound_exact_cover:
  assumes valid: "\<forall>e \<in> set as. unat (arc_from e) < n \<and> unat (arc_to e) < n" and L: "0 < L"
    and rts: "\<forall>r \<in> set rts. route_ok L r" and cover: "routes_arcs rts = mset as"
  shows "\<exists>lb. ComputeLowerBound n as L = Some lb \<and> 0 \<le> lb \<and> lb \<le> int (length rts)"
proof (cases "as = []")
  case True
  then show ?thesis by (simp add: ComputeLowerBound_def)
next
  case False
  let ?runs = "concat (map (\<lambda>r. leg_runs (legs r) []) rts)"
  obtain labels where labels: "WeakComponents n as = Some labels" "components_of n (set as) labels"
    using WeakComponents_ok [OF valid] by blast
  note lab = components_labels [OF valid labels(2)]
  let ?tau = "tau_of n (\<lambda>v. labels ! v) as"
  have tau: "MinimumTrailCount n as = Some ?tau"
    using MinimumTrailCount_ok [OF valid labels(1) _ lab(1)] labels(2) by (simp add: components_of_def)
  have trails: "\<forall>t \<in> set ?runs. trail t \<and> t \<noteq> []"
  proof
    fix t assume "t \<in> set ?runs"
    then obtain r where r: "r \<in> set rts" "t \<in> set (leg_runs (legs r) [])" by auto
    then have "walk (legs r)" using rts by (simp add: route_ok_def)
    from leg_runs_trails [OF this, of "[]"] r(2) show "trail t \<and> t \<noteq> []" by simp
  qed
  have "mset (concat ?runs) = routes_arcs rts"
    by (induction rts) (simp_all add: leg_runs_arcs)
  then have le: "?tau \<le> int (length ?runs)"
    using cover lab(2) by (intro tau_le_trails [OF trails]) simp_all
  have size: "size (routes_arcs rts) = length as" using cover by simp
  note budget = routes_budget [OF rts, unfolded size]
  have "ceilDiv (int (length as)) L \<le> int (length rts)"
    using budget(3) by (intro ceilDiv_le) (simp_all add: mult.commute)
  moreover have "ceilDiv (int (length as) + ?tau) (L + 1) \<le> int (length rts)"
    using budget(1) le by (intro ceilDiv_le) (simp_all add: mult.commute)
  moreover have "ceilDiv ?tau ((L + 1) div 2) \<le> int (length rts)"
    using budget(2) le by (intro ceilDiv_le) (simp_all add: mult.commute)
  moreover have "\<not> (L + 1) div 2 < 1" using L by simp
  ultimately show ?thesis
    using False L tau ceilDiv_nonneg by (auto simp: ComputeLowerBound_def Let_def maxInt_def)
qed

section \<open>Covers that repeat required arcs\<close>

definition leg_ends :: "leg \<Rightarrow> vertex_id \<times> vertex_id" where
  "leg_ends l = (leg_from l, leg_to l)"

lemma leg_ends_bridge: "leg_ends (bridge_leg (leg_from l) (leg_to l)) = leg_ends l"
  by (simp add: leg_ends_def bridge_leg_def)

lemma walk_ends: "map leg_ends xs = map leg_ends ys \<Longrightarrow> walk xs = walk ys"
proof (induction xs arbitrary: ys)
  case (Cons x xs)
  then obtain y ys' where ys: "ys = y # ys'" "leg_ends x = leg_ends y" "map leg_ends xs = map leg_ends ys'"
    by (cases ys) auto
  have "xs \<noteq> [] \<Longrightarrow> leg_from (hd xs) = leg_from (hd ys')" "xs = [] \<longleftrightarrow> ys' = []"
    using ys(3) by (cases xs; cases ys'; auto simp: leg_ends_def)+
  with Cons.IH [OF ys(3)] ys(1,2) show ?case by (auto simp: walk_Cons leg_ends_def)
qed simp

text \<open>
  Covers are compared by the endpoint pairs they visit. Any arcs whose pairs a walk visits can
  be made its required legs: the legs used get the arcs' identifiers, the others become bridges.
\<close>

definition pairs_of :: "arc multiset \<Rightarrow> (vertex_id \<times> vertex_id) multiset" where
  "pairs_of M = image_mset arc_ends M"

lemma relabel_legs:
  "pairs_of M \<subseteq># pairs_of (required_arcs ls) \<Longrightarrow>
   \<exists>ls'. map leg_ends ls' = map leg_ends ls \<and> required_arcs ls' = M"
proof (induction ls arbitrary: M)
  case Nil
  then show ?case by (simp add: pairs_of_def)
next
  case (Cons l ls)
  let ?pair = "arc_ends (leg_arc l)"
  show ?case
  proof (cases "leg_kind l = LegRequired \<and> ?pair \<in># pairs_of M")
    case True
    then obtain b where b: "b \<in># M" "arc_ends b = ?pair" by (auto simp: pairs_of_def)
    then obtain N where N: "M = add_mset b N" by (meson multi_member_split)
    have "pairs_of N \<subseteq># pairs_of (required_arcs ls)"
      using Cons.prems True b(2) by (simp add: N pairs_of_def required_arcs_def required_legs_def)
    with Cons.IH obtain ls' where ls': "map leg_ends ls' = map leg_ends ls" "required_arcs ls' = N" by blast
    let ?l = "\<lparr>leg_from = arc_from b, leg_to = arc_to b, leg_kind = LegRequired, leg_edge = arc_id b\<rparr>"
    have "leg_arc ?l = b" "leg_ends ?l = leg_ends l"
      using b(2) by (cases b, simp add: leg_arc_def, simp add: leg_arc_def leg_ends_def arc_ends_def)
    with ls' show ?thesis
      by (intro exI [of _ "?l # ls'"]) (simp add: N required_arcs_def required_legs_def)
  next
    case False
    have "pairs_of M \<subseteq># pairs_of (required_arcs ls)"
    proof (cases "leg_kind l")
      case LegRequired
      with False have "?pair \<notin># pairs_of M" by simp
      then have "pairs_of M - {#?pair#} = pairs_of M" by (rule diff_single_trivial)
      moreover have "pairs_of M \<subseteq># add_mset ?pair (pairs_of (required_arcs ls))"
        using Cons.prems LegRequired by (simp add: pairs_of_def required_arcs_def required_legs_def)
      ultimately show ?thesis by (metis add_mset_add_single subset_eq_diff_conv)
    qed (use Cons.prems in \<open>simp add: required_arcs_def required_legs_def\<close>)
    with Cons.IH obtain ls' where "map leg_ends ls' = map leg_ends ls" "required_arcs ls' = M" by blast
    then show ?thesis
      by (intro exI [of _ "bridge_leg (leg_from l) (leg_to l) # ls'"]) (simp add: leg_ends_bridge)
  qed
qed

text \<open>Legs with the same endpoints fall into routes of the same shape.\<close>

lemma regroup_routes:
  "map leg_ends ls = map leg_ends (concat (map legs rts)) \<Longrightarrow> \<forall>r \<in> set rts. route_ok L r \<Longrightarrow>
   \<exists>rts'. length rts' = length rts \<and> (\<forall>r \<in> set rts'. route_ok L r) \<and> concat (map legs rts') = ls"
proof (induction rts arbitrary: ls)
  case (Cons r rts)
  let ?k = "length (legs r)"
  have "map leg_ends (take ?k ls) = take ?k (map leg_ends ls)" "map leg_ends (drop ?k ls) = drop ?k (map leg_ends ls)"
    by (simp_all add: take_map drop_map)
  then have ends: "map leg_ends (take ?k ls) = map leg_ends (legs r)"
    "map leg_ends (drop ?k ls) = map leg_ends (concat (map legs rts))"
    unfolding Cons.prems(1) by simp_all
  from Cons.IH [OF ends(2)] Cons.prems(2) obtain rts' where
    rts': "length rts' = length rts" "\<forall>r \<in> set rts'. route_ok L r" "concat (map legs rts') = drop ?k ls" by auto
  have "route_ok L \<lparr>legs = take ?k ls\<rparr>"
    using Cons.prems(2) walk_ends [OF ends(1)] arg_cong [OF ends(1), of length] by (auto simp: route_ok_def)
  with rts' show ?case by (intro exI [of _ "\<lparr>legs = take ?k ls\<rparr> # rts'"]) simp
qed simp

lemma ComputeLowerBound_sound:
  assumes valid: "\<forall>e \<in> set as. unat (arc_from e) < n \<and> unat (arc_to e) < n" and L: "0 < L"
    and rts: "\<forall>r \<in> set rts. route_ok L r" and cover: "pairs_of (mset as) \<subseteq># pairs_of (routes_arcs rts)"
  shows "\<exists>lb. ComputeLowerBound n as L = Some lb \<and> 0 \<le> lb \<and> lb \<le> int (length rts)"
proof -
  obtain ls where ls: "map leg_ends ls = map leg_ends (concat (map legs rts))" "required_arcs ls = mset as"
    using relabel_legs cover unfolding routes_arcs_def by blast
  obtain rts' where rts': "length rts' = length rts" "\<forall>r \<in> set rts'. route_ok L r" "concat (map legs rts') = ls"
    using regroup_routes [OF ls(1) rts] by blast
  have "routes_arcs rts' = mset as" by (simp add: routes_arcs_def rts'(3) ls(2))
  from ComputeLowerBound_exact_cover [OF valid L rts'(2) this] show ?thesis unfolding rts'(1) .
qed

section \<open>Splitting fragments\<close>

lemma split_pieces_ok:
  assumes "0 < L"
  shows "split_pieces L es start k = (ps, k') \<Longrightarrow>
    concat (map frag_edges ps) = drop start es \<and> k' = k + int (length ps) \<and>
    (\<forall>f \<in> set ps. frag_edges f \<noteq> [] \<and> length (frag_edges f) \<le> L) \<and>
    (\<forall>i < length ps. frag_id (ps ! i) = k + int i)"
proof (induction "length es - start" arbitrary: start k ps k' rule: less_induct)
  case less
  show ?case
  proof (cases "start < length es")
    case False
    with less.prems show ?thesis by (subst (asm) split_pieces.simps) simp
  next
    case True
    obtain rest k1 where rest: "split_pieces L es (start + L) (k + 1) = (rest, k1)" by fastforce
    let ?p = "\<lparr>frag_edges = take (min (start + L) (length es) - start) (drop start es), frag_id = k\<rparr>"
    have ps: "ps = ?p # rest" "k' = k1"
      using less.prems True assms rest by (subst (asm) split_pieces.simps, simp add: Let_def)+
    have "length es - (start + L) < length es - start" using True assms by linarith
    note IH = less.hyps [OF this rest]
    have take: "take (min (start + L) (length es) - start) (drop start es) = take L (drop start es)"
      by (auto simp: min_def)
    have "drop start es = take L (drop start es) @ drop (start + L) es"
      by (metis append_take_drop_id drop_drop add.commute)
    with IH ps True assms show ?thesis by (auto simp: take nth_Cons' )
  qed
qed

lemma numbered_append:
  "numbered fs \<Longrightarrow> \<forall>i < length gs. frag_id (gs ! i) = int (length fs) + int i \<Longrightarrow> numbered (fs @ gs)"
  by (auto simp: numbered_def nth_append)

lemma split_one_ok:
  assumes L: "0 < L" and out: "numbered out" "\<forall>g \<in> set out. length (frag_edges g) \<le> L"
  shows "\<exists>out'. split_one L f (out, int (length out)) = (out', int (length out')) \<and> numbered out' \<and>
    (\<forall>g \<in> set out'. length (frag_edges g) \<le> L) \<and>
    concat (map frag_edges out') = concat (map frag_edges out) @ frag_edges f"
proof (cases "fragment_len f \<le> L")
  case True
  with out show ?thesis by (simp add: split_one_def numbered_snoc fragment_len_def)
next
  case False
  obtain ps k' where ps: "split_pieces L (frag_edges f) 0 (int (length out)) = (ps, k')" by fastforce
  from split_pieces_ok [OF L ps] False out ps show ?thesis
    by (auto simp: split_one_def numbered_append)
qed

lemma SplitFragments_ok:
  assumes L: "0 < maxLegs"
  shows "numbered (SplitFragmentsByMaxLegs fs maxLegs)"
    "\<forall>g \<in> set (SplitFragmentsByMaxLegs fs maxLegs). int (length (frag_edges g)) \<le> maxLegs"
    "concat (map frag_edges (SplitFragmentsByMaxLegs fs maxLegs)) = concat (map frag_edges fs)"
proof -
  let ?L = "nat maxLegs"
  have "numbered out \<Longrightarrow> \<forall>g \<in> set out. length (frag_edges g) \<le> ?L \<Longrightarrow>
    \<exists>out'. fold (split_one ?L) fs (out, int (length out)) = (out', int (length out')) \<and> numbered out' \<and>
      (\<forall>g \<in> set out'. length (frag_edges g) \<le> ?L) \<and>
      concat (map frag_edges out') = concat (map frag_edges out) @ concat (map frag_edges fs)" for out
  proof (induction fs arbitrary: out)
    case (Cons f fs)
    obtain out' where "split_one ?L f (out, int (length out)) = (out', int (length out'))" "numbered out'"
      "\<forall>g \<in> set out'. length (frag_edges g) \<le> ?L"
      "concat (map frag_edges out') = concat (map frag_edges out) @ frag_edges f"
      using split_one_ok [OF _ Cons.prems] L by auto
    with Cons.IH [of out'] show ?case by auto
  qed simp
  from this [of "[]"] L show "numbered (SplitFragmentsByMaxLegs fs maxLegs)"
    "\<forall>g \<in> set (SplitFragmentsByMaxLegs fs maxLegs). int (length (frag_edges g)) \<le> maxLegs"
    "concat (map frag_edges (SplitFragmentsByMaxLegs fs maxLegs)) = concat (map frag_edges fs)"
    by (force simp: SplitFragmentsByMaxLegs_def numbered_def)+
qed

section \<open>Properties\<close>

text \<open>
  C11: \<open>ComputeLowerBound\<close> is a lower bound: whatever nonempty continuous routes of at most
  \<open>maxLegs\<close> legs visit all required pairs on required legs, repeated visits included, their
  number is at least the bound.
\<close>

theorem ComputeLowerBound_bounds_covers:
  assumes "\<forall>e \<in> set required. unat (arc_from e) < n \<and> unat (arc_to e) < n" "0 < maxLegs"
    and "\<forall>r \<in> set rts. route_ok maxLegs r"
    and "image_mset arc_ends (mset required) \<subseteq># image_mset arc_ends (routes_arcs rts)"
  shows "\<exists>lb. ComputeLowerBound n required maxLegs = Some lb \<and> 0 \<le> lb \<and> lb \<le> int (length rts)"
  using ComputeLowerBound_sound [OF assms(1-3)] assms(4) by (simp add: pairs_of_def)

theorem ComputeLowerBound_bounds_covers_witness:
  "\<exists>lb. ComputeLowerBound 3 [Arc 0 0 1, Arc 1 1 2] 4 = Some lb \<and> lb \<le> 1"
proof -
  let ?r = "\<lparr>legs = fragmentLegs \<lparr>frag_edges = [Arc 0 0 1, Arc 1 1 2], frag_id = 0\<rparr>\<rparr>"
  have "route_ok 4 ?r" "routes_arcs [?r] = mset [Arc 0 0 1, Arc 1 1 2]"
    by (simp_all add: route_ok_def walk_fragmentLegs) (simp add: fragmentLegs_def)
  with ComputeLowerBound_bounds_covers [of "[Arc 0 0 1, Arc 1 1 2]" 3 4 "[?r]"] show ?thesis by auto
qed

text \<open>
  C28: \<open>RoutesToRequiredFragments\<close> reads the required runs back from continuous routes: nonempty
  trails, numbered in order, that hold the arcs of the required legs; a route of \<open>k\<close> legs
  yields at most \<open>(k + 1) div 2\<close> of them.
\<close>

theorem RoutesToRequiredFragments_correct:
  assumes "\<forall>r \<in> set rts. walk (legs r) \<and> int (length (legs r)) \<le> maxLegs" "0 \<le> maxLegs"
  shows "(\<forall>f \<in> set (RoutesToRequiredFragments rts). frag_edges f \<noteq> [] \<and> trail (frag_edges f)) \<and>
    (\<forall>i < length (RoutesToRequiredFragments rts). frag_id (RoutesToRequiredFragments rts ! i) = int i) \<and>
    mset (concat (map frag_edges (RoutesToRequiredFragments rts))) = routes_arcs rts \<and>
    int (length (RoutesToRequiredFragments rts)) \<le> int (length rts) * ((maxLegs + 1) div 2)"
proof -
  let ?fs = "RoutesToRequiredFragments rts" and ?runs = "concat (map (\<lambda>r. leg_runs (legs r) []) rts)"
  have runs: "map frag_edges ?fs = ?runs" "numbered ?fs" using RoutesToRequiredFragments_runs by simp_all
  have "trail t \<and> t \<noteq> []" if "t \<in> set ?runs" for t
    using that assms(1) leg_runs_trails [of _ "[]"] by auto
  then have "\<forall>f \<in> set ?fs. frag_edges f \<noteq> [] \<and> trail (frag_edges f)"
    by (metis (no_types, lifting) image_eqI list.set_map runs(1))
  moreover have "mset (concat ?runs) = routes_arcs rts" by (induction rts) (simp_all add: leg_runs_arcs)
  moreover have "int (length ?runs) \<le> int (length rts) * ((maxLegs + 1) div 2)"
    using assms(1)
  proof (induction rts)
    case (Cons r rts)
    have "2 * int (length (leg_runs (legs r) [])) \<le> maxLegs + 1"
      using leg_runs_length [of "legs r" "[]"] Cons.prems by simp
    then have "int (length (leg_runs (legs r) [])) \<le> (maxLegs + 1) div 2" by linarith
    with Cons show ?case by (simp add: algebra_simps)
  qed simp
  moreover have "length ?fs = length ?runs" using arg_cong [OF runs(1), of length] by simp
  ultimately show ?thesis using runs by (simp add: numbered_def)
qed

theorem RoutesToRequiredFragments_correct_witness:
  "mset (concat (map frag_edges (RoutesToRequiredFragments
     [\<lparr>legs = legs (fragmentToRoute \<lparr>frag_edges = [Arc 0 0 1], frag_id = 0\<rparr>) @ [bridge_leg 1 2]\<rparr>]))) = {#Arc 0 0 1#}"
proof -
  let ?r = "\<lparr>legs = legs (fragmentToRoute \<lparr>frag_edges = [Arc 0 0 1], frag_id = 0\<rparr>) @ [bridge_leg 1 2]\<rparr>"
  have "walk (legs ?r)" "int (length (legs ?r)) \<le> 2" "routes_arcs [?r] = {#Arc 0 0 1#}"
    by (simp_all add: fragmentToRoute_def fragmentLegs_def bridge_leg_def required_arcs_def required_legs_def leg_arc_def)
  with RoutesToRequiredFragments_correct [of "[?r]" 2] show ?thesis by simp
qed

text \<open>
  C29: \<open>SplitFragmentsByMaxLegs\<close> cuts fragments into pieces of at most \<open>maxLegs\<close> arcs, keeps
  their arcs in order, and renumbers the pieces.
\<close>

theorem SplitFragments_correct:
  assumes "0 < maxLegs"
  shows "(\<forall>g \<in> set (SplitFragmentsByMaxLegs fs maxLegs). int (length (frag_edges g)) \<le> maxLegs) \<and>
    concat (map frag_edges (SplitFragmentsByMaxLegs fs maxLegs)) = concat (map frag_edges fs) \<and>
    (\<forall>i < length (SplitFragmentsByMaxLegs fs maxLegs). frag_id (SplitFragmentsByMaxLegs fs maxLegs ! i) = int i)"
  using SplitFragments_ok [OF assms, of fs] by (simp add: numbered_def)

theorem SplitFragments_correct_witness:
  "concat (map frag_edges (SplitFragmentsByMaxLegs [\<lparr>frag_edges = [Arc 0 0 1, Arc 1 1 2], frag_id = 7\<rparr>] 1))
     = [Arc 0 0 1, Arc 1 1 2]"
  using SplitFragments_correct [of 1 "[\<lparr>frag_edges = [Arc 0 0 1, Arc 1 1 2], frag_id = 7\<rparr>]"] by simp

end
