(* ===== verification/Cover_Interface.thy ===== *)
theory Cover_Interface
  imports Plan_Validate Lower_Bound
begin

text \<open>
  The Go interface \<open>ArcCoverPlanner\<close> of \<open>internal/arccover/types.go\<close> as a locale: what the
  engine relies on when it walks the routes of a plan. A second locale adds a lower bound on
  covers, from which the meaning of \<open>PlanStats.Optimal\<close> follows.
\<close>

text \<open>The arguments a caller may pass: dense vertex indices and a positive leg limit.\<close>

definition cover_request :: "nat \<Rightarrow> arc list \<Rightarrow> int \<Rightarrow> bool" where
  "cover_request n as L \<longleftrightarrow> n < 2 ^ 32 \<and> length as \<le> 2 ^ 32 \<and> 0 < L \<and> (\<forall>a \<in> set as. valid_arc n a)"

locale arc_cover_planner =
  fixes plan :: "poll \<Rightarrow> nat \<Rightarrow> arc list \<Rightarrow> int \<Rightarrow> plan option"
  assumes plan_returns: "cover_request n as L \<Longrightarrow> \<exists>p. plan ctx n as L = Some p"
    and plan_covers: "cover_request n as L \<Longrightarrow> plan ctx n as L = Some p \<Longrightarrow>
      pairs_of (routes_arcs (routes p)) = pairs_of (mset as)"
    and plan_walks: "cover_request n as L \<Longrightarrow> plan ctx n as L = Some p \<Longrightarrow>
      r \<in> set (routes p) \<Longrightarrow> route_ok L r"
    and plan_indices: "cover_request n as L \<Longrightarrow> plan ctx n as L = Some p \<Longrightarrow>
      r \<in> set (routes p) \<Longrightarrow> l \<in> set (legs r) \<Longrightarrow> unat (leg_from l) < n \<and> unat (leg_to l) < n"
begin

lemma leg_for_pair:
  assumes "cover_request n as L" "plan ctx n as L = Some p" "a \<in> set as"
  shows "\<exists>r \<in> set (routes p). \<exists>l \<in> set (legs r). leg_from l = arc_from a \<and> leg_to l = arc_to a"
proof -
  have "arc_ends a \<in># pairs_of (mset as)" using assms(3) by (auto simp: pairs_of_def)
  then have "arc_ends a \<in># pairs_of (routes_arcs (routes p))" by (simp only: plan_covers [OF assms(1,2)])
  then obtain b where b: "b \<in># routes_arcs (routes p)" "arc_ends b = arc_ends a" by (auto simp: pairs_of_def)
  then obtain r l where "r \<in> set (routes p)" "l \<in> set (legs r)" "b = leg_arc l"
    by (auto simp: routes_arcs_def required_arcs_def required_legs_def)
  with b(2) show ?thesis by (force simp: leg_arc_def arc_ends_def)
qed

lemma required_leg_count:
  assumes "cover_request n as L" "plan ctx n as L = Some p"
  shows "length (required_legs (plan_legs p)) = length as"
proof -
  have "size (pairs_of (routes_arcs (routes p))) = size (pairs_of (mset as))"
    by (simp only: plan_covers [OF assms])
  then show ?thesis by (simp add: pairs_of_def routes_arcs_def required_arcs_def plan_legs_def)
qed

lemma enough_routes:
  assumes "cover_request n as L" "plan ctx n as L = Some p"
  shows "int (length as) \<le> int (length (routes p)) * L"
proof -
  have "int (size (routes_arcs (routes p))) \<le> int (length (routes p)) * L"
    using routes_budget(3) plan_walks [OF assms] by blast
  moreover have "size (routes_arcs (routes p)) = length as"
    using arg_cong [OF plan_covers [OF assms], of size] by (simp add: pairs_of_def)
  ultimately show ?thesis by simp
qed

end

text \<open>
  A planner together with a bound that no cover undercuts. Covers are compared by the pairs
  they visit, so plans of the caller's own arcs and of renumbered arcs are on a par.
\<close>

locale bounded_cover_planner = arc_cover_planner plan
  for plan :: "poll \<Rightarrow> nat \<Rightarrow> arc list \<Rightarrow> int \<Rightarrow> plan option" +
  fixes bound :: "nat \<Rightarrow> arc list \<Rightarrow> int \<Rightarrow> int option"
  assumes bound_sound: "cover_request n as L \<Longrightarrow> bound n as L = Some b \<Longrightarrow>
      (\<And>r. r \<in> set rts \<Longrightarrow> route_ok L r) \<Longrightarrow> pairs_of (mset as) \<subseteq># pairs_of (routes_arcs rts) \<Longrightarrow>
      b \<le> int (length rts)"
begin

lemma bound_below_plan:
  assumes "cover_request n as L" "plan ctx n as L = Some p" "bound n as L = Some b"
  shows "b \<le> int (length (routes p))"
  using bound_sound [OF assms(1,3)] plan_walks [OF assms(1,2)] plan_covers [OF assms(1,2)] by simp

lemma bound_met_is_minimal:
  assumes "cover_request n as L" "plan ctx n as L = Some p" "bound n as L = Some (int (length (routes p)))"
    and "\<And>r. r \<in> set rts \<Longrightarrow> route_ok L r" "pairs_of (mset as) \<subseteq># pairs_of (routes_arcs rts)"
  shows "length (routes p) \<le> length rts"
  using bound_sound [OF assms(1,3,4,5)] by simp

end

end
