(* ===== verification/Dense_Planner.thy ===== *)
theory Dense_Planner
  imports Cover_Interface
begin

text \<open>
  \<open>DensePlan\<close> of \<open>internal/arccover/dense.go\<close> and \<open>DensePlanner\<close> of
  \<open>internal/arccover/planner.go\<close>, the production implementation of the interface
  \<open>ArcCoverPlanner\<close>. The interface is a locale; its interpretation shows that the planner
  keeps the contract, and coverage facts follow from the contract alone.
\<close>

section \<open>The code\<close>

definition DensePlan :: "poll \<Rightarrow> nat \<Rightarrow> nat \<Rightarrow> arc list \<Rightarrow> int \<Rightarrow> int \<Rightarrow> (nat \<times> plan) option" where
  "DensePlan ctx k n required maxLegs window = do {
     g \<leftarrow> NewMutableGraph n required;
     (k', frags, _) \<leftarrow> DenseRouteFirst ctx k g maxLegs window;
     reqSet \<leftarrow> NewRequiredSet n required;
     rts \<leftarrow> PackFragments frags maxLegs reqSet;
     Some (k', \<lparr>routes = rts, stats = zero_stats\<lparr>required_edges := int (length required),
       provider_calls := int (length rts), branch := ''dense''\<rparr>\<rparr>) }"

definition NewDensePlanner :: "config \<Rightarrow> config" where
  "NewDensePlanner cfg =
     (let cfg1 = (if dense_candidate_window cfg \<le> 0
                  then cfg\<lparr>dense_candidate_window := dense_candidate_window DefaultConfig\<rparr> else cfg)
      in if max_legs cfg1 \<le> 0 then cfg1\<lparr>max_legs := 17\<rparr> else cfg1)"

text \<open>The \<open>error\<close> result of \<open>Plan\<close> is always \<open>nil\<close>, so the model returns the plan only.\<close>

definition effective_max_legs :: "config \<Rightarrow> int \<Rightarrow> int" where
  "effective_max_legs cfg maxLegs0 =
     (let m1 = (if maxLegs0 \<le> 0 then max_legs cfg else maxLegs0) in if m1 \<le> 0 then 17 else m1)"

definition Plan :: "config \<Rightarrow> poll \<Rightarrow> nat \<Rightarrow> arc list \<Rightarrow> int \<Rightarrow> plan option" where
  "Plan cfg ctx n required0 maxLegs0 =
     (let maxLegs = effective_max_legs cfg maxLegs0 in
      if length required0 = 0 then Some \<lparr>routes = [], stats = zero_stats\<rparr>
      else let required = NormalizeRequired required0;
               window = (if dense_candidate_window cfg \<le> 0 then 8 else dense_candidate_window cfg)
      in do {
        lb \<leftarrow> ComputeLowerBound n required maxLegs;
        (k, p) \<leftarrow> DensePlan ctx 0 n required maxLegs window;
        let st1 = (stats p)\<lparr>lower_bound := lb, branch := ''dense''\<rparr>;
        let st2 = (if ctx k then st1\<lparr>cancelled := True\<rparr> else st1);
        FinalizePlan (p\<lparr>stats := st2\<rparr>) required maxLegs })"

section \<open>DensePlan\<close>

lemma arcs_ok_Normalize:
  assumes "\<forall>a \<in> set as. valid_arc n a" "length as \<le> 2 ^ 32"
  shows "arcs_ok n (NormalizeRequired as)"
proof -
  have "unat (arc_from a) < n \<and> unat (arc_to a) < n" if "a \<in> set (NormalizeRequired as)" for a
  proof -
    from that have "arc_ends a \<in> arc_ends ` set as" using set_ends_NormalizeRequired by blast
    then obtain b where "b \<in> set as" "arc_ends a = arc_ends b" by blast
    with assms(1) show ?thesis by (auto simp: arc_ends_def valid_arc_def)
  qed
  with assms(2) show ?thesis by (simp add: arcs_ok_def NormalizeRequired_positions)
qed

lemma fragments_packable:
  assumes fs: "fragments_ok L fs" and arcs: "frag_arcs fs = mset required" and valid: "\<forall>a \<in> set required. valid_arc n a"
  shows "packable n (nat (L + 1)) fs" "\<forall>f \<in> set fs. trail (frag_edges f)"
proof -
  have "set (concat (map frag_edges fs)) = set required"
    using arcs by (metis frag_arcs_def set_mset_mset)
  then have sub: "a \<in> set required" if "f \<in> set fs" "a \<in> set (frag_edges f)" for f a
    using that by auto
  have "unat (frag_from f) < n \<and> unat (frag_to f) < n" if "f \<in> set fs" "frag_edges f \<noteq> []" for f
    using sub [OF that(1) hd_in_set [OF that(2)]] sub [OF that(1) last_in_set [OF that(2)]] valid
    by (auto simp: frag_from_def frag_to_def valid_arc_def)
  with fs show "packable n (nat (L + 1)) fs" by (fastforce simp: packable_def fragments_ok_def fragment_ok_def)
  show "\<forall>f \<in> set fs. trail (frag_edges f)" using fs by (simp add: fragments_ok_def fragment_ok_def)
qed

lemma frag_vertices_arcs: "frag_arcs fs = mset required \<Longrightarrow> frag_vertices fs = arc_vertices required"
proof -
  assume "frag_arcs fs = mset required"
  then have "set (concat (map frag_edges fs)) = set required" by (metis frag_arcs_def set_mset_mset)
  moreover have "frag_vertices fs = arc_vertices (concat (map frag_edges fs))"
    by (auto simp: frag_vertices_def arc_vertices_def)
  ultimately show ?thesis by (simp add: arc_vertices_def)
qed

lemma DensePlan_ok:
  assumes ok: "arcs_ok n required" and n: "n < 2 ^ 32" and L: "0 < L" and ne: "required \<noteq> []"
  shows "\<exists>k' rts. DensePlan ctx k n required L w = Some (k', \<lparr>routes = rts, stats = zero_stats\<lparr>
       required_edges := int (length required), provider_calls := int (length rts), branch := ''dense''\<rparr>\<rparr>) \<and>
     (\<forall>r \<in> set rts. route_ok L r \<and> legs_within (arc_vertices required) (legs r)) \<and>
     joinless (nat (L + 1)) rts \<and> routes_arcs rts = mset required"
proof -
  have valid: "\<forall>a \<in> set required. valid_arc n a" using ok by (simp add: arcs_ok_def valid_arc_def)
  have npos: "0 < n" using valid ne by (cases required) (auto simp: valid_arc_def)
  obtain g where g: "NewMutableGraph n required = Some g" "graph_ok n required g" "alive_arcs g = mset required"
    using NewMutableGraph_ok [OF ok] by blast
  obtain k' fs g' where fs: "DenseRouteFirst ctx k g L w = Some (k', fs, g')" "fragments_ok L fs" "frag_arcs fs = mset required"
    using DenseRouteFirst_ok [OF n L g(2,3)] by blast
  obtain rs where rs: "NewRequiredSet n required = Some rs" "represents rs n (arc_ends ` set required)"
    using NewRequiredSet_represents [OF valid] by blast
  note pk = fragments_packable [OF fs(2,3) valid]
  have "pack_vertices rs fs = Some n" using rs(2) npos by (simp add: pack_vertices_def represents_def)
  from PackFragments_ok [OF pk this L Contains_represents [OF rs(2)]] obtain rts where
    "PackFragments fs L rs = Some rts" "\<forall>r \<in> set rts. route_ok L r \<and> legs_within (frag_vertices fs) (legs r)"
    "joinless (nat (L + 1)) rts" "routes_arcs rts = frag_arcs fs" by blast
  with g(1) fs rs(1) frag_vertices_arcs [OF fs(3)] show ?thesis by (simp add: DensePlan_def)
qed

section \<open>Plan\<close>

lemma effective_max_legs_pos: "0 < effective_max_legs cfg m"
  by (simp add: effective_max_legs_def Let_def)

text \<open>The complete result of \<open>Plan\<close>.\<close>

definition planned :: "nat \<Rightarrow> arc list \<Rightarrow> int \<Rightarrow> plan \<Rightarrow> bool" where
  "planned n required L p \<longleftrightarrow>
     (\<forall>r \<in> set (routes p). route_ok L r \<and> legs_within (arc_vertices required) (legs r)) \<and>
     joinless (nat (L + 1)) (routes p) \<and> routes_arcs (routes p) = mset required \<and>
     required_edges (stats p) = int (length required) \<and>
     provider_calls (stats p) = int (length (routes p)) \<and>
     bridge_edges (stats p) = int (length (bridge_legs (plan_legs p))) \<and>
     duplicate_required_edges (stats p) =
       int (length (duplicate_bridges (arc_ends ` set required) (plan_legs p))) \<and>
     single_pair_fallbacks (stats p) = 0 \<and>
     ComputeLowerBound n required L = Some (lower_bound (stats p)) \<and>
     0 \<le> lower_bound (stats p) \<and> lower_bound (stats p) \<le> provider_calls (stats p) \<and>
     (optimal (stats p) \<longrightarrow> provider_calls (stats p) = lower_bound (stats p))"

lemma Plan_ok:
  assumes valid: "\<forall>a \<in> set as. valid_arc n a" and n: "n < 2 ^ 32" and m: "length as \<le> 2 ^ 32"
  shows "\<exists>p. Plan cfg ctx n as maxLegs = Some p \<and>
    planned n (NormalizeRequired as) (effective_max_legs cfg maxLegs) p"
proof (cases "as = []")
  case True
  then have "NormalizeRequired as = []" by (metis length_0_conv length_NormalizeRequired)
  with True show ?thesis
    by (simp add: Plan_def planned_def zero_stats_def joinless_def plan_legs_def bridge_legs_def
        duplicate_bridges_def ComputeLowerBound_def Let_def)
next
  case False
  let ?as = "NormalizeRequired as" and ?L = "effective_max_legs cfg maxLegs"
  let ?w = "if dense_candidate_window cfg \<le> 0 then 8 else dense_candidate_window cfg"
  note L = effective_max_legs_pos [of cfg maxLegs]
  have arcs: "arcs_ok n ?as" by (rule arcs_ok_Normalize [OF valid m])
  have ne: "?as \<noteq> []" using False by (metis length_0_conv length_NormalizeRequired)
  from DensePlan_ok [OF arcs n L ne, of ctx 0 ?w] obtain k rts where
    dp: "DensePlan ctx 0 n ?as ?L ?w = Some (k, \<lparr>routes = rts, stats = zero_stats\<lparr>
       required_edges := int (length ?as), provider_calls := int (length rts), branch := ''dense''\<rparr>\<rparr>)"
    and rts: "\<forall>r \<in> set rts. route_ok ?L r \<and> legs_within (arc_vertices ?as) (legs r)"
      "joinless (nat (?L + 1)) rts" "routes_arcs rts = mset ?as" by blast
  have ends: "\<forall>e \<in> set ?as. unat (arc_from e) < n \<and> unat (arc_to e) < n" using arcs by (simp add: arcs_ok_def)
  obtain lb where lb: "ComputeLowerBound n ?as ?L = Some lb" "0 \<le> lb" "lb \<le> int (length rts)"
    using ComputeLowerBound_sound [OF ends L, of rts] rts by auto
  let ?st = "zero_stats\<lparr>required_edges := int (length as), provider_calls := int (length rts),
      branch := ''dense'', lower_bound := lb, branch := ''dense''\<rparr>"
  let ?p = "\<lparr>routes = rts, stats = (if ctx k then ?st\<lparr>cancelled := True\<rparr> else ?st)\<rparr>"
  have ids: "ids_are_positions ?as" "length ?as \<le> 2 ^ 32" using arcs by (simp_all add: arcs_ok_def)
  have "FinalizePlan ?p ?as ?L = Some (?p\<lparr>stats := stats_of ?p ?as\<rparr>)"
    using rts by (intro FinalizePlan_ok [OF ids]) simp_all
  then have "Plan cfg ctx n as maxLegs = Some (?p\<lparr>stats := stats_of ?p ?as\<rparr>)"
    using False dp lb(1) by (simp add: Plan_def Let_def cong: if_cong)
  moreover have "planned n ?as ?L (?p\<lparr>stats := stats_of ?p ?as\<rparr>)"
    using rts lb by (simp add: planned_def stats_of_def zero_stats_def plan_legs_def Let_def)
  ultimately show ?thesis by blast
qed

section \<open>The planner keeps the contract\<close>

definition dense_bound :: "nat \<Rightarrow> arc list \<Rightarrow> int \<Rightarrow> int option" where
  "dense_bound n as L = ComputeLowerBound n (NormalizeRequired as) L"

lemma effective_given: "0 < L \<Longrightarrow> effective_max_legs cfg L = L"
  by (simp add: effective_max_legs_def Let_def)

lemma pairs_of_Normalize: "pairs_of (mset (NormalizeRequired as)) = pairs_of (mset as)"
  by (simp add: pairs_of_def mset_ends_NormalizeRequired)

lemma Plan_request:
  assumes "cover_request n as L"
  shows "\<exists>p. Plan cfg ctx n as L = Some p \<and> planned n (NormalizeRequired as) L p"
  using assms Plan_ok [of as n cfg ctx L] by (simp add: cover_request_def effective_given)

lemma planned_indices:
  assumes "cover_request n as L" "planned n (NormalizeRequired as) L p" "r \<in> set (routes p)" "l \<in> set (legs r)"
  shows "unat (leg_from l) < n \<and> unat (leg_to l) < n"
proof -
  have "arcs_ok n (NormalizeRequired as)" using assms(1) by (simp add: cover_request_def arcs_ok_Normalize)
  with assms(2-4) show ?thesis by (fastforce simp: planned_def legs_within_def arc_vertices_def arcs_ok_def)
qed

interpretation dense: bounded_cover_planner "Plan cfg" dense_bound for cfg
proof
  fix ctx n as L p r l
  assume req: "cover_request n as L"
  obtain q where q: "Plan cfg ctx n as L = Some q" "planned n (NormalizeRequired as) L q"
    using Plan_request [OF req] by blast
  show "\<exists>p. Plan cfg ctx n as L = Some p" using q by blast
  assume "Plan cfg ctx n as L = Some p"
  with q have p: "planned n (NormalizeRequired as) L p" by simp
  then show "pairs_of (routes_arcs (routes p)) = pairs_of (mset as)"
    by (simp add: planned_def pairs_of_Normalize)
  assume r: "r \<in> set (routes p)"
  then show "route_ok L r" using p by (simp add: planned_def)
  assume "l \<in> set (legs r)"
  then show "unat (leg_from l) < n \<and> unat (leg_to l) < n" by (rule planned_indices [OF req p r])
next
  fix n as L b rts
  assume req: "cover_request n as L" and b: "dense_bound n as L = Some b"
    and rts: "\<And>r. r \<in> set rts \<Longrightarrow> route_ok L r" and cover: "pairs_of (mset as) \<subseteq># pairs_of (routes_arcs rts)"
  have "arcs_ok n (NormalizeRequired as)" using req by (simp add: cover_request_def arcs_ok_Normalize)
  then have "\<forall>e \<in> set (NormalizeRequired as). unat (arc_from e) < n \<and> unat (arc_to e) < n"
    by (simp add: arcs_ok_def)
  from ComputeLowerBound_sound [OF this, of L rts] req rts cover b show "b \<le> int (length rts)"
    by (auto simp: cover_request_def dense_bound_def pairs_of_Normalize)
qed

section \<open>Properties\<close>

text \<open>
  C1: for vertex indices below \<open>n\<close> and a positive leg limit \<open>Plan\<close> returns, whatever the
  context answers; every route is a nonempty continuous walk of at most \<open>maxLegs\<close> legs, and
  the required legs visit each requested pair exactly as often as it was requested.
\<close>

theorem Plan_covers:
  assumes "n < 2 ^ 32" "length as \<le> 2 ^ 32" "\<forall>a \<in> set as. unat (arc_from a) < n \<and> unat (arc_to a) < n" "0 < maxLegs"
  shows "\<exists>p. Plan cfg ctx n as maxLegs = Some p \<and>
    (\<forall>r \<in> set (routes p). legs r \<noteq> [] \<and> walk (legs r) \<and> int (length (legs r)) \<le> maxLegs) \<and>
    mset (map leg_ends (filter (\<lambda>l. leg_kind l = LegRequired) (plan_legs p))) = image_mset arc_ends (mset as)"
proof -
  have req: "cover_request n as maxLegs" using assms by (simp add: cover_request_def valid_arc_def)
  obtain p where p: "Plan cfg ctx n as maxLegs = Some p" using dense.plan_returns [OF req] by blast
  have "leg_ends = arc_ends \<circ> leg_arc" by (rule ext) (simp add: leg_ends_def arc_ends_def leg_arc_def)
  then have "mset (map leg_ends (required_legs (plan_legs p))) = pairs_of (routes_arcs (routes p))"
    by (simp add: pairs_of_def routes_arcs_def required_arcs_def plan_legs_def multiset.map_comp)
  with p dense.plan_walks [OF req p] dense.plan_covers [OF req p] show ?thesis
    by (simp add: route_ok_def required_legs_def pairs_of_def)
qed

theorem Plan_covers_witness:
  "\<exists>p. Plan DefaultConfig (\<lambda>_. False) 4 [Arc 0 0 1, Arc 0 2 3, Arc 0 1 2] 2 = Some p \<and>
     (\<forall>r \<in> set (routes p). int (length (legs r)) \<le> 2) \<and>
     mset (map leg_ends (filter (\<lambda>l. leg_kind l = LegRequired) (plan_legs p))) = {#(0, 1), (2, 3), (1, 2)#}"
  using Plan_covers [of 4 "[Arc 0 0 1, Arc 0 2 3, Arc 0 1 2]" 2 DefaultConfig "\<lambda>_. False"]
  by (auto simp: arc_ends_def)



text \<open>
  C3: the flag \<open>Optimal\<close> tells the truth: when a plan carries it, no set of nonempty continuous
  routes of at most \<open>maxLegs\<close> legs that visits all requested pairs on required legs has fewer
  routes than the plan.
\<close>

theorem Plan_optimal_is_minimal:
  assumes "n < 2 ^ 32" "length as \<le> 2 ^ 32" "\<forall>a \<in> set as. unat (arc_from a) < n \<and> unat (arc_to a) < n" "0 < maxLegs"
    and "Plan cfg ctx n as maxLegs = Some p" "optimal (stats p)"
    and "\<forall>r \<in> set rts. route_ok maxLegs r"
      "image_mset arc_ends (mset as) \<subseteq># image_mset arc_ends (routes_arcs rts)"
  shows "length (routes p) \<le> length rts"
proof -
  have req: "cover_request n as maxLegs" using assms(1-4) by (simp add: cover_request_def valid_arc_def)
  have "planned n (NormalizeRequired as) maxLegs p"
    using Plan_request [OF req, of cfg ctx] assms(5) by auto
  then have "dense_bound n as maxLegs = Some (int (length (routes p)))"
    using assms(6) by (simp add: planned_def dense_bound_def)
  then show ?thesis
    using dense.bound_met_is_minimal [OF req assms(5)] assms(7,8) by (auto simp: pairs_of_def)
qed

theorem Plan_optimal_is_minimal_witness:
  "\<exists>p. Plan DefaultConfig (\<lambda>_. False) 3 [Arc 0 0 1, Arc 0 1 2] 2 = Some p \<and> optimal (stats p) \<and>
     length (routes p) \<le> length [\<lparr>legs = fragmentLegs \<lparr>frag_edges = [Arc 0 0 1, Arc 1 1 2], frag_id = 0\<rparr>\<rparr>]"
proof -
  let ?as = "[Arc 0 0 1, Arc 0 1 2]"
    and ?r = "\<lparr>legs = fragmentLegs \<lparr>frag_edges = [Arc 0 0 1, Arc 1 1 2], frag_id = 0\<rparr>\<rparr>"
  have "map_option (\<lambda>p. optimal (stats p)) (Plan DefaultConfig (\<lambda>_. False) 3 ?as 2) = Some True" by code_simp
  then obtain p where p: "Plan DefaultConfig (\<lambda>_. False) 3 ?as 2 = Some p" "optimal (stats p)" by auto
  have "route_ok 2 ?r" by (simp add: route_ok_def walk_fragmentLegs) (simp add: fragmentLegs_def)
  with Plan_optimal_is_minimal [OF _ _ _ _ p, of "[?r]"] p show ?thesis by (auto simp: arc_ends_def)
qed

end
