(* ===== verification/Arc_Scenarios.thy ===== *)
theory Arc_Scenarios
  imports Dense_Planner
begin

text \<open>
  \<open>internal/arccover/scenario.go\<close>: the families of required arcs that tests and benchmarks plan.
  Vertex counts are naturals (a negative count makes Go's \<open>make\<close> panic or the result empty);
  densities are reals, without the rounding of \<open>float64\<close>. The lemmas say that every scenario is a
  request the planner accepts, with pairwise different arcs numbered in order.
\<close>

section \<open>The code\<close>

text \<open>The loops append an arc and count up its identifier.\<close>

definition append_arc :: "nat \<times> nat \<Rightarrow> edge_id \<times> arc list \<Rightarrow> edge_id \<times> arc list" where
  "append_arc = (\<lambda>(u, v) (ident, out). (ident + 1, out @ [Arc ident (of_nat u) (of_nat v)]))"

definition CompleteRequired :: "nat \<Rightarrow> arc list" where
  "CompleteRequired n =
     snd (fold (\<lambda>u. fold (\<lambda>v s. if u = v then s else append_arc (u, v) s) [0..<n]) [0..<n] (0, []))"

definition shuffle_step :: "nat \<Rightarrow> 64 word \<times> nat list \<Rightarrow> 64 word \<times> nat list" where
  "shuffle_step i = (\<lambda>(state0, idxs).
     let state = splitmix64 state0;
         j = unat (state mod of_nat (i + 1))
     in (state, idxs[i := idxs ! j, j := idxs ! i]))"

definition shuffle_indices :: "nat \<Rightarrow> 64 word \<Rightarrow> nat list" where
  "shuffle_indices pairs seed = snd (fold shuffle_step (rev [1..<pairs]) (seed, [0..<pairs]))"

text \<open>The size of a sample: rounded half up, at least one, at most everything.\<close>

definition sample_size :: "nat \<Rightarrow> real \<Rightarrow> nat" where
  "sample_size pairs density =
     (let t0 = nat \<lfloor>real pairs * density + 0.5\<rfloor>;
          t1 = (if t0 < 1 then 1 else t0)
      in if t1 > pairs then pairs else t1)"

definition pair_at :: "nat \<Rightarrow> nat \<Rightarrow> nat \<times> nat" where
  "pair_at n idx =
     (let u = idx div (n - 1);
          off = idx mod (n - 1)
      in (u, if off \<ge> u then off + 1 else off))"

definition RandomMissRequired :: "nat \<Rightarrow> real \<Rightarrow> 64 word \<Rightarrow> arc list" where
  "RandomMissRequired n density seed =
     (if density \<ge> 1 then CompleteRequired n
      else if density \<le> 0 then []
      else let pairs = n * (n - 1);
               target = sample_size pairs density;
               idxs = shuffle_indices pairs seed
           in map (\<lambda>t. let (u, v) = pair_at n (idxs ! t) in Arc (of_nat t) (of_nat u) (of_nat v)) [0..<target])"

definition RowMissRequired :: "nat \<Rightarrow> real \<Rightarrow> 64 word \<Rightarrow> arc list" where
  "RowMissRequired n rowDensity seed =
     (if rowDensity \<le> 0 then []
      else let rows = shuffle_indices n seed;
               k = sample_size n rowDensity
           in snd (fold (\<lambda>i. fold (\<lambda>v s. if v = rows ! i then s else append_arc (rows ! i, v) s) [0..<n]) [0..<k] (0, [])))"

text \<open>\<open>make\<close> with capacity \<open>n - 1\<close> panics for \<open>n = 0\<close>.\<close>

definition OutStarRequired :: "nat \<Rightarrow> arc list option" where
  "OutStarRequired n =
     (if n = 0 then None else Some (map (\<lambda>v. Arc (of_nat (v - 1)) 0 (of_nat v)) [1..<n]))"

definition InStarRequired :: "nat \<Rightarrow> arc list option" where
  "InStarRequired n =
     (if n = 0 then None else Some (map (\<lambda>v. Arc (of_nat (v - 1)) (of_nat v) 0) [1..<n]))"

definition PathRequired :: "nat \<Rightarrow> arc list" where
  "PathRequired n =
     (if n < 2 then [] else map (\<lambda>i. Arc (of_nat i) (of_nat i) (of_nat (i + 1))) [0..<n - 1])"

definition CycleRequired :: "nat \<Rightarrow> arc list" where
  "CycleRequired n =
     (if n < 2 then [] else PathRequired n @ [Arc (of_nat (n - 1)) (of_nat (n - 1)) 0])"

definition CycleWithChordRequired :: "nat \<Rightarrow> arc list" where
  "CycleWithChordRequired n =
     (let out = CycleRequired n
      in if n \<ge> 4 then out @ [Arc (of_nat (length out)) 0 (of_nat (n div 2))] else out)"

definition MultiComponentPaths :: "nat \<Rightarrow> nat \<Rightarrow> nat \<times> arc list" where
  "MultiComponentPaths k pathLen =
     (k * (pathLen + 1),
      snd (fold (\<lambda>c. fold (\<lambda>i. append_arc (c * (pathLen + 1) + i, c * (pathLen + 1) + i + 1)) [0..<pathLen]) [0..<k] (0, [])))"

section \<open>Numbered lists of pairs\<close>

text \<open>Every scenario numbers the arcs of a list of pairs.\<close>

definition number_arcs :: "(nat \<times> nat) list \<Rightarrow> arc list" where
  "number_arcs ps = snd (fold append_arc ps (0, []))"

lemma append_arcs: "fold append_arc ps (of_nat (length out), out) =
    (of_nat (length out + length ps),
     out @ map (\<lambda>t. Arc (of_nat (length out + t)) (of_nat (fst (ps ! t))) (of_nat (snd (ps ! t)))) [0..<length ps])"
proof (induction ps rule: rev_induct)
  case (snoc p ps)
  then show ?case by (cases p) (simp add: append_arc_def nth_append)
qed simp

lemma number_arcs_eq: "number_arcs ps = map (\<lambda>t. Arc (of_nat t) (of_nat (fst (ps ! t))) (of_nat (snd (ps ! t)))) [0..<length ps]"
  using append_arcs [of ps "[]"] by (simp add: number_arcs_def)

lemma fold_skip: "fold (\<lambda>x s. if P x then s else f x s) xs s = fold f (filter (\<lambda>x. \<not> P x) xs) s"
  by (induction xs arbitrary: s) auto

lemma fold_nested: "fold (\<lambda>x. fold (f x) (g x)) xs s = fold (\<lambda>(x, y). f x y) (concat (map (\<lambda>x. map (Pair x) (g x)) xs)) s"
  by (induction xs arbitrary: s) (simp_all add: fold_map comp_def)

definition pairs_ok :: "nat \<Rightarrow> (nat \<times> nat) list \<Rightarrow> bool" where
  "pairs_ok n ps \<longleftrightarrow> distinct ps \<and> (\<forall>(u, v) \<in> set ps. u < n \<and> v < n \<and> u \<noteq> v)"

lemma pairs_ok_length:
  assumes "pairs_ok n ps"
  shows "length ps \<le> n * n"
proof -
  have "set ps \<subseteq> {..<n} \<times> {..<n}" using assms by (auto simp: pairs_ok_def)
  then have "card (set ps) \<le> n * n" using card_mono [of "{..<n} \<times> {..<n}" "set ps"] by simp
  then show ?thesis using assms by (simp add: pairs_ok_def distinct_card)
qed

text \<open>The contract: a request within the planner's bounds, identifiers equal to positions, arcs
  with pairwise different endpoints and no loops.\<close>

definition scenario_ok :: "nat \<Rightarrow> arc list \<Rightarrow> bool" where
  "scenario_ok n as \<longleftrightarrow> (\<forall>L > 0. cover_request n as L) \<and> (\<forall>t < length as. arc_id (as ! t) = of_nat t) \<and>
     distinct (map arc_ends as) \<and> (\<forall>a \<in> set as. arc_from a \<noteq> arc_to a)"

lemma length_number_arcs [simp]: "length (number_arcs ps) = length ps"
  by (simp add: number_arcs_eq)

lemma number_arcs_nth: "t < length ps \<Longrightarrow> number_arcs ps ! t = Arc (of_nat t) (of_nat (fst (ps ! t))) (of_nat (snd (ps ! t)))"
  by (simp add: number_arcs_eq)

lemma vertex_eq_iff: "u < n \<Longrightarrow> v < n \<Longrightarrow> n \<le> 2 ^ 16 \<Longrightarrow> (of_nat u :: vertex_id) = of_nat v \<longleftrightarrow> u = v"
  by (rule of_nat_eq_word_iff) auto

lemma number_arcs_ok:
  assumes ok: "pairs_ok n ps" and n: "n \<le> 2 ^ 16"
  shows "scenario_ok n (number_arcs ps)"
proof -
  have in_range: "fst (ps ! t) < n" "snd (ps ! t) < n" "fst (ps ! t) \<noteq> snd (ps ! t)" if "t < length ps" for t
    using ok nth_mem [OF that] by (cases "ps ! t"; auto simp: pairs_ok_def)+
  have "length ps \<le> 2 ^ 16 * 2 ^ 16" using pairs_ok_length [OF ok] mult_le_mono [OF n n] by linarith
  then have len: "length ps \<le> 2 ^ 32" by simp
  have unat: "unat (of_nat i :: vertex_id) = i" if "i < n" for i
    using that n by (simp add: unat_of_nat take_bit_nat_eq_self)
  have valid: "\<forall>a \<in> set (number_arcs ps). valid_arc n a"
    using in_range unat by (auto simp: number_arcs_eq valid_arc_def)
  have loop: "\<forall>a \<in> set (number_arcs ps). arc_from a \<noteq> arc_to a"
    using in_range vertex_eq_iff [OF _ _ n] by (auto simp: number_arcs_eq)
  have "distinct (map arc_ends (number_arcs ps))"
    unfolding distinct_conv_nth
  proof (intro allI impI)
    fix i j assume ij: "i < length (map arc_ends (number_arcs ps))" "j < length (map arc_ends (number_arcs ps))" "i \<noteq> j"
    then have "ps ! i \<noteq> ps ! j" using ok by (simp add: pairs_ok_def nth_eq_iff_index_eq)
    then show "map arc_ends (number_arcs ps) ! i \<noteq> map arc_ends (number_arcs ps) ! j"
      using ij in_range vertex_eq_iff [OF _ _ n] by (auto simp: number_arcs_nth arc_ends_def prod_eq_iff)
  qed
  moreover have "cover_request n (number_arcs ps) L" if "0 < L" for L
    using that n len valid by (simp add: cover_request_def)
  ultimately show ?thesis using loop by (simp add: scenario_ok_def number_arcs_nth)
qed

section \<open>The scenarios\<close>

definition complete_pairs :: "nat \<Rightarrow> (nat \<times> nat) list" where
  "complete_pairs n = concat (map (\<lambda>u. map (Pair u) (filter (\<lambda>v. u \<noteq> v) [0..<n])) [0..<n])"

lemma Complete_pairs: "CompleteRequired n = number_arcs (complete_pairs n)"
proof -
  have row: "fold (\<lambda>v s. if u = v then s else append_arc (u, v) s) [0..<n] = fold (\<lambda>v. append_arc (u, v)) (filter (\<lambda>v. u \<noteq> v) [0..<n])" for u
    by (rule ext) (simp only: fold_skip)
  show ?thesis unfolding CompleteRequired_def row fold_nested by (simp add: number_arcs_def complete_pairs_def)
qed

lemma distinct_rows: "distinct us \<Longrightarrow> distinct (concat (map (\<lambda>u. map (Pair u) (filter (P u) [0..<n])) us))"
  by (induction us) (auto simp: distinct_map inj_on_def)

lemma set_complete_pairs: "set (complete_pairs n) = {(u, v). u < n \<and> v < n \<and> u \<noteq> v}"
  by (auto simp: complete_pairs_def)

lemma complete_pairs_ok: "pairs_ok n (complete_pairs n)"
  using set_complete_pairs [of n] by (auto simp: pairs_ok_def complete_pairs_def intro: distinct_rows)

lemma Complete_ok:
  assumes "n \<le> 2 ^ 16"
  shows "scenario_ok n (CompleteRequired n)" "arc_ends ` set (CompleteRequired n) = (\<lambda>(u, v). (of_nat u, of_nat v)) ` {(u, v). u < n \<and> v < n \<and> u \<noteq> v}"
proof -
  show "scenario_ok n (CompleteRequired n)" unfolding Complete_pairs by (rule number_arcs_ok [OF complete_pairs_ok assms])
  have "arc_ends ` set (number_arcs ps) = (\<lambda>(u, v). (of_nat u, of_nat v)) ` set ps" for ps
  proof -
    have "map arc_ends (number_arcs ps) = map (\<lambda>(u, v). (of_nat u, of_nat v)) ps"
      by (rule nth_equalityI) (simp_all add: number_arcs_nth arc_ends_def split_beta)
    from arg_cong [OF this, of set] show ?thesis by (simp only: set_map)
  qed
  then show "arc_ends ` set (CompleteRequired n) = (\<lambda>(u, v). (of_nat u, of_nat v)) ` {(u, v). u < n \<and> v < n \<and> u \<noteq> v}"
    by (simp only: Complete_pairs set_complete_pairs)
qed

text \<open>The shuffle permutes, because the random index is within the unshuffled part.\<close>

lemma shuffle_step_mset:
  assumes "i < length idxs" "length idxs < 2 ^ 64"
  shows "mset (snd (shuffle_step i (state, idxs))) = mset idxs"
proof -
  have i: "unat (of_nat (i + 1) :: 64 word) = i + 1" using assms using unat_of_nat [of "i + 1", where 'a = 64] by (simp add: take_bit_nat_eq_self del: unat_of_nat of_nat_Suc)
  have "unat (splitmix64 state mod of_nat (i + 1)) = unat (splitmix64 state) mod (i + 1)"
    by (simp only: unat_mod i)
  then have "unat (splitmix64 state mod of_nat (i + 1)) < i + 1" by simp
  with assms(1) have "unat (splitmix64 state mod of_nat (i + 1)) < length idxs" by linarith
  with assms(1) show ?thesis by (simp add: shuffle_step_def Let_def mset_swap_upd)
qed

lemma shuffle_steps_mset:
  "\<forall>i \<in> set is. i < length idxs \<Longrightarrow> length idxs < 2 ^ 64 \<Longrightarrow> mset (snd (fold shuffle_step is (state, idxs))) = mset idxs"
proof (induction "is" arbitrary: state idxs)
  case (Cons i "is")
  obtain state' idxs' where step: "shuffle_step i (state, idxs) = (state', idxs')" by (metis surj_pair)
  from shuffle_step_mset [of i idxs state] Cons.prems step have m: "mset idxs' = mset idxs" by simp
  then have "length idxs' = length idxs" by (rule mset_eq_length)
  with Cons.IH [of idxs' state'] Cons.prems step m show ?case by simp
qed simp

lemma shuffle_permutes: "n < 2 ^ 64 \<Longrightarrow> mset (shuffle_indices n seed) = mset [0..<n]"
  unfolding shuffle_indices_def by (rule shuffle_steps_mset) auto

lemma shuffle_facts:
  assumes "n < 2 ^ 64"
  shows "length (shuffle_indices n seed) = n" "distinct (shuffle_indices n seed)" "set (shuffle_indices n seed) = {..<n}"
  using shuffle_permutes [OF assms, of seed] mset_eq_length mset_eq_imp_distinct_iff mset_eq_setD
  by (fastforce dest: mset_eq_length, metis mset_eq_imp_distinct_iff distinct_upt, metis mset_eq_setD set_upt atLeast0LessThan)

lemma sample_size_le: "sample_size m d \<le> m"
  by (simp add: sample_size_def Let_def)

lemma pair_at_inj: "inj_on (pair_at n) {..<n * (n - 1)}"
proof (rule inj_onI)
  fix x y assume "x \<in> {..<n * (n - 1)}" "y \<in> {..<n * (n - 1)}" "pair_at n x = pair_at n y"
  then have "x div (n - 1) = y div (n - 1)" "x mod (n - 1) = y mod (n - 1)"
    by (auto simp: pair_at_def Let_def split: if_splits)
  then show "x = y" by (metis div_mult_mod_eq)
qed

lemma pair_at_range: "x < n * (n - 1) \<Longrightarrow> pair_at n x = (u, v) \<Longrightarrow> u < n \<and> v < n \<and> u \<noteq> v"
proof -
  assume x: "x < n * (n - 1)" "pair_at n x = (u, v)"
  then have n: "0 < n - 1" by (cases "n - 1") auto
  then have "x mod (n - 1) < n - 1" by simp
  moreover have "x div (n - 1) < n" using x(1) n by (simp add: less_mult_imp_div_less)
  ultimately show ?thesis using x(2) by (auto simp: pair_at_def Let_def split: if_splits)
qed

lemma pairs_map_ok:
  assumes "distinct xs" "inj_on f (set xs)" "\<And>x u v. x \<in> set xs \<Longrightarrow> f x = (u, v) \<Longrightarrow> u < n \<and> v < n \<and> u \<noteq> v"
  shows "pairs_ok n (map f xs)"
  using assms by (auto simp: pairs_ok_def distinct_map)

text \<open>A sample has the size that was asked for, and no pair twice.\<close>

lemma RandomMiss_ok:
  assumes n: "n \<le> 2 ^ 16"
  shows "scenario_ok n (RandomMissRequired n density seed)"
    "0 < density \<Longrightarrow> density < 1 \<Longrightarrow> length (RandomMissRequired n density seed) = sample_size (n * (n - 1)) density"
proof -
  let ?idxs = "shuffle_indices (n * (n - 1)) seed" and ?k = "sample_size (n * (n - 1)) density"
  have "n * (n - 1) \<le> 2 ^ 16 * 2 ^ 16" by (rule mult_le_mono) (use n in linarith)+
  then have "n * (n - 1) < 2 ^ 64" by simp
  note idxs = shuffle_facts [OF this, of seed]
  let ?ps = "map (pair_at n) (take ?k ?idxs)"
  have sub: "set (take ?k ?idxs) \<subseteq> {..<n * (n - 1)}" using set_take_subset [of ?k ?idxs] idxs(3) by simp
  have "pairs_ok n ?ps"
  proof (rule pairs_map_ok)
    show "distinct (take ?k ?idxs)" by (rule distinct_take [OF idxs(2)])
    show "inj_on (pair_at n) (set (take ?k ?idxs))" by (rule inj_on_subset [OF pair_at_inj sub])
    show "u < n \<and> v < n \<and> u \<noteq> v" if "x \<in> set (take ?k ?idxs)" "pair_at n x = (u, v)" for x u v
      using pair_at_range [OF _ that(2)] sub that(1) by blast
  qed
  from number_arcs_ok [OF this n] have ok: "scenario_ok n (number_arcs ?ps)" .
  have ps: "map (\<lambda>t. let (u, v) = pair_at n (?idxs ! t) in Arc (of_nat t) (of_nat u) (of_nat v)) [0..<?k] = number_arcs ?ps"
    using sample_size_le [of "n * (n - 1)" density] idxs(1)
    by (intro nth_equalityI) (simp_all add: number_arcs_nth split_beta Let_def)
  have "scenario_ok n (number_arcs [])" by (rule number_arcs_ok [OF _ n]) (simp add: pairs_ok_def)
  then have none: "scenario_ok n []" by (simp add: number_arcs_eq)
  show "scenario_ok n (RandomMissRequired n density seed)"
    unfolding RandomMissRequired_def Let_def [of "n * (n - 1)"] Let_def [of ?k] Let_def [of ?idxs] ps
    using ok none Complete_ok(1) [OF n] by simp
  show "length (RandomMissRequired n density seed) = ?k" if "0 < density" "density < 1"
    using that by (simp add: RandomMissRequired_def Let_def)
qed

lemma RowMiss_ok:
  assumes n: "n \<le> 2 ^ 16"
  shows "scenario_ok n (RowMissRequired n density seed)"
proof (cases "density \<le> 0")
  case True
  have "scenario_ok n (number_arcs [])" by (rule number_arcs_ok [OF _ n]) (simp add: pairs_ok_def)
  then show ?thesis using True by (simp add: number_arcs_eq RowMissRequired_def)
next
  case False
  let ?rows = "shuffle_indices n seed" and ?k = "sample_size n density"
  have "n < 2 ^ 64" using n by simp
  note rows = shuffle_facts [OF this, of seed]
  let ?us = "take ?k ?rows"
  let ?ps = "concat (map (\<lambda>u. map (Pair u) (filter (\<lambda>v. v \<noteq> u) [0..<n])) ?us)"
  have "set ?us \<subseteq> {..<n}" using set_take_subset [of ?k ?rows] rows(3) by simp
  then have "pairs_ok n ?ps" using rows(2) by (auto simp: pairs_ok_def intro!: distinct_rows)
  from number_arcs_ok [OF this n] have ok: "scenario_ok n (number_arcs ?ps)" .
  have row: "fold (\<lambda>v s. if v = u then s else append_arc (u, v) s) [0..<n] = fold (\<lambda>v. append_arc (u, v)) (filter (\<lambda>v. v \<noteq> u) [0..<n])" for u
    by (rule ext) (simp only: fold_skip)
  have us: "map (\<lambda>i. ?rows ! i) [0..<?k] = ?us"
    using sample_size_le [of n density] rows(1) by (intro nth_equalityI) simp_all
  let ?G = "\<lambda>u. fold (\<lambda>v. append_arc (u, v)) (filter (\<lambda>v. v \<noteq> u) [0..<n])"
  have "fold (\<lambda>i. ?G (?rows ! i)) [0..<?k] (0, []) = fold ?G (map (\<lambda>i. ?rows ! i) [0..<?k]) (0, [])"
    by (simp only: fold_map comp_def)
  also have "\<dots> = fold append_arc ?ps (0, [])" unfolding us by (simp only: fold_nested case_prod_eta)
  finally have run: "fold (\<lambda>i. ?G (?rows ! i)) [0..<?k] (0, []) = fold append_arc ?ps (0, [])" .
  have "RowMissRequired n density seed = snd (fold (\<lambda>i. ?G (?rows ! i)) [0..<?k] (0, []))"
    using False by (simp add: RowMissRequired_def row Let_def)
  then show ?thesis using ok unfolding run number_arcs_def by simp
qed

lemma spokes:
  "n \<noteq> 0 \<Longrightarrow> OutStarRequired n = Some (number_arcs (map (\<lambda>v. (0, v)) [1..<n]))"
  "n \<noteq> 0 \<Longrightarrow> InStarRequired n = Some (number_arcs (map (\<lambda>v. (v, 0)) [1..<n]))"
proof -
  assume n: "n \<noteq> 0"
  have "map (\<lambda>v. Arc (of_nat (v - 1)) 0 (of_nat v)) [1..<n] = number_arcs (map (\<lambda>v. (0, v)) [1..<n])"
    by (rule nth_equalityI) (simp_all add: number_arcs_nth)
  then show "OutStarRequired n = Some (number_arcs (map (\<lambda>v. (0, v)) [1..<n]))" using n by (simp only: OutStarRequired_def if_False)
next
  assume n: "n \<noteq> 0"
  have "map (\<lambda>v. Arc (of_nat (v - 1)) (of_nat v) 0) [1..<n] = number_arcs (map (\<lambda>v. (v, 0)) [1..<n])"
    by (rule nth_equalityI) (simp_all add: number_arcs_nth)
  then show "InStarRequired n = Some (number_arcs (map (\<lambda>v. (v, 0)) [1..<n]))" using n by (simp only: InStarRequired_def if_False)
qed

lemma spoke_pairs_ok: "pairs_ok n (map (\<lambda>v. (0, v)) [1..<n])" "pairs_ok n (map (\<lambda>v. (v, 0)) [1..<n])"
  by (rule pairs_map_ok; force simp: inj_on_def)+

lemma Stars_ok:
  assumes "0 < n" "n \<le> 2 ^ 16"
  shows "\<exists>as. OutStarRequired n = Some as \<and> scenario_ok n as \<and> length as = n - 1"
    "\<exists>as. InStarRequired n = Some as \<and> scenario_ok n as \<and> length as = n - 1"
  using assms spokes [of n] number_arcs_ok [OF spoke_pairs_ok(1) assms(2)] number_arcs_ok [OF spoke_pairs_ok(2) assms(2)] by simp_all

text \<open>Paths and cycles are trails: each arc starts where the one before ends.\<close>

definition cycle_pairs :: "nat \<Rightarrow> (nat \<times> nat) list" where
  "cycle_pairs n = map (\<lambda>i. (i, i + 1)) [0..<n - 1] @ [(n - 1, 0)]"

lemma Path_arcs: "PathRequired n = number_arcs (map (\<lambda>i. (i, i + 1)) [0..<n - 1])"
proof -
  have "map (\<lambda>i. Arc (of_nat i) (of_nat i) (of_nat (i + 1))) [0..<n - 1] = number_arcs (map (\<lambda>i. (i, i + 1)) [0..<n - 1])"
    by (rule nth_equalityI) (simp_all add: number_arcs_nth)
  then show ?thesis by (cases "n < 2") (simp_all add: PathRequired_def number_arcs_eq)
qed

lemma number_arcs_snoc: "number_arcs (ps @ [(u, v)]) = number_arcs ps @ [Arc (of_nat (length ps)) (of_nat u) (of_nat v)]"
  by (rule nth_equalityI) (auto simp: number_arcs_nth nth_append less_Suc_eq)

lemma Cycle_arcs: "2 \<le> n \<Longrightarrow> CycleRequired n = number_arcs (cycle_pairs n)"
  by (simp add: CycleRequired_def cycle_pairs_def number_arcs_snoc Path_arcs)

lemma Chord_arcs: "4 \<le> n \<Longrightarrow> CycleWithChordRequired n = number_arcs (cycle_pairs n @ [(0, n div 2)])"
  by (simp add: CycleWithChordRequired_def number_arcs_snoc Cycle_arcs Let_def)

lemma cycle_pairs_ok:
  "pairs_ok n (map (\<lambda>i. (i, i + 1)) [0..<n - 1])" "2 \<le> n \<Longrightarrow> pairs_ok n (cycle_pairs n)"
  "4 \<le> n \<Longrightarrow> pairs_ok n (cycle_pairs n @ [(0, n div 2)])"
  by (auto simp: pairs_ok_def cycle_pairs_def distinct_map inj_on_def)

lemma trail_conv_nth: "trail es \<longleftrightarrow> (\<forall>t. Suc t < length es \<longrightarrow> arc_to (es ! t) = arc_from (es ! Suc t))"
proof (induction es rule: trail.induct)
  case (1 a b as)
  then show ?case by (auto simp: All_less_Suc2 nth_Cons split: nat.splits)
qed simp_all

lemma trail_number_arcs: "(\<And>t. Suc t < length ps \<Longrightarrow> snd (ps ! t) = fst (ps ! Suc t)) \<Longrightarrow> trail (number_arcs ps)"
  by (simp add: trail_conv_nth number_arcs_nth)

lemma Path_ok:
  assumes "n \<le> 2 ^ 16"
  shows "scenario_ok n (PathRequired n)" "trail (PathRequired n)"
proof -
  show "scenario_ok n (PathRequired n)" unfolding Path_arcs by (rule number_arcs_ok [OF cycle_pairs_ok(1) assms])
  show "trail (PathRequired n)" unfolding Path_arcs by (rule trail_number_arcs) simp
qed

lemma Cycle_ok:
  assumes "2 \<le> n" "n \<le> 2 ^ 16"
  shows "scenario_ok n (CycleRequired n)" "trail (CycleRequired n)"
    "arc_to (last (CycleRequired n)) = arc_from (hd (CycleRequired n))"
proof -
  show "scenario_ok n (CycleRequired n)" unfolding Cycle_arcs [OF assms(1)] by (rule number_arcs_ok [OF cycle_pairs_ok(2) [OF assms(1)] assms(2)])
  show "trail (CycleRequired n)" unfolding Cycle_arcs [OF assms(1)]
    by (rule trail_number_arcs) (auto simp: cycle_pairs_def nth_append)
  have "PathRequired n = Arc 0 0 1 # tl (PathRequired n)"
    using assms(1) by (simp add: PathRequired_def upt_conv_Cons)
  then show "arc_to (last (CycleRequired n)) = arc_from (hd (CycleRequired n))"
    using assms(1) by (metis CycleRequired_def append_Cons arc.sel(2) arc.sel(3) last_snoc leD list.sel(1))
qed

lemma Chord_ok: "4 \<le> n \<Longrightarrow> n \<le> 2 ^ 16 \<Longrightarrow> scenario_ok n (CycleWithChordRequired n)"
  by (simp add: Chord_arcs number_arcs_ok [OF cycle_pairs_ok(3)])

lemma MultiComponent_ok:
  assumes "MultiComponentPaths k pathLen = (n, as)" "n \<le> 2 ^ 16"
  shows "n = k * (pathLen + 1)" "scenario_ok n as" "length as = k * pathLen"
proof -
  let ?f = "\<lambda>(c, i). (c * (pathLen + 1) + i, c * (pathLen + 1) + i + 1)"
  let ?cs = "concat (map (\<lambda>c. map (Pair c) [0..<pathLen]) [0..<k])"
  show n: "n = k * (pathLen + 1)" using assms(1) by (simp add: MultiComponentPaths_def)
  have "as = snd (fold (\<lambda>(c, i). append_arc (?f (c, i))) ?cs (0, []))"
    using assms(1) by (simp add: MultiComponentPaths_def fold_nested split_beta)
  also have "\<dots> = number_arcs (map ?f ?cs)" by (simp only: number_arcs_def fold_map comp_def split_def fst_conv snd_conv)
  finally have as: "as = number_arcs (map ?f ?cs)" .
  have cs: "?cs = List.product [0..<k] [0..<pathLen]" by (induction k) (simp_all add: product_concat_map)
  have "pairs_ok n (map ?f ?cs)"
  proof (rule pairs_map_ok)
    show "distinct ?cs" unfolding cs by (simp add: distinct_product)
    show "inj_on ?f (set ?cs)"
    proof (rule inj_onI)
      fix x y assume xy: "x \<in> set ?cs" "y \<in> set ?cs" "?f x = ?f y"
      then have eq: "fst x * (pathLen + 1) + snd x = fst y * (pathLen + 1) + snd y" and lt: "snd x < pathLen + 1" "snd y < pathLen + 1" by auto
      have "fst x = (fst x * (pathLen + 1) + snd x) div (pathLen + 1)" using lt(1) by (simp only: div_mult_self3 div_less)
      also have "\<dots> = fst y" unfolding eq using lt(2) by (simp only: div_mult_self3 div_less)
      finally show "x = y" using eq by (simp add: prod_eq_iff)
    qed
    show "u < n \<and> v < n \<and> u \<noteq> v" if "x \<in> set ?cs" "?f x = (u, v)" for x u v
    proof -
      have x: "fst x + 1 \<le> k" "snd x < pathLen" "u = fst x * (pathLen + 1) + snd x" "v = u + 1" using that by auto
      have "v < (fst x + 1) * (pathLen + 1)" using x(2-4) by simp
      also have "\<dots> \<le> n" unfolding n by (rule mult_le_mono1 [OF x(1)])
      finally show ?thesis using x(4) by simp
    qed
  qed
  from number_arcs_ok [OF this assms(2)] show "scenario_ok n as" unfolding as .
  show "length as = k * pathLen" unfolding as cs by simp
qed

text \<open>The dense planner plans every scenario, and its routes visit exactly the scenario's pairs.\<close>

lemma scenario_planned:
  assumes "scenario_ok n as" "0 < L"
  shows "\<exists>p. Plan cfg ctx n as L = Some p \<and> pairs_of (routes_arcs (routes p)) = pairs_of (mset as) \<and>
    int (length as) \<le> int (length (routes p)) * L"
proof -
  have req: "cover_request n as L" using assms by (simp add: scenario_ok_def)
  then obtain p where p: "Plan cfg ctx n as L = Some p" using dense.plan_returns by blast
  then show ?thesis using dense.plan_covers [OF req p] dense.enough_routes [OF req p] by blast
qed

end
