(* ===== verification/Geo_Route.thy ===== *)
theory Geo_Route
  imports Matrix_Prelude
begin

text \<open>
  \<open>internal/geo/route.go\<close> and the constants of \<open>const.go\<close>. A channel that a goroutine fills and
  closes is the list of values it delivers; a channel that is never closed (step 0 with values
  left) is \<open>None\<close>. \<open>WaypointsPacket\<close> cuts a route into packets that overlap in one waypoint;
  the lemmas show that the packets have exactly the legs of the route and bound their length.
  The printing helpers of the file are in \<open>Route_Text\<close>.
\<close>

section \<open>Constants\<close>

definition Car :: int where "Car = 0"
definition Truck :: int where "Truck = 1"
definition Bicycle :: int where "Bicycle = 2"

definition GCJ02 :: string where "GCJ02 = ''gcj02''"
definition BD09LL :: string where "BD09LL = ''bd09ll''"
definition WGS84 :: string where "WGS84 = ''WGS84''"

definition Strategy_Default :: int where "Strategy_Default = 0"
definition ShortestDistance :: int where "ShortestDistance = 1"
definition AvoidCongestion :: int where "AvoidCongestion = 2"
definition UnWalkFastRoute :: int where "UnWalkFastRoute = 3"

section \<open>Ranges\<close>

function range_up :: "int \<Rightarrow> int \<Rightarrow> int \<Rightarrow> int list" where
  "range_up start stop stp = (if 0 < stp \<and> start < stop then start # range_up (start + stp) stop stp else [])"
  by pat_completeness auto
termination by (relation "measure (\<lambda>(start, stop, _). nat (stop - start))") auto

function range_down :: "int \<Rightarrow> int \<Rightarrow> int \<Rightarrow> int list" where
  "range_down start stop stp = (if stp < 0 \<and> start > stop then start # range_down (start + stp) stop stp else [])"
  by pat_completeness auto
termination by (relation "measure (\<lambda>(start, stop, _). nat (start - stop))") auto

declare range_up.simps [simp del] range_down.simps [simp del]

definition range_args :: "int list \<Rightarrow> int \<times> int \<times> int" where
  "range_args args =
     (if length args = 1 then (0, args ! 0, 1)
      else if length args = 2 then (args ! 0, args ! 1, 1)
      else if length args = 3 then (args ! 0, args ! 1, args ! 2)
      else (0, 0, 1))"

definition geo_Range :: "int list \<Rightarrow> int list option" where
  "geo_Range args =
     (let (start, stop, stp) = range_args args in
      if stp > 0 then Some (range_up start stop stp)
      else if stp = 0 \<and> start > stop then None
      else Some (range_down start stop stp))"

definition geo_In :: "'a \<Rightarrow> 'a list \<Rightarrow> bool" where
  "geo_In target array = list_ex (\<lambda>element. target = element) array"

lemma geo_In_iff: "geo_In x xs \<longleftrightarrow> x \<in> set xs"
  by (auto simp: geo_In_def list_ex_iff)

section \<open>Permutations\<close>

text \<open>The recursion removes one element per level, so it ends for every \<open>r\<close>.\<close>

function Permutations :: "'a list \<Rightarrow> int \<Rightarrow> 'a list list" where
  "Permutations L r =
     (if r = 1 then map (\<lambda>x. [x]) L
      else concat (map (\<lambda>x. map (\<lambda>y. L ! x # y) (Permutations (take x L @ drop (Suc x) L) (r - 1))) [0..<length L]))"
  by pat_completeness auto
termination by (relation "measure (\<lambda>(L, r). length L)") auto

declare Permutations.simps [simp del]

lemma remove_nth_set:
  assumes "distinct L" "x < length L"
  shows "set (take x L @ drop (Suc x) L) = set L - {L ! x} \<and> distinct (take x L @ drop (Suc x) L)"
proof -
  have "L = take x L @ L ! x # drop (Suc x) L" using assms(2) by (simp add: id_take_nth_drop)
  with assms(1) have "distinct (take x L @ L ! x # drop (Suc x) L)" "set L = set (take x L @ L ! x # drop (Suc x) L)"
    by metis+
  then show ?thesis by auto
qed

lemma arrangements_Suc:
  "{xs. distinct xs \<and> set xs \<subseteq> S \<and> length xs = Suc r} =
   (\<Union>a \<in> S. (#) a ` {xs. distinct xs \<and> set xs \<subseteq> S - {a} \<and> length xs = r})"
  by (auto simp: length_Suc_conv image_iff)

lemma set_Permutations:
  assumes "0 < r" "distinct L"
  shows "set (Permutations L (int r)) = {xs. distinct xs \<and> set xs \<subseteq> set L \<and> length xs = r}"
  using assms
proof (induction r arbitrary: L rule: nat_induct_non_zero)
  case 1
  show ?case by (auto simp: Permutations.simps length_Suc_conv)
next
  case (Suc r)
  let ?rest = "\<lambda>x. take x L @ drop (Suc x) L"
  have "set (Permutations (?rest x) (int r)) = {xs. distinct xs \<and> set xs \<subseteq> set L - {L ! x} \<and> length xs = r}"
    if "x < length L" for x
    using Suc.IH [of "?rest x"] remove_nth_set [OF Suc.prems that] by simp
  then have "set (Permutations L (int (Suc r))) =
      (\<Union>x \<in> {..<length L}. (#) (L ! x) ` {xs. distinct xs \<and> set xs \<subseteq> set L - {L ! x} \<and> length xs = r})"
    using Suc.hyps by (subst Permutations.simps) (simp add: atLeast0LessThan del: upt_Suc)
  also have "\<dots> = (\<Union>a \<in> set L. (#) a ` {xs. distinct xs \<and> set xs \<subseteq> set L - {a} \<and> length xs = r})"
    unfolding set_conv_nth by auto
  finally show ?case unfolding arrangements_Suc .
qed

section \<open>Packets\<close>

text \<open>
  The slice expression \<open>waypoints[start:end]\<close> never panics: \<open>start \<le> end \<le> len(waypoints)\<close>.
\<close>

definition packet_at :: "'a list \<Rightarrow> int \<Rightarrow> int \<Rightarrow> 'a list" where
  "packet_at waypoints batch i =
     (let start = (if i > 0 then i - 1 else i);
          end0 = i + batch;
          stop = (if end0 > int (length waypoints) then int (length waypoints) else end0)
      in take (nat (stop - start)) (drop (nat start) waypoints))"

definition WaypointsPacket :: "int \<Rightarrow> 'a list \<Rightarrow> 'a list list option" where
  "WaypointsPacket batch waypoints =
     map_option (map (packet_at waypoints batch)) (geo_Range [0, int (length waypoints), batch])"

text \<open>The directed legs of a sequence of points.\<close>

definition legs_of :: "'a list \<Rightarrow> ('a \<times> 'a) list" where
  "legs_of xs = zip xs (tl xs)"

lemma legs_split: "k < length ys \<Longrightarrow> legs_of (take (Suc k) ys) @ legs_of (drop k ys) = legs_of ys"
proof (induction k arbitrary: ys)
  case 0
  then show ?case by (cases ys) (simp_all add: legs_of_def)
next
  case (Suc k)
  then obtain y z zs where ys: "ys = y # z # zs" by (cases ys; cases "tl ys") auto
  with Suc.IH [of "z # zs"] Suc.prems show ?case by (simp add: legs_of_def)
qed

lemma legs_of_short: "length xs \<le> 1 \<Longrightarrow> legs_of xs = []"
  by (cases xs) (simp_all add: legs_of_def)

lemma length_legs_of [simp]: "length (legs_of xs) = length xs - 1"
  by (simp add: legs_of_def)

lemma nth_legs_of: "Suc i < length xs \<Longrightarrow> legs_of xs ! i = (xs ! i, xs ! Suc i)"
  by (simp add: legs_of_def nth_tl)

lemma packet_at_nat:
  "packet_at wps (int b) (int i) = take (min (i + b) (length wps) - (i - 1)) (drop (i - 1) wps)"
proof -
  let ?start = "if int i > 0 then int i - 1 else int i"
    and ?stop = "if int i + int b > int (length wps) then int (length wps) else int i + int b"
  have "nat ?start = i - 1" by (cases i) simp_all
  moreover have "nat (?stop - ?start) = min (i + b) (length wps) - (i - 1)" by (simp add: min_def) linarith
  ultimately show ?thesis unfolding packet_at_def Let_def by (simp only:)
qed

lemma packet_length:
  assumes "i < length wps" "0 < b"
  shows "length (packet_at wps (int b) (int i)) = min (i + b) (length wps) - (i - 1)"
  using assms by (simp add: packet_at_nat)

lemma packets_from:
  assumes "0 < b"
  shows "concat (map (\<lambda>i. legs_of (packet_at wps (int b) i)) (range_up (int i) (int (length wps)) (int b))) =
    (if i < length wps then legs_of (drop (i - 1) wps) else [])"
proof (induction "length wps - i" arbitrary: i rule: less_induct)
  case less
  show ?case
  proof (cases "i < length wps")
    case False
    then show ?thesis by (simp add: range_up.simps)
  next
    case True
    have IH: "concat (map (\<lambda>i. legs_of (packet_at wps (int b) i)) (range_up (int (i + b)) (int (length wps)) (int b))) =
        (if i + b < length wps then legs_of (drop (i + b - 1) wps) else [])"
      using True assms by (intro less) simp
    have step: "range_up (int i) (int (length wps)) (int b) = int i # range_up (int (i + b)) (int (length wps)) (int b)"
      using True assms by (subst range_up.simps) simp
    show ?thesis
    proof (cases "i + b < length wps")
      case True
      let ?ys = "drop (i - 1) wps" and ?k = "i + b - 1 - (i - 1)"
      have "packet_at wps (int b) (int i) = take (Suc ?k) ?ys"
        using True assms by (simp add: packet_at_nat min_def) (rule arg_cong [where f = "\<lambda>n. take n _"], linarith)
      moreover have "drop (i + b - 1) wps = drop ?k ?ys" using assms by (simp add: add.commute)
      moreover have "?k < length ?ys" using True assms by simp
      ultimately show ?thesis using True \<open>i < length wps\<close> IH legs_split [of ?k ?ys] by (simp add: step)
    next
      case False
      then have "packet_at wps (int b) (int i) = drop (i - 1) wps" by (simp add: packet_at_nat min_def)
      with False True IH show ?thesis by (simp add: step)
    qed
  qed
qed

lemma range_up_bounds: "i \<in> set (range_up a n b) \<Longrightarrow> a \<le> i \<and> i < n"
  by (induction a n b rule: range_up.induct) (subst (asm) (2) range_up.simps, force split: if_splits)

lemma packets_defined:
  "0 < b \<Longrightarrow> WaypointsPacket (int b) wps = Some (map (packet_at wps (int b)) (range_up 0 (int (length wps)) (int b)))"
  by (simp add: WaypointsPacket_def geo_Range_def range_args_def)

lemma packet_bound:
  assumes "0 < b" "i \<in> set (range_up 0 (int (length wps)) (int b))"
  shows "length (packet_at wps (int b) i) \<le> (if i = 0 then b else b + 1) \<and> (i \<noteq> 0 \<longrightarrow> 2 \<le> length (packet_at wps (int b) i))"
proof -
  obtain j where j: "i = int j" "j < length wps"
    using range_up_bounds [OF assms(2)] by (metis int_nat_eq nat_less_iff of_nat_less_iff)
  show ?thesis unfolding j(1) packet_length [OF j(2) assms(1)] using j(2) assms(1) by (cases j) auto
qed

lemma packet_single:
  assumes "wps \<noteq> []" "length wps \<le> b"
  shows "WaypointsPacket (int b) wps = Some [wps]"
proof -
  have b: "0 < b" using assms by (cases wps) auto
  have "range_up 0 (int (length wps)) (int b) = [0]"
    using assms b by (subst range_up.simps, subst range_up.simps) auto
  moreover have "packet_at wps (int b) 0 = wps" using assms packet_at_nat [of wps b 0] by (simp add: min_def)
  ultimately show ?thesis by (simp add: packets_defined b)
qed

section \<open>Properties\<close>

lemma packets_cut:
  assumes "0 < batch"
  shows "\<exists>ps. WaypointsPacket batch wps = Some ps \<and> concat (map legs_of ps) = legs_of wps \<and>
    (\<forall>p \<in> set ps. int (length p) \<le> batch + 1) \<and> (ps \<noteq> [] \<longrightarrow> int (length (hd ps)) \<le> batch) \<and>
    (\<forall>p \<in> set (tl ps). 2 \<le> length p) \<and> (wps \<noteq> [] \<and> int (length wps) \<le> batch \<longrightarrow> ps = [wps])"
proof -
  obtain b where b: "batch = int b" "0 < b" using assms by (metis nat_int int_nat_eq zero_less_nat_eq less_imp_le)
  let ?is = "range_up 0 (int (length wps)) (int b)"
  let ?ps = "map (packet_at wps (int b)) ?is"
  have legs: "concat (map legs_of ?ps) = legs_of wps"
    using packets_from [OF b(2), of wps 0] by (cases wps) (simp_all add: comp_def legs_of_def)
  have hd0: "?is \<noteq> [] \<Longrightarrow> hd ?is = 0" by (subst range_up.simps) (auto simp: range_up.simps)
  have tl0: "i \<noteq> 0" if "i \<in> set (tl ?is)" for i
  proof -
    have "tl ?is = range_up (int b) (int (length wps)) (int b) \<or> tl ?is = []" by (subst (1 3) range_up.simps) simp
    with that show ?thesis using range_up_bounds [of i "int b"] b(2) by auto
  qed
  have "\<forall>p \<in> set ?ps. int (length p) \<le> batch + 1" using packet_bound [OF b(2), of _ wps] b(1) by (force split: if_splits)
  moreover have "?ps \<noteq> [] \<longrightarrow> int (length (hd ?ps)) \<le> batch"
    using packet_bound [OF b(2), of 0 wps] hd0 b(1) by (cases ?is) auto
  moreover have "2 \<le> length p" if p: "p \<in> set (tl ?ps)" for p
  proof -
    obtain i where i: "i \<in> set (tl ?is)" "p = packet_at wps (int b) i" using p by (auto simp flip: map_tl)
    then have "i \<in> set ?is" by (cases ?is) auto
    with i tl0 packet_bound [OF b(2), of i wps] show ?thesis by simp
  qed
  moreover have "wps \<noteq> [] \<and> int (length wps) \<le> batch \<longrightarrow> ?ps = [wps]"
    using packet_single [of wps b] packets_defined [OF b(2), of wps] b(1) by auto
  ultimately show ?thesis
    using legs packets_defined [OF b(2), of wps] unfolding b(1) by (intro exI [of _ ?ps] conjI ballI) blast+
qed

text \<open>
  C18: packets are a lossless cut: for a positive batch size the legs of the packets, one after the
  other, are the legs of the route in order; the first packet has at most \<open>batch\<close> waypoints, every
  later one at least two and at most \<open>batch + 1\<close>; a route of at most \<open>batch\<close> waypoints is one
  packet.
\<close>

theorem WaypointsPacket_cuts_route:
  assumes "0 < batch"
  shows "\<exists>ps. WaypointsPacket batch wps = Some ps \<and> concat (map legs_of ps) = legs_of wps \<and>
    (\<forall>p \<in> set ps. int (length p) \<le> batch + 1) \<and> (ps \<noteq> [] \<longrightarrow> int (length (hd ps)) \<le> batch) \<and>
    (\<forall>p \<in> set (tl ps). 2 \<le> length p) \<and> (wps \<noteq> [] \<and> int (length wps) \<le> batch \<longrightarrow> ps = [wps])"
  by (rule packets_cut [OF assms])

theorem WaypointsPacket_cuts_route_witness:
  "WaypointsPacket 3 [10, 11, 12, 13, 14, 15, 16 :: nat] = Some [[10, 11, 12], [12, 13, 14, 15], [15, 16]] \<and>
   concat (map legs_of [[10, 11, 12], [12, 13, 14, 15], [15, 16 :: nat]]) = legs_of [10, 11, 12, 13, 14, 15, 16]"
proof -
  have "WaypointsPacket 3 [10, 11, 12, 13, 14, 15, 16 :: nat] = Some [[10, 11, 12], [12, 13, 14, 15], [15, 16]]" by code_simp
  with WaypointsPacket_cuts_route [of 3 "[10, 11, 12, 13, 14, 15, 16 :: nat]"] show ?thesis by auto
qed

lemma packet_exceeds_batch:
  "map_option (map length) (WaypointsPacket 12 [0 ..< 24]) = Some [12, 13]"
  by code_simp

end
