(* ===== verification/Geo_Coord.thy ===== *)
theory Geo_Coord
  imports Geo_Route
begin

text \<open>
  \<open>internal/geo/coord.go\<close>: the coordinate systems and the great-circle distance. A \<open>float64\<close> is a
  real number (its rounding is not modelled); the rounding of a conversion to \<open>float32\<close> is the
  parameter \<open>f32\<close>, so the statements hold for every rounding. A point that a request carries is a
  slice of numbers, indexed with Go's bounds check.
\<close>

type_synonym coord = "real \<times> real"

definition geo_Max :: "'a::linorder \<Rightarrow> 'a \<Rightarrow> 'a" where
  "geo_Max a b = (if a > b then a else b)"

definition geo_Min :: "'a::linorder \<Rightarrow> 'a \<Rightarrow> 'a" where
  "geo_Min a b = (if a < b then a else b)"

definition XPi :: real where "XPi = 52.35987755982988"
definition Axis :: real where "Axis = 6378245"
definition Offset :: real where "Offset = 0.00669342162296594323"
definition BDLonOffset :: real where "BDLonOffset = 0.0065"
definition BDLatOffset :: real where "BDLatOffset = 0.0060"

section \<open>Conversions\<close>

definition transform :: "real \<Rightarrow> real \<Rightarrow> real \<times> real" where
  "transform lon lat =
     (let lonlat = lon * lat; absX = sqrt \<bar>lon\<bar>; lonPi = lon * pi; latPi = lat * pi;
          d = 20 * sin (6 * lonPi) + 20 * sin (2 * lonPi);
          x1 = d + (20 * sin latPi + 40 * sin (latPi / 3));
          y1 = d + (20 * sin lonPi + 40 * sin (lonPi / 3));
          x2 = x1 + (160 * sin (latPi / 12) + 320 * sin (latPi / 30));
          y2 = y1 + (150 * sin (lonPi / 12) + 300 * sin (lonPi / 30));
          x3 = x2 * (2 / 3);
          y3 = y2 * (2 / 3);
          x4 = x3 + (2 * lon + 3 * lat + 0.2 * lat * lat + 0.1 * lonlat + 0.2 * absX - 100);
          y4 = y3 + (lon + 2 * lat + 0.1 * lon * lon + 0.1 * lonlat + 0.1 * absX + 300)
      in (x4, y4))"

definition delta :: "(real \<Rightarrow> real) \<Rightarrow> real \<Rightarrow> real \<Rightarrow> coord" where
  "delta f32 lon lat =
     (let (dlat0, dlon0) = transform (lon - 105) (lat - 35);
          radlat = lat / 180 * pi;
          magic0 = sin radlat;
          magic = 1 - Offset * magic0 * magic0;
          sqrtmagic = sqrt magic;
          dlat = (dlat0 * 180) / ((Axis * (1 - Offset)) / (magic * sqrtmagic) * pi);
          dlon = (dlon0 * 180) / (Axis / sqrtmagic * cos radlat * pi)
      in (f32 (lon + dlon), f32 (lat + dlat)))"

text \<open>The comparisons convert to \<open>float32\<close>, the constants too.\<close>

definition InChina :: "(real \<Rightarrow> real) \<Rightarrow> real \<Rightarrow> real \<Rightarrow> bool" where
  "InChina f32 lon lat \<longleftrightarrow> (f32 73.66 < f32 lon \<and> f32 lon < f32 135.05) \<and> (f32 3.86 < f32 lat \<and> f32 lat < f32 53.55)"

definition WGS84toGCJ02 :: "(real \<Rightarrow> real) \<Rightarrow> real \<Rightarrow> real \<Rightarrow> coord" where
  "WGS84toGCJ02 f32 lon lat = (if \<not> InChina f32 lon lat then (f32 lon, f32 lat) else delta f32 lon lat)"

text \<open>\<open>math.Atan2\<close>, for arguments that are numbers.\<close>

definition Atan2 :: "real \<Rightarrow> real \<Rightarrow> real" where
  "Atan2 y x =
     (if x > 0 then arctan (y / x)
      else if x < 0 then (if y \<ge> 0 then arctan (y / x) + pi else arctan (y / x) - pi)
      else if y > 0 then pi / 2 else if y < 0 then - (pi / 2) else 0)"

definition GCJ02toBD09 :: "(real \<Rightarrow> real) \<Rightarrow> real \<Rightarrow> real \<Rightarrow> coord" where
  "GCJ02toBD09 f32 lon lat =
     (let z = sqrt (lon * lon + lat * lat) + 0.00002 * sin (lat * XPi);
          theta = Atan2 lat lon + 0.000003 * cos (lon * XPi)
      in (f32 (z * cos theta + BDLonOffset), f32 (z * sin theta + BDLatOffset)))"

definition BD09toGCJ02 :: "(real \<Rightarrow> real) \<Rightarrow> real \<Rightarrow> real \<Rightarrow> coord" where
  "BD09toGCJ02 f32 lon lat =
     (let x = lon - BDLonOffset;
          y = lat - BDLatOffset;
          z = sqrt (x * x + y * y) - 0.00002 * sin (y * XPi);
          theta = Atan2 y x - 0.000003 * cos (x * XPi)
      in (f32 (z * cos theta), f32 (z * sin theta)))"

text \<open>
  The bisection loop of \<open>GCJ02toWGS84\<close> with its counter \<open>n = 10000 - i\<close>: the state is the box
  \<open>[mlon, plon] \<times> [mlat, plat]\<close> and the last midpoint.
\<close>

primrec wgs_bisect :: "nat \<Rightarrow> (real \<Rightarrow> real) \<Rightarrow> real \<Rightarrow> real \<Rightarrow> real \<times> real \<Rightarrow> real \<times> real \<Rightarrow> coord \<Rightarrow> coord" where
  "wgs_bisect 0 f32 lon lat lonBox latBox wgs = wgs"
| "wgs_bisect (Suc n) f32 lon lat lonBox latBox wgs =
     (let wgsLat = (fst latBox + snd latBox) / 2;
          wgsLon = (fst lonBox + snd lonBox) / 2;
          (tmpLon, tmpLat) = delta f32 wgsLon wgsLat;
          dlon = tmpLon - lon;
          dlat = tmpLat - lat
      in if \<bar>dlat\<bar> < 1 / 10 ^ 10 \<and> \<bar>dlon\<bar> < 1 / 10 ^ 10 then (wgsLon, wgsLat)
         else wgs_bisect n f32 lon lat
                (if dlon > 0 then (fst lonBox, wgsLon) else (wgsLon, snd lonBox))
                (if dlat > 0 then (fst latBox, wgsLat) else (wgsLat, snd latBox)) (wgsLon, wgsLat))"

definition GCJ02toWGS84 :: "(real \<Rightarrow> real) \<Rightarrow> real \<Rightarrow> real \<Rightarrow> coord" where
  "GCJ02toWGS84 f32 lon lat =
     (let (wgsLon, wgsLat) = wgs_bisect 10000 f32 lon lat (lon - 0.01, lon + 0.01) (lat - 0.01, lat + 0.01) (0, 0)
      in (f32 wgsLon, f32 wgsLat))"

text \<open>\<open>strings.ToLower\<close> on ASCII strings.\<close>

definition lower_char :: "char \<Rightarrow> char" where
  "lower_char c = (let n = of_char c :: nat in if 65 \<le> n \<and> n \<le> 90 then char_of (n + 32) else c)"

definition ToLower :: "string \<Rightarrow> string" where
  "ToLower = map lower_char"

text \<open>With \<open>F = R = float32\<close>, as in every use, the casts are identities.\<close>

definition coord_cast :: "(real \<Rightarrow> real \<Rightarrow> coord) \<Rightarrow> real list \<Rightarrow> coord list \<Rightarrow> coord list option" where
  "coord_cast castFunc v result =
     do { x \<leftarrow> slice_get v 0; y \<leftarrow> slice_get v 1; Some (result @ [castFunc x y]) }"

definition CoordListCast :: "real list list \<Rightarrow> (real \<Rightarrow> real \<Rightarrow> coord) \<Rightarrow> coord list option" where
  "CoordListCast coords castFunc = fold_opt (coord_cast castFunc) coords []"

definition CoordConvertToGCJ02 :: "(real \<Rightarrow> real) \<Rightarrow> real list list \<Rightarrow> string \<Rightarrow> coord list option" where
  "CoordConvertToGCJ02 f32 points coordinate =
     (let c = ToLower coordinate in
      if c = GCJ02 \<or> c = '''' then CoordListCast points (\<lambda>x y. (x, y))
      else if c = BD09LL then CoordListCast points (BD09toGCJ02 f32)
      else if c = ToLower WGS84 then CoordListCast points (WGS84toGCJ02 f32)
      else CoordListCast points (\<lambda>x y. (x, y)))"

section \<open>Distance\<close>

definition geo_Distance :: "(real \<Rightarrow> real) \<Rightarrow> real \<Rightarrow> real \<Rightarrow> real \<Rightarrow> real \<Rightarrow> real" where
  "geo_Distance f32 lng1 lat1 lng2 lat2 =
     (let radius = 6371000;
          rad = pi / 180;
          latn1 = lat1 * rad;
          lngn1 = lng1 * rad;
          latn2 = lat2 * rad;
          lngn2 = lng2 * rad;
          theta = lngn2 - lngn1;
          v0 = sin latn1 * sin latn2 + cos latn1 * cos latn2 * cos theta;
          v1 = (if v0 > 1 then 1 else v0);
          v2 = (if v1 < -1 then -1 else v1);
          dist = arccos v2
      in f32 (dist * radius))"

lemma geo_Distance_sym: "geo_Distance f32 x1 y1 x2 y2 = geo_Distance f32 x2 y2 x1 y1"
proof -
  have "cos (x2 * (pi / 180) - x1 * (pi / 180)) = cos (x1 * (pi / 180) - x2 * (pi / 180))"
    using cos_minus [of "x1 * (pi / 180) - x2 * (pi / 180)"] by simp
  then show ?thesis unfolding geo_Distance_def Let_def by (simp only: mult.commute mult.left_commute)
qed

lemma geo_Distance_self: "geo_Distance f32 x y x y = f32 0"
  by (simp add: geo_Distance_def Let_def flip: power2_eq_square)

lemma geo_Distance_range: "\<exists>d. geo_Distance f32 x1 y1 x2 y2 = f32 d \<and> 0 \<le> d \<and> d \<le> pi * 6371000"
proof -
  have "0 \<le> arccos v \<and> arccos v \<le> pi" if "-1 \<le> v" "v \<le> 1" for v
    using arccos_lbound [OF that] arccos_ubound [OF that] by simp
  then show ?thesis unfolding geo_Distance_def Let_def
    by (intro exI conjI refl) (auto simp: not_less)
qed

section \<open>Facts on conversions\<close>

lemma outside_China: "\<not> InChina f32 lon lat \<Longrightarrow> WGS84toGCJ02 f32 lon lat = (f32 lon, f32 lat)"
  by (simp add: WGS84toGCJ02_def)

text \<open>The bisection stays in the box it starts from.\<close>

definition in_box :: "coord \<Rightarrow> real \<times> real \<Rightarrow> real \<times> real \<Rightarrow> bool" where
  "in_box w lonBox latBox \<longleftrightarrow> fst lonBox \<le> fst w \<and> fst w \<le> snd lonBox \<and> fst latBox \<le> snd w \<and> snd w \<le> snd latBox"

lemma in_box_mono:
  "in_box w lb' tb' \<Longrightarrow> fst lb \<le> fst lb' \<Longrightarrow> snd lb' \<le> snd lb \<Longrightarrow> fst tb \<le> fst tb' \<Longrightarrow> snd tb' \<le> snd tb \<Longrightarrow>
   in_box w lb tb"
  by (auto simp: in_box_def)

lemma half_interval:
  fixes m :: real
  assumes "fst b \<le> m" "m \<le> snd b" "b' = (if P then (fst b, m) else (m, snd b))"
  shows "fst b \<le> fst b'" "snd b' \<le> snd b" "fst b' \<le> snd b'"
  using assms by auto

lemma wgs_bisect_in_box:
  "fst lonBox \<le> snd lonBox \<Longrightarrow> fst latBox \<le> snd latBox \<Longrightarrow>
   in_box (wgs_bisect (Suc n) f32 lon lat lonBox latBox w) lonBox latBox"
proof (induction n arbitrary: lonBox latBox w)
  case 0
  then show ?case by (simp add: in_box_def Let_def split: prod.split)
next
  case (Suc n)
  define x where "x = (fst lonBox + snd lonBox) / 2"
  define y where "y = (fst latBox + snd latBox) / 2"
  have mid: "fst lonBox \<le> x" "x \<le> snd lonBox" "fst latBox \<le> y" "y \<le> snd latBox"
    using Suc.prems by (simp_all add: x_def y_def)
  obtain tx ty where t: "delta f32 x y = (tx, ty)" by force
  define lb where "lb = (if tx - lon > 0 then (fst lonBox, x) else (x, snd lonBox))"
  define tb where "tb = (if ty - lat > 0 then (fst latBox, y) else (y, snd latBox))"
  note half = half_interval [OF mid(1,2) lb_def] half_interval [OF mid(3,4) tb_def]
  have rec: "wgs_bisect (Suc (Suc n)) f32 lon lat lonBox latBox w =
      (if \<bar>ty - lat\<bar> < 1 / 10 ^ 10 \<and> \<bar>tx - lon\<bar> < 1 / 10 ^ 10 then (x, y) else wgs_bisect (Suc n) f32 lon lat lb tb (x, y))"
    unfolding wgs_bisect.simps(2) [of "Suc n"] Let_def lb_def tb_def x_def [symmetric] y_def [symmetric] t prod.case ..
  have "in_box (wgs_bisect (Suc n) f32 lon lat lb tb (x, y)) lonBox latBox"
    by (rule in_box_mono [OF Suc.IH [OF half(3,6)] half(1,2,4,5)])
  moreover have "in_box (x, y) lonBox latBox" using mid by (simp add: in_box_def)
  ultimately show ?case unfolding rec by presburger
qed

lemma GCJ02toWGS84_near:
  "\<exists>x y. GCJ02toWGS84 f32 lon lat = (f32 x, f32 y) \<and> \<bar>x - lon\<bar> \<le> 0.01 \<and> \<bar>y - lat\<bar> \<le> 0.01"
proof -
  let ?lb = "(lon - 0.01, lon + 0.01)" and ?tb = "(lat - 0.01, lat + 0.01)"
  obtain n where n: "(10000 :: nat) = Suc n" by (rule that [of 9999]) simp
  obtain x y where w: "wgs_bisect 10000 f32 lon lat ?lb ?tb (0, 0) = (x, y)" by force
  have "in_box (wgs_bisect (Suc n) f32 lon lat ?lb ?tb (0, 0)) ?lb ?tb" by (rule wgs_bisect_in_box) simp_all
  then have "in_box (x, y) ?lb ?tb" by (simp only: w flip: n)
  then have "\<bar>x - lon\<bar> \<le> 0.01 \<and> \<bar>y - lat\<bar> \<le> 0.01"
    unfolding in_box_def abs_le_iff fst_conv snd_conv by linarith
  moreover have "GCJ02toWGS84 f32 lon lat = (f32 x, f32 y)" unfolding GCJ02toWGS84_def w by simp
  ultimately show ?thesis by blast
qed

lemma coord_cast_point: "2 \<le> length v \<Longrightarrow> coord_cast f v acc = Some (acc @ [f (v ! 0) (v ! 1)])"
  by (auto simp: coord_cast_def slice_get_def)

lemma CoordListCast_points:
  "(\<forall>v \<in> set coords. 2 \<le> length v) \<Longrightarrow>
   CoordListCast coords f = Some (map (\<lambda>v. f (v ! 0) (v ! 1)) coords)"
proof -
  have "fold_opt (coord_cast f) coords acc = Some (acc @ map (\<lambda>v. f (v ! 0) (v ! 1)) coords)"
    if "\<forall>v \<in> set coords. 2 \<le> length v" for acc
    using that by (induction coords arbitrary: acc) (simp_all add: coord_cast_point)
  then show "(\<forall>v \<in> set coords. 2 \<le> length v) \<Longrightarrow> ?thesis" by (simp add: CoordListCast_def)
qed

lemma CoordConvert_length:
  "(\<forall>v \<in> set points. 2 \<le> length v) \<Longrightarrow>
   \<exists>ws. CoordConvertToGCJ02 f32 points c = Some ws \<and> length ws = length points"
  by (simp add: CoordConvertToGCJ02_def CoordListCast_points Let_def)

end
