(* ===== verification/Route_Types.thy ===== *)
theory Route_Types
  imports Geo_Coord "HOL-Library.AList"
begin

text \<open>
  The types the service components exchange: \<open>internal/provider/provider.go\<close> (steps, route
  requests and results, the \<open>Provider\<close> interface), \<open>registry.go\<close>, and the record types of
  \<open>internal/cache/edge.go\<close>. What lies outside the program (HTTP, Redis, MySQL, the clock) is a
  state of a type \<open>'w\<close> that calls thread through; a Go interface value is a record of functions.
  A Go \<open>error\<close> is the left summand of a sum.
\<close>

section \<open>Strings\<close>

text \<open>\<open>strings.Split\<close> at a one-character separator, \<open>strings.TrimSpace\<close> on ASCII strings.\<close>

fun Split :: "char \<Rightarrow> string \<Rightarrow> string list" where
  "Split sep [] = [[]]"
| "Split sep (c # cs) = (if c = sep then [] # Split sep cs else (c # hd (Split sep cs)) # tl (Split sep cs))"

definition is_space :: "char \<Rightarrow> bool" where
  "is_space c \<longleftrightarrow> of_char c \<in> {9, 10, 11, 12, 13, 32 :: nat}"

definition TrimSpace :: "string \<Rightarrow> string" where
  "TrimSpace s = rev (dropWhile is_space (rev (dropWhile is_space s)))"

definition HasPrefix :: "string \<Rightarrow> string \<Rightarrow> bool" where
  "HasPrefix s p \<longleftrightarrow> take (length p) s = p"

section \<open>Steps and edges\<close>

definition SourceProvider :: string where "SourceProvider = ''provider''"
definition SourceCache :: string where "SourceCache = ''cache''"
definition SourceFallback :: string where "SourceFallback = ''fallback''"

lemma sources_distinct [simp]:
  "SourceProvider \<noteq> SourceFallback" "SourceFallback \<noteq> SourceProvider" "SourceCache \<noteq> SourceFallback"
  "SourceFallback \<noteq> SourceCache" "SourceProvider \<noteq> SourceCache" "SourceCache \<noteq> SourceProvider"
  by (simp_all add: SourceProvider_def SourceCache_def SourceFallback_def)

record step =
  st_origin :: coord
  st_destination :: coord
  st_distance :: real
  st_duration :: real
  st_polyline :: string
  st_source :: string

record edge =
  ed_origin :: coord
  ed_destination :: coord
  ed_distance :: real
  ed_duration :: real
  ed_polyline :: string
  ed_wmt :: string
  ed_provider :: string
  ed_computed_at :: "int option"

record lookup_opts =
  lo_tenant :: string
  lo_method :: int
  lo_strategy :: int
  lo_time_slot :: string
  lo_strict :: bool
  lo_geo_wide :: int
  lo_edge_ttl :: int

definition StepToEdge :: "step \<Rightarrow> string \<Rightarrow> string \<Rightarrow> edge" where
  "StepToEdge s wmt providerName =
     \<lparr>ed_origin = st_origin s, ed_destination = st_destination s, ed_distance = st_distance s,
      ed_duration = st_duration s, ed_polyline = st_polyline s, ed_wmt = wmt,
      ed_provider = providerName, ed_computed_at = None\<rparr>"

definition edgeToStep :: "edge \<Rightarrow> step" where
  "edgeToStep e =
     \<lparr>st_origin = ed_origin e, st_destination = ed_destination e, st_distance = ed_distance e,
      st_duration = ed_duration e, st_polyline = ed_polyline e, st_source = SourceCache\<rparr>"

lemma edgeToStep_StepToEdge [simp]: "edgeToStep (StepToEdge s wmt n) = s\<lparr>st_source := SourceCache\<rparr>"
  by (cases s) (simp add: edgeToStep_def StepToEdge_def)

definition step_ends :: "step \<Rightarrow> coord \<times> coord" where
  "step_ends s = (st_origin s, st_destination s)"

section \<open>Requests and results\<close>

record route_request =
  rq_waypoints :: "coord list"
  rq_strategy :: int
  rq_method :: int
  rq_speed :: int

record route_result =
  rr_steps :: "step list"
  rr_distance :: real
  rr_duration :: real
  rr_source :: string
  rr_degraded :: bool

definition empty_result :: route_result where
  "empty_result = \<lparr>rr_steps = [], rr_distance = 0, rr_duration = 0, rr_source = '''', rr_degraded = False\<rparr>"

text \<open>The interface \<open>Provider\<close>; \<open>'e\<close> is the type of its errors.\<close>

record ('e, 'w) provider =
  prov_Name :: string
  prov_Route :: "route_request \<Rightarrow> 'w \<Rightarrow> ('e + route_result) \<times> 'w"
  prov_Ready :: "'w \<Rightarrow> bool"

section \<open>Registry\<close>

text \<open>The map of providers as an association list; the order of \<open>List\<close> is unspecified in Go.\<close>

record ('e, 'w) registry =
  reg_providers :: "(string \<times> ('e, 'w) provider) list"
  reg_default :: string

definition NewRegistry :: "('e, 'w) registry" where
  "NewRegistry = \<lparr>reg_providers = [], reg_default = ''''\<rparr>"

definition registry_Register :: "('e, 'w) provider \<Rightarrow> ('e, 'w) registry \<Rightarrow> ('e, 'w) registry" where
  "registry_Register p r =
     (let r1 = r\<lparr>reg_providers := AList.update (prov_Name p) p (reg_providers r)\<rparr>
      in if reg_default r1 = '''' then r1\<lparr>reg_default := prov_Name p\<rparr> else r1)"

definition registry_SetDefault :: "string \<Rightarrow> ('e, 'w) registry \<Rightarrow> ('e, 'w) registry" where
  "registry_SetDefault name r = r\<lparr>reg_default := name\<rparr>"

text \<open>\<open>None\<close> stands for the error "provider not found".\<close>

definition registry_Get :: "string \<Rightarrow> ('e, 'w) registry \<Rightarrow> ('e, 'w) provider option" where
  "registry_Get name0 r =
     (let name = (if name0 = '''' then reg_default r else name0) in map_of (reg_providers r) name)"

definition registry_List :: "('e, 'w) registry \<Rightarrow> string list" where
  "registry_List r = map fst (reg_providers r)"

definition registry_Ready :: "('e, 'w) registry \<Rightarrow> 'w \<Rightarrow> bool" where
  "registry_Ready r w = list_ex (\<lambda>(k, p). prov_Ready p w) (reg_providers r)"

lemma Get_Register: "name \<noteq> '''' \<Longrightarrow>
    registry_Get name (registry_Register p r) = (if name = prov_Name p then Some p else registry_Get name r)"
  by (simp add: registry_Get_def registry_Register_def update_conv' Let_def)

lemma List_Register: "set (registry_List (registry_Register p r)) = insert (prov_Name p) (set (registry_List r))"
  by (auto simp: registry_List_def registry_Register_def Let_def update_keys simp del: set_map list.set_map)

section \<open>The contract of a provider\<close>

text \<open>Whatever a provider answers, its steps follow the legs of the route from the start.\<close>

definition follows_legs :: "coord list \<Rightarrow> step list \<Rightarrow> bool" where
  "follows_legs wps steps \<longleftrightarrow> map step_ends steps = take (length steps) (legs_of wps)"

lemma follows_legs_length: "follows_legs wps steps \<Longrightarrow> length steps \<le> length wps - 1"
  unfolding follows_legs_def by (drule arg_cong [where f = length]) simp

lemma follows_legs_snoc:
  assumes "follows_legs wps steps" "length steps + 1 < length wps"
    and "step_ends s = (wps ! length steps, wps ! Suc (length steps))"
  shows "follows_legs wps (steps @ [s])"
  using assms by (simp add: follows_legs_def take_Suc_conv_app_nth nth_legs_of)

lemma follows_legs_upd:
  assumes "follows_legs wps steps" "step_ends s = step_ends (steps ! i)"
  shows "follows_legs wps (steps[i := s])"
proof (cases "i < length steps")
  case True
  then have "map step_ends (steps[i := s]) = (map step_ends steps)[i := map step_ends steps ! i]"
    using assms(2) by (simp add: map_update)
  then show ?thesis using assms(1) by (simp only: follows_legs_def list_update_id length_list_update)
qed (use assms in \<open>simp add: list_update_beyond\<close>)

lemma follows_legs_ends: "follows_legs wps steps \<Longrightarrow> set (map step_ends steps) \<subseteq> set (legs_of wps)"
  unfolding follows_legs_def using set_take_subset by metis

lemma follows_legs_all: "follows_legs wps steps \<Longrightarrow> length steps = length wps - 1 \<Longrightarrow> map step_ends steps = legs_of wps"
  by (simp add: follows_legs_def)

locale route_provider =
  fixes route :: "route_request \<Rightarrow> 'w \<Rightarrow> ('e + route_result) \<times> 'w"
  assumes route_follows: "fst (route rq w) = Inr res \<Longrightarrow> follows_legs (rq_waypoints rq) (rr_steps res)"

end
