(* ===== verification/Batch_Planner.thy ===== *)
theory Batch_Planner
  imports Route_Types
begin

text \<open>
  \<open>internal/planner/planner.go\<close>: long routes are cut into packets, one goroutine each. A
  goroutine is one atomic step; the argument \<open>sched\<close> lists the packet indices in the order in
  which the goroutines run, so a statement for every permutation covers every such interleaving
  (overlapping calls of \<open>Route\<close> are not modelled). The first error cancels the group's context,
  after which a goroutine that has not started returns the context's error and makes no call.
  \<open>cancelled\<close> polls the caller's context.
\<close>

datatype 'e plan_error = ContextError | RouteError 'e

record planner =
  batch_size :: int

definition NewPlanner :: "int \<Rightarrow> planner" where
  "NewPlanner batchSize = \<lparr>batch_size = (if batchSize \<le> 0 then 12 else batchSize)\<rparr>"

text \<open>The variables the goroutines share: \<open>results\<close>, \<open>calls\<close>, the first error, and the world.\<close>

type_synonym ('e, 'w) group_state = "step list list \<times> nat \<times> 'e plan_error option \<times> 'w"

definition run_packet :: "(route_request \<Rightarrow> 'w \<Rightarrow> ('e + route_result) \<times> 'w) \<Rightarrow> ('w \<Rightarrow> bool \<times> 'w) \<Rightarrow> route_request \<Rightarrow>
    coord list list \<Rightarrow> nat \<Rightarrow> ('e, 'w) group_state \<Rightarrow> ('e, 'w) group_state" where
  "run_packet route cancelled req packets i = (\<lambda>(results, calls, err, w).
     if err \<noteq> None then (results, calls, err, w)
     else case cancelled w of
       (True, w1) \<Rightarrow> (results, calls, Some ContextError, w1)
     | (False, w1) \<Rightarrow>
         (case route (req\<lparr>rq_waypoints := packets ! i\<rparr>) w1 of
            (Inl e, w2) \<Rightarrow> (results, calls + 1, Some (RouteError e), w2)
          | (Inr res, w2) \<Rightarrow> (results[i := rr_steps res], calls + 1, None, w2)))"

definition RouteWaypoints :: "(nat \<Rightarrow> nat list) \<Rightarrow> (route_request \<Rightarrow> 'w \<Rightarrow> ('e + route_result) \<times> 'w) \<Rightarrow> ('w \<Rightarrow> bool \<times> 'w) \<Rightarrow>
    planner \<Rightarrow> route_request \<Rightarrow> coord list \<Rightarrow> 'w \<Rightarrow> (('e plan_error + step list) \<times> nat) \<times> 'w" where
  "RouteWaypoints sched route cancelled p req waypoints w =
     (if length waypoints < 2 then ((Inr [], 0), w)
      else case WaypointsPacket (batch_size p) waypoints of
        None \<Rightarrow> ((Inr [], 0), w)
      | Some packets \<Rightarrow>
          if length packets = 0 then ((Inr [], 0), w)
          else (case fold (run_packet route cancelled req packets) (sched (length packets))
                       (replicate (length packets) [], 0, None, w) of
                  (results, calls, Some e, w') \<Rightarrow> ((Inl e, calls), w')
                | (results, calls, None, w') \<Rightarrow> ((Inr (concat results), calls), w')))"

text \<open>The case \<open>None\<close>, a range that never ends, cannot occur.\<close>

lemma WaypointsPacket_returns: "\<exists>ps. WaypointsPacket batch wps = Some ps"
  by (simp add: WaypointsPacket_def geo_Range_def range_args_def)

definition RoutePair :: "(route_request \<Rightarrow> 'w \<Rightarrow> ('e + route_result) \<times> 'w) \<Rightarrow> route_request \<Rightarrow> coord \<Rightarrow> coord \<Rightarrow> 'w \<Rightarrow>
    (('e + step) \<times> nat) \<times> 'w" where
  "RoutePair route req origin destination w =
     (case route (req\<lparr>rq_waypoints := [origin, destination]\<rparr>) w of
        (Inl e, w') \<Rightarrow> ((Inl e, 1), w')
      | (Inr res, w') \<Rightarrow>
          if length (rr_steps res) = 0
          then ((Inr \<lparr>st_origin = origin, st_destination = destination, st_distance = rr_distance res,
                   st_duration = rr_duration res, st_polyline = '''', st_source = rr_source res\<rparr>, 1), w')
          else ((Inr (rr_steps res ! 0), 1), w'))"

section \<open>Facts for every provider\<close>

definition schedule_ok :: "(nat \<Rightarrow> nat list) \<Rightarrow> bool" where
  "schedule_ok sched \<longleftrightarrow> (\<forall>n. mset (sched n) = mset [0..<n])"

lemma schedule_members: "schedule_ok sched \<Longrightarrow> set (sched n) = {..<n} \<and> distinct (sched n) \<and> length (sched n) = n"
  unfolding schedule_ok_def
  by (metis atLeast0LessThan diff_zero distinct_upt length_upt mset_eq_imp_distinct_iff mset_eq_length mset_eq_setD set_upt)

lemma run_packet_calls:
  "fst (snd (fold (run_packet route cancelled req packets) is (rs, c, err, w))) \<le> c + length is"
proof (induction "is" arbitrary: rs c err w)
  case (Cons i "is")
  obtain rs' c' err' w' where step: "run_packet route cancelled req packets i (rs, c, err, w) = (rs', c', err', w')"
    by (metis surj_pair)
  then have "c' \<le> c + 1" by (auto simp: run_packet_def split: if_splits prod.splits bool.splits sum.splits)
  with Cons.IH [of rs' c' err' w'] step show ?case by simp
qed simp

lemma RouteWaypoints_calls:
  assumes "schedule_ok sched" "WaypointsPacket (batch_size p) wps = Some ps"
  shows "snd (fst (RouteWaypoints sched route cancelled p req wps w)) \<le> length ps"
proof -
  obtain rs c err w' where run: "fold (run_packet route cancelled req ps) (sched (length ps)) (replicate (length ps) [], 0, None, w) =
      (rs, c, err, w')" by (metis surj_pair)
  then have "c \<le> length ps"
    using run_packet_calls [of route cancelled req ps "sched (length ps)" "replicate (length ps) []" 0 None w]
      schedule_members [OF assms(1), of "length ps"] by simp
  then show ?thesis using run assms(2) by (cases err) (simp_all add: RouteWaypoints_def)
qed

text \<open>A route of at most \<open>BatchSize\<close> points is one packet, so one call.\<close>

lemma RouteWaypoints_single:
  assumes "schedule_ok sched" "2 \<le> length wps" "int (length wps) \<le> batch_size p"
  shows "RouteWaypoints sched route cancelled p req wps w =
    (case cancelled w of
       (True, w1) \<Rightarrow> ((Inl ContextError, 0), w1)
     | (False, w1) \<Rightarrow>
         (case route (req\<lparr>rq_waypoints := wps\<rparr>) w1 of
            (Inl e, w2) \<Rightarrow> ((Inl (RouteError e), 1), w2)
          | (Inr res, w2) \<Rightarrow> ((Inr (rr_steps res), 1), w2)))"
proof -
  have "WaypointsPacket (batch_size p) wps = Some [wps]"
    using packet_single [of wps "nat (batch_size p)"] assms(2,3) by (cases wps) auto
  moreover have "sched 1 = [0]"
    using schedule_members [OF assms(1), of 1] by (cases "sched 1") auto
  ultimately show ?thesis
    using assms(2) by (simp add: RouteWaypoints_def run_packet_def split: prod.split bool.split sum.split)
qed

section \<open>What follows from the contract of a provider\<close>

lemma packet_legs:
  assumes "WaypointsPacket batch wps = Some ps" "q \<in> set ps"
  shows "set (legs_of q) \<subseteq> set (legs_of wps)"
proof (cases "0 < batch")
  case True
  then have "concat (map legs_of ps) = legs_of wps" using packets_cut [of batch wps] assms(1) by auto
  then have "set (legs_of wps) = (\<Union>q \<in> set ps. set (legs_of q))" by (metis set_concat set_map image_image)
  with assms(2) show ?thesis by auto
next
  case False
  then have "ps = []" using assms(1)
    by (auto simp: WaypointsPacket_def geo_Range_def range_args_def range_down.simps split: if_splits)
  with assms(2) show ?thesis by simp
qed

context route_provider
begin

lemma run_packet_follows:
  assumes "\<forall>i < length packets. set (map step_ends (rs ! i)) \<subseteq> set (legs_of (packets ! i))" "length rs = length packets"
    and "run_packet route cancelled req packets j (rs, c, err, w) = (rs', c', err', w')"
  shows "(\<forall>i < length packets. set (map step_ends (rs' ! i)) \<subseteq> set (legs_of (packets ! i))) \<and> length rs' = length packets"
proof -
  have "set (map step_ends (rr_steps res)) \<subseteq> set (legs_of (packets ! j))"
    if "route (req\<lparr>rq_waypoints := packets ! j\<rparr>) v = (Inr res, v')" for v res v'
    using follows_legs_ends [OF route_follows [of "req\<lparr>rq_waypoints := packets ! j\<rparr>" v res]] that by simp
  moreover have "rs' = rs \<or> (\<exists>v res v'. route (req\<lparr>rq_waypoints := packets ! j\<rparr>) v = (Inr res, v') \<and> rs' = rs[j := rr_steps res])"
    using assms(3) by (auto simp: run_packet_def split: if_splits prod.splits bool.splits sum.splits)
  ultimately have "rs' = rs \<or> (\<exists>r. set (map step_ends r) \<subseteq> set (legs_of (packets ! j)) \<and> rs' = rs[j := r])" by blast
  then show ?thesis using assms(1,2)
  proof (elim disjE exE conjE)
    fix r assume r: "set (map step_ends r) \<subseteq> set (legs_of (packets ! j))" "rs' = rs[j := r]"
    have "rs' ! i = r \<and> i = j \<or> rs' ! i = rs ! i" for i
      unfolding r(2) by (metis list_update_beyond not_le nth_list_update)
    then show ?thesis using assms(1,2) r by (metis length_list_update)
  qed simp
qed

lemma fold_packets_follow:
  assumes "\<forall>i < length packets. set (map step_ends (rs ! i)) \<subseteq> set (legs_of (packets ! i))" "length rs = length packets"
    and "fold (run_packet route cancelled req packets) is (rs, c, err, w) = (rs', c', err', w')"
  shows "(\<forall>i < length packets. set (map step_ends (rs' ! i)) \<subseteq> set (legs_of (packets ! i))) \<and> length rs' = length packets"
  using assms
proof (induction "is" arbitrary: rs c err w)
  case (Cons i "is")
  obtain rs1 c1 err1 w1 where "run_packet route cancelled req packets i (rs, c, err, w) = (rs1, c1, err1, w1)"
    by (metis surj_pair)
  with Cons.IH [of rs1 c1 err1 w1] run_packet_follows [OF Cons.prems(1,2) this] Cons.prems(3) show ?case by simp
qed simp

lemma RouteWaypoints_legs:
  assumes "fst (RouteWaypoints sched route cancelled p req wps w) = (Inr steps, n)"
  shows "set (map step_ends steps) \<subseteq> set (legs_of wps)"
proof -
  obtain ps where ps: "WaypointsPacket (batch_size p) wps = Some ps" using WaypointsPacket_returns by blast
  obtain rs c err w' where run: "fold (run_packet route cancelled req ps) (sched (length ps)) (replicate (length ps) [], 0, None, w) =
      (rs, c, err, w')" by (metis surj_pair)
  have "steps = [] \<or> steps = concat rs"
    using assms run ps by (auto simp: RouteWaypoints_def split: if_splits option.splits)
  moreover have "set (map step_ends (concat rs)) \<subseteq> set (legs_of wps)"
  proof
    fix e assume "e \<in> set (map step_ends (concat rs))"
    then obtain r where "r \<in> set rs" "e \<in> set (map step_ends r)" by auto
    then obtain i where i: "i < length rs" "e \<in> set (map step_ends (rs ! i))" by (metis in_set_conv_nth)
    then have "i < length ps" "e \<in> set (legs_of (ps ! i))"
      using fold_packets_follow [OF _ _ run] by auto
    then show "e \<in> set (legs_of wps)" using packet_legs [OF ps] nth_mem by blast
  qed
  ultimately show ?thesis by auto
qed

lemma RoutePair_ends:
  assumes "fst (RoutePair route req a b w) = (Inr st, n)"
  shows "step_ends st = (a, b) \<and> n = 1"
proof -
  obtain res w' where res: "route (req\<lparr>rq_waypoints := [a, b]\<rparr>) w = (Inr res, w')"
    using assms by (auto simp: RoutePair_def split: prod.splits sum.splits)
  have "follows_legs [a, b] (rr_steps res)" using route_follows [of "req\<lparr>rq_waypoints := [a, b]\<rparr>" w res] res by simp
  then have "rr_steps res \<noteq> [] \<Longrightarrow> step_ends (rr_steps res ! 0) = (a, b)"
    by (cases "rr_steps res") (auto simp: follows_legs_def legs_of_def)
  with assms res show ?thesis by (auto simp: RoutePair_def step_ends_def split: if_splits)
qed

end

section \<open>Providers whose answers do not depend on the order\<close>

lemma legs_of_Nil: "legs_of xs = [] \<longleftrightarrow> length xs \<le> 1"
  by (cases xs; cases "tl xs") (simp_all add: legs_of_def)

lemma fold_pure_packets:
  assumes "\<And>q. q \<in> set packets \<Longrightarrow> isl (answer (req\<lparr>rq_waypoints := q\<rparr>)) = False" "set is \<subseteq> {..<length packets}"
  shows "fold (run_packet (\<lambda>rq w. (answer rq, w)) (\<lambda>w. (False, w)) req packets) is (rs, c, None, w) =
    (fold (\<lambda>i rs. rs[i := rr_steps (projr (answer (req\<lparr>rq_waypoints := packets ! i\<rparr>)))]) is rs, c + length is, None, w)"
  using assms(2)
proof (induction "is" arbitrary: rs c)
  case (Cons i "is")
  then have "isl (answer (req\<lparr>rq_waypoints := packets ! i\<rparr>)) = False" by (intro assms(1)) simp
  then have "run_packet (\<lambda>rq w. (answer rq, w)) (\<lambda>w. (False, w)) req packets i (rs, c, None, w) =
      (rs[i := rr_steps (projr (answer (req\<lparr>rq_waypoints := packets ! i\<rparr>)))], c + 1, None, w)"
    by (cases "answer (req\<lparr>rq_waypoints := packets ! i\<rparr>)") (simp_all add: run_packet_def)
  with Cons show ?case by simp
qed simp

lemma fold_updates:
  assumes "length rs = n" "set is \<subseteq> {..<n}"
  shows "length (fold (\<lambda>i rs. rs[i := f i]) is rs) = n \<and>
    (\<forall>j < n. fold (\<lambda>i rs. rs[i := f i]) is rs ! j = (if j \<in> set is then f j else rs ! j))"
  using assms by (induction "is" arbitrary: rs) (auto simp: nth_list_update)

text \<open>
  C16: the order in which the goroutines run does not matter: for a provider whose answer depends
  on the request only and that answers every packet, \<open>RouteWaypoints\<close> returns under every
  schedule the steps of the packets in the order of the route, with one call per packet.
\<close>

theorem RouteWaypoints_any_schedule:
  assumes "\<forall>n. mset (sched n) = mset [0..<n]" "2 \<le> length wps" "WaypointsPacket (batch_size p) wps = Some ps" "0 < batch_size p"
    and "\<forall>q \<in> set ps. isl (answer (req\<lparr>rq_waypoints := q\<rparr>)) = False"
  shows "RouteWaypoints sched (\<lambda>rq w. (answer rq, w)) (\<lambda>w. (False, w)) p req wps w =
    ((Inr (concat (map (\<lambda>q. rr_steps (projr (answer (req\<lparr>rq_waypoints := q\<rparr>)))) ps)), length ps), w)"
proof -
  let ?f = "\<lambda>i. rr_steps (projr (answer (req\<lparr>rq_waypoints := ps ! i\<rparr>)))"
  have sched: "set (sched (length ps)) = {..<length ps}" "length (sched (length ps)) = length ps"
    using schedule_members [of sched "length ps"] assms(1) by (simp_all add: schedule_ok_def)
  have "concat (map legs_of ps) = legs_of wps" using packets_cut [OF assms(4), of wps] assms(3) by auto
  moreover have "legs_of wps \<noteq> []" using assms(2) by (simp add: legs_of_Nil)
  ultimately have ne: "ps \<noteq> []" by auto
  have "fold (\<lambda>i rs. rs[i := ?f i]) (sched (length ps)) (replicate (length ps) []) = map ?f [0..<length ps]"
    using fold_updates [of "replicate (length ps) []" "length ps" "sched (length ps)" ?f] sched(1)
    by (intro nth_equalityI) simp_all
  also have "\<dots> = map (\<lambda>q. rr_steps (projr (answer (req\<lparr>rq_waypoints := q\<rparr>)))) ps"
    by (rule nth_equalityI) simp_all
  finally show ?thesis
    using fold_pure_packets [of ps answer req "sched (length ps)" "replicate (length ps) []" 0 w] assms(2,3,5) ne sched
    by (simp add: RouteWaypoints_def)
qed

definition unit_answer :: "route_request \<Rightarrow> unit + route_result" where
  "unit_answer rq = Inr (empty_result\<lparr>rr_steps := map (\<lambda>(a, b). \<lparr>st_origin = a, st_destination = b, st_distance = 1,
     st_duration = 1, st_polyline = '''', st_source = SourceProvider\<rparr>) (legs_of (rq_waypoints rq))\<rparr>)"

theorem RouteWaypoints_any_schedule_witness:
  "\<exists>steps. RouteWaypoints (\<lambda>n. rev [0..<n]) (\<lambda>rq w. (unit_answer rq, w)) (\<lambda>w. (False, w)) (NewPlanner 2)
       \<lparr>rq_waypoints = [], rq_strategy = 0, rq_method = 0, rq_speed = 0\<rparr> [(0, 0), (1, 1), (2, 2), (3, 3)] () = ((Inr steps, 2), ()) \<and>
     map step_ends steps = legs_of [(0, 0), (1, 1), (2, 2), (3, 3)]"
proof -
  let ?wps = "[(0, 0), (1, 1), (2, 2), (3, 3)] :: coord list"
  have packets: "WaypointsPacket (batch_size (NewPlanner 2)) ?wps = Some [[(0, 0), (1, 1)], [(1, 1), (2, 2), (3, 3)]]"
    by (simp add: NewPlanner_def WaypointsPacket_def geo_Range_def range_args_def range_up.simps packet_at_def)
  from RouteWaypoints_any_schedule [of "\<lambda>n. rev [0..<n]", OF _ _ packets, where answer = unit_answer and w = "()"
      and req = "\<lparr>rq_waypoints = [], rq_strategy = 0, rq_method = 0, rq_speed = 0\<rparr>"]
  show ?thesis by (simp add: NewPlanner_def) (simp add: unit_answer_def legs_of_def step_ends_def)
qed

end
