(* ===== verification/Cache_Keys.thy ===== *)
theory Cache_Keys
  imports Route_Types
begin

text \<open>
  The textual keys of \<open>internal/cache\<close> and \<open>internal/engine\<close>: \<open>ContextKey\<close> with its private
  \<open>itoa\<close> (\<open>edge.go\<close>), the Redis key names and \<open>FormatCoordKey\<close> (\<open>store.go\<close>), and \<open>pairKey\<close>
  (\<open>engine.go\<close>). The lemmas say which edges share a key. \<open>strconv.Itoa\<close> and
  \<open>strconv.FormatFloat(x, 'f', 6, 32)\<close> are modelled on numbers; the float values NaN, the
  infinities and negative zero have no counterpart.
\<close>

section \<open>Decimal digits\<close>

definition digit :: "nat \<Rightarrow> char" where
  "digit d = char_of (48 + d)"

fun digits :: "nat \<Rightarrow> string" where
  "digits n = (if n < 10 then [digit n] else digits (n div 10) @ [digit (n mod 10)])"

declare digits.simps [simp del]

definition digit_value :: "char \<Rightarrow> nat" where
  "digit_value c = of_char c - 48"

definition digits_value :: "string \<Rightarrow> nat" where
  "digits_value = foldl (\<lambda>n c. 10 * n + digit_value c) 0"

definition is_digit :: "char \<Rightarrow> bool" where
  "is_digit c \<longleftrightarrow> (let n = of_char c :: nat in 48 \<le> n \<and> n \<le> 57)"

lemma digit_zero: "digit 0 = CHR ''0''"
  by code_simp

lemma of_char_digit: "d < 10 \<Longrightarrow> of_char (digit d) = 48 + d"
  by (simp add: digit_def)

lemma digit_value_digit [simp]: "d < 10 \<Longrightarrow> digit_value (digit d) = d"
  by (simp add: digit_value_def of_char_digit)

lemma is_digit_digit [simp]: "d < 10 \<Longrightarrow> is_digit (digit d)"
  by (simp add: is_digit_def of_char_digit)

lemma digits_value_digits [simp]: "digits_value (digits n) = n"
proof (induction n rule: digits.induct)
  case (1 n)
  then show ?case by (cases "n < 10") (simp_all add: digits.simps [of n] digits_value_def)
qed

lemma digits_inj: "digits m = digits n \<Longrightarrow> m = n"
  using digits_value_digits by metis

lemma digits_are_digits: "c \<in> set (digits n) \<Longrightarrow> is_digit c"
proof (induction n rule: digits.induct)
  case (1 n)
  then show ?case by (cases "n < 10") (auto simp: digits.simps [of n])
qed

lemma digits_nonempty: "digits n \<noteq> []"
  by (subst digits.simps) simp

lemma digits_length_le: "n < 10 ^ k \<Longrightarrow> 0 < k \<Longrightarrow> length (digits n) \<le> k"
proof (induction k arbitrary: n)
  case (Suc k)
  show ?case
  proof (cases "n < 10")
    case True
    then show ?thesis by (simp add: digits.simps)
  next
    case False
    then have "n div 10 < 10 ^ k" "0 < k" using Suc.prems by (cases k; simp)+
    with Suc.IH [of "n div 10"] False show ?thesis by (subst digits.simps) simp
  qed
qed simp

lemma digits_length_ge: "10 ^ k \<le> n \<Longrightarrow> k < length (digits n)"
proof (induction k arbitrary: n)
  case 0
  then show ?case using digits_nonempty by simp
next
  case (Suc k)
  then have "10 ^ k \<le> n div 10" using div_le_mono [of "10 ^ Suc k" n 10] by simp
  moreover have "10 \<le> n" using Suc.prems le_trans [of 10 "10 ^ Suc k" n] by simp
  ultimately show ?case using Suc.IH [of "n div 10"] by (subst digits.simps) simp
qed

section \<open>Integers\<close>

definition Itoa :: "int \<Rightarrow> string" where
  "Itoa n = (if n < 0 then CHR ''-'' # digits (nat (- n)) else digits (nat n))"

text \<open>
  The private \<open>itoa\<close> of \<open>edge.go\<close>: it fills a 12-byte buffer from the right; running out of bytes
  is an index panic (\<open>None\<close>), and its loop does nothing for a negative number.
\<close>

function itoa_loop :: "nat \<Rightarrow> int \<Rightarrow> string \<Rightarrow> string option" where
  "itoa_loop i n b =
     (if n > 0 then (if i = 0 then None else itoa_loop (i - 1) (n div 10) (digit (nat (n mod 10)) # b))
      else Some b)"
  by pat_completeness auto
termination by (relation "measure (\<lambda>(i, n, b). i)") auto

declare itoa_loop.simps [simp del]

definition itoa :: "int \<Rightarrow> string option" where
  "itoa n = (if n = 0 then Some ''0'' else itoa_loop 12 n [])"

definition ContextKey :: "int \<Rightarrow> int \<Rightarrow> string option" where
  "ContextKey m s = do { a \<leftarrow> itoa m; b \<leftarrow> itoa s; Some (a @ '':'' @ b) }"

lemma itoa_loop_digits:
  "0 < n \<Longrightarrow> itoa_loop i (int n) b = (if length (digits n) \<le> i then Some (digits n @ b) else None)"
proof (induction n arbitrary: i b rule: digits.induct)
  case (1 n)
  show ?case
  proof (cases i)
    case 0
    then show ?thesis using 1(2) digits_nonempty by (simp add: itoa_loop.simps)
  next
    case (Suc j)
    have m: "nat (int n mod 10) = n mod 10" "int n div 10 = int (n div 10)" by (simp_all add: nat_mod_distrib zdiv_int)
    show ?thesis
    proof (cases "n < 10")
      case True
      then show ?thesis using 1(2) Suc m by (subst itoa_loop.simps) (simp add: itoa_loop.simps digits.simps)
    next
      case False
      then show ?thesis using 1 Suc m by (subst itoa_loop.simps, subst (1 2) digits.simps) simp
    qed
  qed
qed

text \<open>What \<open>itoa\<close> computes: the decimal digits up to twelve, nothing for a negative number.\<close>

lemma itoa_cases:
  "itoa n = (if n < 0 then Some [] else if length (digits (nat n)) \<le> 12 then Some (digits (nat n)) else None)"
proof -
  consider "n < 0" | "n = 0" | "0 < n" by linarith
  then show ?thesis
  proof cases
    case 1
    then show ?thesis by (simp add: itoa_def itoa_loop.simps)
  next
    case 2
    then show ?thesis by (simp add: itoa_def digits.simps digit_zero)
  next
    case 3
    then show ?thesis using itoa_loop_digits [of "nat n" 12 "[]"] by (simp add: itoa_def)
  qed
qed

lemma itoa_small: "0 \<le> n \<Longrightarrow> n < 10 ^ 12 \<Longrightarrow> itoa n = Some (digits (nat n))"
  using digits_length_le [of "nat n" 12] by (simp add: itoa_cases nat_less_iff)

lemma itoa_negative: "n < 0 \<Longrightarrow> itoa n = Some ''''"
  by (simp add: itoa_cases)

lemma itoa_panics: "10 ^ 12 \<le> n \<Longrightarrow> itoa n = None"
  using digits_length_ge [of 12 "nat n"] by (simp add: itoa_cases le_nat_iff)

section \<open>Coordinates\<close>

text \<open>Exact decimal rounding to nearest, ties to even, as \<open>strconv.FormatFloat\<close> rounds.\<close>

definition round_even :: "real \<Rightarrow> int" where
  "round_even x =
     (let f = \<lfloor>x\<rfloor>; r = x - of_int f in
      if r < 1 / 2 then f else if r > 1 / 2 then f + 1 else if even f then f else f + 1)"

definition pad6 :: "nat \<Rightarrow> string" where
  "pad6 n = replicate (6 - length (digits n)) (digit 0) @ digits n"

definition FormatFloat6 :: "real \<Rightarrow> string" where
  "FormatFloat6 x =
     (let m = nat (round_even (\<bar>x\<bar> * 10 ^ 6))
      in (if x < 0 then ''-'' else '''') @ digits (m div 10 ^ 6) @ ''.'' @ pad6 (m mod 10 ^ 6))"

definition FormatCoordKey :: "coord \<Rightarrow> string" where
  "FormatCoordKey p = FormatFloat6 (fst p) @ '','' @ FormatFloat6 (snd p)"

definition pairKey :: "coord \<Rightarrow> coord \<Rightarrow> string" where
  "pairKey a b = FormatCoordKey a @ ''>'' @ FormatCoordKey b"

lemma split_first:
  assumes "c \<notin> set xs" "c \<notin> set ys"
  shows "xs @ c # a = ys @ c # b \<longleftrightarrow> xs = ys \<and> a = b"
  using assms
proof (induction xs arbitrary: ys)
  case Nil
  then show ?case by (cases ys) auto
next
  case (Cons x xs)
  then show ?case by (cases ys) auto
qed

lemma split_last:
  assumes "c \<notin> set a" "c \<notin> set b"
  shows "xs @ c # a = ys @ c # b \<longleftrightarrow> xs = ys \<and> a = b"
proof -
  have "xs @ c # a = ys @ c # b \<longleftrightarrow> rev a @ c # rev xs = rev b @ c # rev ys"
    using rev_is_rev_conv [of "xs @ c # a" "ys @ c # b"] by simp
  then show ?thesis using split_first [of c "rev a" "rev b"] assms by auto
qed

lemma separators [simp]:
  "\<not> is_digit CHR '':''" "\<not> is_digit CHR '',''" "\<not> is_digit CHR ''>''" "\<not> is_digit CHR ''.''" "\<not> is_digit CHR ''-''"
  by code_simp+

lemma no_separator: "\<not> is_digit c \<Longrightarrow> c \<notin> set (digits n)"
  using digits_are_digits by blast

lemma digits_value_pad: "digits_value (replicate k (digit 0) @ s) = digits_value s"
  unfolding digits_value_def by (induction k) simp_all

lemma pad6_inj: "pad6 m = pad6 n \<longleftrightarrow> m = n"
  using digits_value_pad digits_value_digits unfolding pad6_def by metis

lemma pad6_digits: "c \<in> set (pad6 n) \<Longrightarrow> is_digit c"
  by (auto simp: pad6_def digits_are_digits)

lemma round_even_nonneg: "0 \<le> x \<Longrightarrow> 0 \<le> round_even x"
  by (simp add: round_even_def Let_def)

text \<open>A coordinate in whole micro-degrees, with its sign.\<close>

definition micro :: "real \<Rightarrow> bool \<times> int" where
  "micro x = (x < 0, round_even (\<bar>x\<bar> * 10 ^ 6))"

definition float_body :: "nat \<Rightarrow> string" where
  "float_body m = digits (m div 10 ^ 6) @ CHR ''.'' # pad6 (m mod 10 ^ 6)"

lemma FormatFloat6_body:
  "FormatFloat6 x = (if x < 0 then CHR ''-'' # float_body (nat (snd (micro x))) else float_body (nat (snd (micro x))))"
  by (simp add: FormatFloat6_def float_body_def micro_def Let_def)

lemma float_body_inj: "float_body m = float_body n \<longleftrightarrow> m = n"
proof -
  have "float_body m = float_body n \<longleftrightarrow> digits (m div 10 ^ 6) = digits (n div 10 ^ 6) \<and> pad6 (m mod 10 ^ 6) = pad6 (n mod 10 ^ 6)"
    unfolding float_body_def by (rule split_first) (simp_all add: no_separator)
  also have "\<dots> \<longleftrightarrow> m div 10 ^ 6 = n div 10 ^ 6 \<and> m mod 10 ^ 6 = n mod 10 ^ 6"
    unfolding pad6_inj using digits_inj by auto
  also have "\<dots> \<longleftrightarrow> m = n" by (metis div_mult_mod_eq)
  finally show ?thesis .
qed

lemma float_body_sign: "float_body m \<noteq> CHR ''-'' # s"
proof
  assume "float_body m = CHR ''-'' # s"
  then have "hd (digits (m div 10 ^ 6)) = CHR ''-''"
    using digits_nonempty [of "m div 10 ^ 6"] unfolding float_body_def by (metis hd_append2 list.sel(1))
  then show False using digits_are_digits [OF hd_in_set [OF digits_nonempty]] separators(5) by metis
qed

lemma FormatFloat6_eq_iff: "FormatFloat6 x = FormatFloat6 y \<longleftrightarrow> micro x = micro y"
proof -
  have nonneg: "0 \<le> snd (micro z)" for z by (simp add: micro_def round_even_nonneg)
  have "nat (snd (micro x)) = nat (snd (micro y)) \<longleftrightarrow> snd (micro x) = snd (micro y)"
    using nonneg by (simp add: eq_nat_nat_iff)
  moreover have "fst (micro z) = (z < 0)" for z by (simp add: micro_def)
  ultimately show ?thesis
    by (simp add: FormatFloat6_body float_body_inj float_body_sign float_body_sign [symmetric] prod_eq_iff)
qed

lemma FormatFloat6_chars: "c \<in> set (FormatFloat6 x) \<Longrightarrow> is_digit c \<or> c = CHR ''.'' \<or> c = CHR ''-''"
  by (auto simp: FormatFloat6_def Let_def pad6_digits digits_are_digits split: if_splits)

definition micro_point :: "coord \<Rightarrow> (bool \<times> int) \<times> (bool \<times> int)" where
  "micro_point p = (micro (fst p), micro (snd p))"

lemma FormatCoordKey_eq_iff: "FormatCoordKey p = FormatCoordKey q \<longleftrightarrow> micro_point p = micro_point q"
proof -
  have "CHR '','' \<notin> set (FormatFloat6 x)" for x using FormatFloat6_chars [of "CHR '',''"] by auto
  then show ?thesis by (simp add: FormatCoordKey_def micro_point_def split_first FormatFloat6_eq_iff)
qed

section \<open>Redis keys\<close>

definition tenantPrefix :: "string \<Rightarrow> string \<Rightarrow> string" where
  "tenantPrefix prefix tenant0 = (let tenant = (if tenant0 = '''' then ''default'' else tenant0) in tenant @ '':'' @ prefix)"

definition geoKey :: "string \<Rightarrow> string \<Rightarrow> string" where
  "geoKey prefix tenant = tenantPrefix prefix tenant @ '':geo''"

definition edgeKeysZSet :: "string \<Rightarrow> string \<Rightarrow> string" where
  "edgeKeysZSet prefix tenant = tenantPrefix prefix tenant @ '':edge_keys''"

definition hashKey :: "string \<Rightarrow> string \<Rightarrow> int \<Rightarrow> int \<Rightarrow> string \<Rightarrow> string \<Rightarrow> string option" where
  "hashKey prefix tenant method strategy bGeo eGeo = do {
     ctx \<leftarrow> ContextKey method strategy;
     Some (tenantPrefix prefix tenant @ '':edge:'' @ ctx @ '':'' @ bGeo @ '':'' @ eGeo) }"

definition tenant_name :: "string \<Rightarrow> string" where
  "tenant_name t = (if t = '''' then ''default'' else t)"

lemma hashKey_small:
  "0 \<le> m \<Longrightarrow> m < 10 ^ 12 \<Longrightarrow> 0 \<le> s \<Longrightarrow> s < 10 ^ 12 \<Longrightarrow>
   hashKey prefix t m s b e = Some ((((((tenant_name t @ '':'' @ prefix @ '':edge'') @ CHR '':'' # digits (nat m)) @
     CHR '':'' # digits (nat s)) @ CHR '':'' # b) @ CHR '':'' # e))"
  by (simp add: hashKey_def ContextKey_def itoa_small tenantPrefix_def tenant_name_def)

section \<open>Properties\<close>

text \<open>
  Two origin-destination pairs share a key of the engine's segment table exactly when their
  coordinates agree to the micro-degree.
\<close>

lemma pairKey_eq_iff:
  "pairKey a b = pairKey c d \<longleftrightarrow> micro_point a = micro_point c \<and> micro_point b = micro_point d"
proof -
  have "CHR ''>'' \<notin> set (FormatCoordKey p)" for p
    using FormatFloat6_chars [of "CHR ''>''"] by (auto simp: FormatCoordKey_def)
  then show ?thesis by (simp add: pairKey_def split_first FormatCoordKey_eq_iff)
qed

text \<open>
  C37: for methods and strategies of at most twelve digits and geohashes without a colon, different
  edges have different hash keys: the key determines the tenant (an empty name is "default"), the
  method, the strategy and both geohashes.
\<close>

theorem hashKey_injective:
  assumes "{m, s, m', s'} \<subseteq> {0..<10 ^ 12}" "CHR '':'' \<notin> set b \<union> set e \<union> set b' \<union> set e'"
    and "hashKey prefix t m s b e = hashKey prefix t' m' s' b' e'"
  shows "(if t = '''' then ''default'' else t) = (if t' = '''' then ''default'' else t') \<and> m = m' \<and> s = s' \<and> b = b' \<and> e = e'"
proof -
  have colon: "CHR '':'' \<notin> set (digits n)" for n by (simp add: no_separator)
  have range: "0 \<le> m" "m < 10 ^ 12" "0 \<le> s" "s < 10 ^ 12" "0 \<le> m'" "m' < 10 ^ 12" "0 \<le> s'" "s' < 10 ^ 12"
    and free: "CHR '':'' \<notin> set b" "CHR '':'' \<notin> set e" "CHR '':'' \<notin> set b'" "CHR '':'' \<notin> set e'"
    using assms(1,2) by simp_all
  have "digits (nat m) = digits (nat m') \<and> digits (nat s) = digits (nat s') \<and> b = b' \<and> e = e' \<and> tenant_name t = tenant_name t'"
    using assms(3)
    unfolding hashKey_small [OF range(1-4)] hashKey_small [OF range(5-8)] option.inject split_last [OF free(2,4)]
      split_last [OF free(1,3)] split_last [OF colon colon]
    by simp
  then show ?thesis using assms(1) digits_inj [of "nat m" "nat m'"] digits_inj [of "nat s" "nat s'"]
    by (auto simp: tenant_name_def)
qed

theorem hashKey_injective_witness:
  "hashKey ''distance_matrix'' ''t'' 1 2 ''wx4g0ec1'' ''wx4g0ec2'' \<noteq> hashKey ''distance_matrix'' ''t'' 12 2 ''wx4g0ec1'' ''wx4g0ec2''"
  using hashKey_injective [of 1 2 12 2 "''wx4g0ec1''" "''wx4g0ec2''" "''wx4g0ec1''" "''wx4g0ec2''" "''distance_matrix''" "''t''" "''t''"]
  by auto

text \<open>Outside that range keys collide (negative numbers print as nothing) or the program panics.\<close>

lemma negative_methods_collide: "m < 0 \<Longrightarrow> m' < 0 \<Longrightarrow> hashKey prefix t m s b e = hashKey prefix t m' s b e"
  by (simp add: hashKey_def ContextKey_def itoa_negative)

lemma large_method_panics: "10 ^ 12 \<le> m \<Longrightarrow> hashKey prefix t m s b e = None"
  by (simp add: hashKey_def ContextKey_def itoa_panics)

end
