(* ===== verification/Time_Slots.thy ===== *)
theory Time_Slots
  imports Cache_Keys
begin

text \<open>
  \<open>internal/cache/timeslot.go\<close>: time slots are five-character strings, weekday (1-7), month and
  hour. A calendar time is a record of the three fields \<open>time.Time\<close> is asked for; \<open>None\<close> is the
  zero time; the clock reading \<open>time.Now()\<close> is the argument \<open>now\<close>.
\<close>

record civil_time =
  ct_weekday :: nat
  ct_month :: nat
  ct_hour :: nat

definition civil_ok :: "civil_time \<Rightarrow> bool" where
  "civil_ok t \<longleftrightarrow> ct_weekday t < 7 \<and> 1 \<le> ct_month t \<and> ct_month t \<le> 12 \<and> ct_hour t < 24"

definition two_digits :: "nat \<Rightarrow> string" where
  "two_digits n = (if n < 10 then ''0'' @ Itoa (int n) else Itoa (int n))"

definition TimeSlotWMH :: "civil_time \<Rightarrow> civil_time option \<Rightarrow> string" where
  "TimeSlotWMH now t0 =
     (let t = (case t0 of None \<Rightarrow> now | Some t \<Rightarrow> t);
          weekday = Itoa (int (ct_weekday t + 1));
          month = two_digits (ct_month t);
          hour = two_digits (ct_hour t)
      in weekday @ month @ hour)"

definition last_two :: "string \<Rightarrow> string" where
  "last_two slot = drop (length slot - 2) slot"

definition HourBucket :: "civil_time \<Rightarrow> string \<Rightarrow> string" where
  "HourBucket now slot = (if length slot \<ge> 2 then last_two slot else last_two (TimeSlotWMH now (Some now)))"

text \<open>\<open>strconv.Atoi\<close>; on the two characters it gets here the range check cannot fail.\<close>

definition Atoi :: "string \<Rightarrow> int option" where
  "Atoi s0 =
     (let (neg, s) = (case s0 of c # cs \<Rightarrow> if c = CHR ''-'' then (True, cs) else if c = CHR ''+'' then (False, cs) else (False, s0)
                      | [] \<Rightarrow> (False, []))
      in if s = [] \<or> \<not> list_all is_digit s then None
         else Some (if neg then - int (digits_value s) else int (digits_value s)))"

definition uniqueStrings :: "string list \<Rightarrow> string list" where
  "uniqueStrings xs = fold (\<lambda>s out. if s \<in> set out then out else out @ [s]) xs []"

definition wrap_hour :: "int \<Rightarrow> int" where
  "wrap_hour nh0 = (let nh = (if nh0 < 0 then 23 else nh0) in if nh > 23 then 0 else nh)"

definition AdjacentSlots :: "civil_time \<Rightarrow> string \<Rightarrow> string list" where
  "AdjacentSlots now slot0 =
     (let slot = (if length slot0 < 5 then TimeSlotWMH now (Some now) else slot0) in
      case Atoi (last_two slot) of
        None \<Rightarrow> [slot]
      | Some h \<Rightarrow>
          let prefix = take (length slot - 2) slot
          in uniqueStrings (slot # map (\<lambda>d. prefix @ two_digits (nat (wrap_hour (h + d)))) [-1, 1]))"

section \<open>Well-formed slots\<close>

definition slot_of :: "nat \<Rightarrow> nat \<Rightarrow> nat \<Rightarrow> string" where
  "slot_of weekday month hour = Itoa (int (weekday + 1)) @ two_digits month @ two_digits hour"

lemma TimeSlotWMH_slot_of: "TimeSlotWMH now (Some t) = slot_of (ct_weekday t) (ct_month t) (ct_hour t)"
  by (simp add: TimeSlotWMH_def slot_of_def)

lemma Itoa_digits: "Itoa (int n) = digits n"
  by (simp add: Itoa_def)

lemma two_digits_chars: "n < 100 \<Longrightarrow> two_digits n = [digit (n div 10), digit (n mod 10)]"
  using less_mult_imp_div_less [of n 10 10]
  by (simp add: two_digits_def Itoa_digits digit_zero digits.simps [of n] digits.simps [of "n div 10"])

lemma digit_inj: "a < 10 \<Longrightarrow> b < 10 \<Longrightarrow> digit a = digit b \<longleftrightarrow> a = b"
  using digit_value_digit by metis

lemma two_digits_inj:
  assumes "m < 100" "n < 100"
  shows "two_digits m = two_digits n \<longleftrightarrow> m = n"
proof -
  have "two_digits m = two_digits n \<longleftrightarrow> m div 10 = n div 10 \<and> m mod 10 = n mod 10"
    using assms by (simp add: two_digits_chars digit_inj)
  then show ?thesis by (metis div_mult_mod_eq)
qed

lemma two_digits_length: "n < 100 \<Longrightarrow> length (two_digits n) = 2"
  by (simp add: two_digits_chars)

lemma two_digits_value: "n < 100 \<Longrightarrow> list_all is_digit (two_digits n) \<and> digits_value (two_digits n) = n"
  by (simp add: two_digits_chars digits_value_def)

lemma not_sign: "d < 10 \<Longrightarrow> digit d \<noteq> CHR ''-'' \<and> digit d \<noteq> CHR ''+''"
proof -
  assume "d < 10"
  then have "is_digit (digit d)" by simp
  moreover have "\<not> is_digit CHR ''+''" by code_simp
  ultimately show ?thesis using separators(5) by metis
qed

lemma Atoi_two_digits: "n < 100 \<Longrightarrow> Atoi (two_digits n) = Some (int n)"
  using two_digits_value [of n] not_sign [of "n div 10"] by (simp add: Atoi_def two_digits_chars)

lemma slot_parts:
  assumes "w < 9" "h < 100" "m < 100"
  shows "slot_of w m h = digit (w + 1) # two_digits m @ two_digits h" "length (slot_of w m h) = 5"
    "last_two (slot_of w m h) = two_digits h" "take (length (slot_of w m h) - 2) (slot_of w m h) = digit (w + 1) # two_digits m"
proof -
  show s: "slot_of w m h = digit (w + 1) # two_digits m @ two_digits h"
    using assms unfolding slot_of_def Itoa_digits by (simp add: digits.simps)
  show "length (slot_of w m h) = 5" using assms by (simp add: s two_digits_length)
  show "last_two (slot_of w m h) = two_digits h" using assms by (simp add: s last_two_def two_digits_length)
  show "take (length (slot_of w m h) - 2) (slot_of w m h) = digit (w + 1) # two_digits m"
    using assms by (simp add: s two_digits_length)
qed

lemma slot_of_inj:
  assumes "w < 9" "h < 100" "m < 100" "w' < 9" "h' < 100" "m' < 100"
  shows "slot_of w m h = slot_of w' m' h' \<longleftrightarrow> w = w' \<and> m = m' \<and> h = h'"
  using assms by (auto simp: slot_parts(1) digit_inj two_digits_length two_digits_inj)

lemma wrap_hours:
  assumes "h < 24"
  shows "nat (wrap_hour (int h - 1)) = (h + 23) mod 24" "nat (wrap_hour (int h + 1)) = (h + 1) mod 24"
  using assms by (cases h; auto simp: wrap_hour_def mod_if)+

lemma hours_distinct:
  fixes h :: nat
  shows
  "h < 24 \<Longrightarrow> h \<noteq> (h + 23) mod 24 \<and> h \<noteq> (h + 1) mod 24 \<and> (h + 23) mod 24 \<noteq> (h + 1) mod 24"
  by (cases "h = 0"; cases "h = 23") (auto simp: mod_if)

lemma AdjacentSlots_slot:
  assumes "w < 7" "m < 100" "h < 24"
  shows "AdjacentSlots now (slot_of w m h) = [slot_of w m h, slot_of w m ((h + 23) mod 24), slot_of w m ((h + 1) mod 24)]"
proof -
  have "(h + 23) mod 24 < 24" "(h + 1) mod 24 < 24" by simp_all
  then have p: "length (slot_of w m h) = 5" "Atoi (last_two (slot_of w m h)) = Some (int h)"
    "take (length (slot_of w m h) - 2) (slot_of w m h) @ two_digits ((h + 23) mod 24) = slot_of w m ((h + 23) mod 24)"
    "take (length (slot_of w m h) - 2) (slot_of w m h) @ two_digits ((h + 1) mod 24) = slot_of w m ((h + 1) mod 24)"
    using assms slot_parts(1) [of w "(h + 23) mod 24" m] slot_parts(1) [of w "(h + 1) mod 24" m] slot_parts(2-4) [of w h m]
    by (simp_all add: Atoi_two_digits)
  have adj: "AdjacentSlots now (slot_of w m h) =
      uniqueStrings [slot_of w m h, slot_of w m ((h + 23) mod 24), slot_of w m ((h + 1) mod 24)]"
    using wrap_hours [OF assms(3)] p(3,4) by (simp add: AdjacentSlots_def p(1,2))
  have "distinct [slot_of w m h, slot_of w m ((h + 23) mod 24), slot_of w m ((h + 1) mod 24)]"
    using assms hours_distinct [OF assms(3)] by (simp add: slot_of_inj)
  then show ?thesis unfolding adj by (auto simp: uniqueStrings_def)
qed

section \<open>Properties\<close>

text \<open>The type of time slots: weekday, month and hour in range, as five characters.\<close>

definition is_slot :: "string \<Rightarrow> bool" where
  "is_slot s \<longleftrightarrow> (\<exists>w < 7. \<exists>m \<in> {1..12}. \<exists>h < 24. s = slot_of w m h)"

text \<open>
  C38: time slots have a type that the operations keep: the slot of a calendar time is five digits,
  and determines weekday, month and hour; its neighbours are the two slots of the same weekday and
  month one hour before and after, modulo 24, three different slots of the same form; its hour
  bucket is the two-digit hour.
\<close>

theorem slots_well_formed:
  assumes "ct_weekday t < 7" "1 \<le> ct_month t" "ct_month t \<le> 12" "ct_hour t < 24"
    and "ct_weekday u < 7" "1 \<le> ct_month u" "ct_month u \<le> 12" "ct_hour u < 24"
  shows "length (TimeSlotWMH now (Some t)) = 5 \<and> is_slot (TimeSlotWMH now (Some t)) \<and>
    (TimeSlotWMH now (Some t) = TimeSlotWMH now (Some u) \<longrightarrow> t = u) \<and>
    AdjacentSlots now (TimeSlotWMH now (Some t)) =
      map (\<lambda>h. TimeSlotWMH now (Some (t\<lparr>ct_hour := h mod 24\<rparr>))) [ct_hour t, ct_hour t + 23, ct_hour t + 1] \<and>
    distinct (AdjacentSlots now (TimeSlotWMH now (Some t))) \<and>
    HourBucket now (TimeSlotWMH now (Some t)) = two_digits (ct_hour t)"
proof -
  let ?w = "ct_weekday t" and ?m = "ct_month t" and ?h = "ct_hour t"
  have adj: "AdjacentSlots now (slot_of ?w ?m ?h) = [slot_of ?w ?m ?h, slot_of ?w ?m ((?h + 23) mod 24), slot_of ?w ?m ((?h + 1) mod 24)]"
    using assms by (intro AdjacentSlots_slot) simp_all
  have "distinct (AdjacentSlots now (slot_of ?w ?m ?h))"
    unfolding adj using assms hours_distinct [OF assms(4)] by (simp add: slot_of_inj)
  moreover have "slot_of ?w ?m ?h = slot_of (ct_weekday u) (ct_month u) (ct_hour u) \<longrightarrow> t = u"
    using assms by (cases t; cases u) (simp add: slot_of_inj)
  moreover have "is_slot (slot_of ?w ?m ?h)" using assms unfolding is_slot_def by force
  moreover have "length (slot_of ?w ?m ?h) = 5" "last_two (slot_of ?w ?m ?h) = two_digits ?h"
    using assms slot_parts(2,3) [of ?w ?h ?m] by simp_all
  moreover have "map (\<lambda>h. TimeSlotWMH now (Some (t\<lparr>ct_hour := h mod 24\<rparr>))) [?h, ?h + 23, ?h + 1] =
      [slot_of ?w ?m ?h, slot_of ?w ?m ((?h + 23) mod 24), slot_of ?w ?m ((?h + 1) mod 24)]"
    using assms(4) by (simp add: TimeSlotWMH_slot_of)
  ultimately show ?thesis unfolding TimeSlotWMH_slot_of HourBucket_def using adj by simp
qed

theorem slots_well_formed_witness:
  "\<exists>t. t = \<lparr>ct_weekday = 4, ct_month = 7, ct_hour = 0\<rparr> \<and> TimeSlotWMH t (Some t) = ''50700'' \<and>
     AdjacentSlots t ''50700'' = [''50700'', ''50723'', ''50701'']"
proof -
  let ?t = "\<lparr>ct_weekday = 4, ct_month = 7, ct_hour = 0\<rparr>"
  have "TimeSlotWMH ?t (Some ?t) = ''50700''" "TimeSlotWMH ?t (Some (?t\<lparr>ct_hour := 23\<rparr>)) = ''50723''"
    "TimeSlotWMH ?t (Some (?t\<lparr>ct_hour := 1\<rparr>)) = ''50701''" by code_simp+
  with slots_well_formed [of ?t ?t ?t] show ?thesis by simp
qed

end
