(* ===== verification/Edge_Store.thy ===== *)
theory Edge_Store
  imports Time_Slots
begin

text \<open>
  \<open>internal/cache/store.go\<close>: the edge cache in Redis. Parameters (\<open>store_env\<close>): the Redis client
  as the commands the code sends, the geohash library, the JSON codec of edges, and the clock.
  \<open>None\<close> is a panic: only \<open>itoa\<close> inside \<open>hashKey\<close> can raise one. The prefix and the time to live
  are the store's own state.
\<close>

section \<open>The outside\<close>

datatype redis_value = RString string | ROther

datatype redis_cmd =
    GeoAdd string "(string \<times> coord) list"
  | HSet string string string
  | Expire string int
  | ZAdd string int string

record 'w redis =
  rd_ping :: "'w \<Rightarrow> string option \<times> 'w"
  rd_exec :: "redis_cmd list \<Rightarrow> 'w \<Rightarrow> string option \<times> 'w"
  rd_hmget :: "string \<Rightarrow> string list \<Rightarrow> 'w \<Rightarrow> (string + redis_value option list) \<times> 'w"
  rd_georadius :: "string \<Rightarrow> coord \<Rightarrow> real \<Rightarrow> nat \<Rightarrow> 'w \<Rightarrow> (string + (string \<times> real) list) \<times> 'w"

record 'w store_env =
  se_redis :: "'w redis"
  se_geohash :: "real \<Rightarrow> real \<Rightarrow> nat \<Rightarrow> string"
  se_json :: "edge \<Rightarrow> string"
  se_parse :: "string \<Rightarrow> edge option"
  se_now :: "'w \<Rightarrow> civil_time"
  se_instant :: "'w \<Rightarrow> int"
  se_unix :: "'w \<Rightarrow> int"

definition defaultPrecision :: nat where "defaultPrecision = 8"

definition EncodeGeoHash :: "'w store_env \<Rightarrow> coord \<Rightarrow> string" where
  "EncodeGeoHash env p = se_geohash env (snd p) (fst p) defaultPrecision"

section \<open>The store\<close>

record cache_store =
  cs_prefix :: string
  cs_ttl :: int

definition NewStore :: "string \<Rightarrow> int \<Rightarrow> cache_store" where
  "NewStore prefix edgeTTLSec =
     \<lparr>cs_prefix = (if prefix = '''' then ''distance_matrix'' else prefix),
      cs_ttl = (if edgeTTLSec \<le> 0 then 1209600 else edgeTTLSec) * 10 ^ 9\<rparr>"

definition store_Ping :: "'w store_env \<Rightarrow> 'w \<Rightarrow> string option \<times> 'w" where
  "store_Ping env w = rd_ping (se_redis env) w"

definition store_hashKey :: "cache_store \<Rightarrow> string \<Rightarrow> int \<Rightarrow> int \<Rightarrow> string \<Rightarrow> string \<Rightarrow> string option" where
  "store_hashKey s tenant method strategy bGeo eGeo = hashKey (cs_prefix s) tenant method strategy bGeo eGeo"

definition with_tenant :: "lookup_opts \<Rightarrow> lookup_opts" where
  "with_tenant opts = (if lo_tenant opts = '''' then opts\<lparr>lo_tenant := ''default''\<rparr> else opts)"

text \<open>The edge as it is written: missing time slot and computation time are filled in.\<close>

definition stamped :: "'w store_env \<Rightarrow> 'w \<Rightarrow> edge \<Rightarrow> edge" where
  "stamped env w e0 =
     (let e1 = (if ed_wmt e0 = '''' then e0\<lparr>ed_wmt := TimeSlotWMH (se_now env w) (Some (se_now env w))\<rparr> else e0)
      in if ed_computed_at e1 = None then e1\<lparr>ed_computed_at := Some (se_instant env w)\<rparr> else e1)"

definition store_Put :: "'w store_env \<Rightarrow> cache_store \<Rightarrow> lookup_opts \<Rightarrow> edge \<Rightarrow> 'w \<Rightarrow> (string option \<times> 'w) option" where
  "store_Put env s opts0 e0 w =
     (let opts = with_tenant opts0;
          e = stamped env w e0;
          bGeo = EncodeGeoHash env (ed_origin e);
          eGeo = EncodeGeoHash env (ed_destination e)
      in do {
        hkey \<leftarrow> store_hashKey s (lo_tenant opts) (lo_method opts) (lo_strategy opts) bGeo eGeo;
        Some (rd_exec (se_redis env)
          [GeoAdd (geoKey (cs_prefix s) (lo_tenant opts)) [(bGeo, ed_origin e), (eGeo, ed_destination e)],
           HSet hkey (ed_wmt e) (se_json env e),
           Expire hkey (cs_ttl s),
           ZAdd (edgeKeysZSet (cs_prefix s) (lo_tenant opts)) (se_unix env w) hkey] w) })"

record get_result =
  gr_edge :: edge
  gr_hit :: bool
  gr_miss :: bool
  gr_bgeo :: string
  gr_egeo :: string

definition zero_edge :: edge where
  "zero_edge = \<lparr>ed_origin = (0, 0), ed_destination = (0, 0), ed_distance = 0, ed_duration = 0, ed_polyline = '''',
     ed_wmt = '''', ed_provider = '''', ed_computed_at = None\<rparr>"

text \<open>The loop over the values of \<open>HMGET\<close>: the first that is a string and parses.\<close>

fun first_edge :: "'w store_env \<Rightarrow> redis_value option list \<Rightarrow> edge option" where
  "first_edge env [] = None"
| "first_edge env (v # vals) =
     (case v of
        Some (RString raw) \<Rightarrow> (case se_parse env raw of Some e \<Rightarrow> Some e | None \<Rightarrow> first_edge env vals)
      | _ \<Rightarrow> first_edge env vals)"

definition tryHash :: "'w store_env \<Rightarrow> cache_store \<Rightarrow> lookup_opts \<Rightarrow> string \<Rightarrow> string \<Rightarrow> string \<Rightarrow> 'w \<Rightarrow>
    ((string + edge option) \<times> 'w) option" where
  "tryHash env s opts bGeo eGeo slot w = do {
     hkey \<leftarrow> store_hashKey s (lo_tenant opts) (lo_method opts) (lo_strategy opts) bGeo eGeo;
     let fields = (if lo_strict opts then [slot] else AdjacentSlots (se_now env w) slot);
     Some (case rd_hmget (se_redis env) hkey fields w of
       (Inl err, w') \<Rightarrow> (Inl err, w')
     | (Inr vals, w') \<Rightarrow> (Inr (first_edge env vals), w')) }"

text \<open>The search near both ends: state of the loop is the best distance with its edge.\<close>

type_synonym 'w fuzzy_state = "(string + real \<times> edge option) \<times> 'w"

definition fuzzy_try :: "'w store_env \<Rightarrow> cache_store \<Rightarrow> lookup_opts \<Rightarrow> string \<Rightarrow> real \<Rightarrow> string \<Rightarrow> string \<Rightarrow>
    'w fuzzy_state \<Rightarrow> 'w fuzzy_state option" where
  "fuzzy_try env s opts slot dsum b e = (\<lambda>(st, w).
     case st of
       Inl err \<Rightarrow> Some (Inl err, w)
     | Inr (bestDist, best) \<Rightarrow> do {
         (r, w') \<leftarrow> tryHash env s opts b e slot w;
         Some (case r of
           Inl err \<Rightarrow> (Inl err, w')
         | Inr (Some ed) \<Rightarrow> (Inr (if dsum < bestDist then (dsum, Some ed) else (bestDist, best)), w')
         | Inr None \<Rightarrow> (Inr (bestDist, best), w')) })"

definition fuzzy_pair :: "'w store_env \<Rightarrow> cache_store \<Rightarrow> lookup_opts \<Rightarrow> string \<Rightarrow> (string \<times> real) \<times> (string \<times> real) \<Rightarrow>
    'w fuzzy_state \<Rightarrow> 'w fuzzy_state option" where
  "fuzzy_pair env s opts slot = (\<lambda>((bName, bDist), (eName, eDist)) st.
     if bName = '''' \<or> eName = '''' then Some st
     else let dsum = bDist + eDist in
       if dsum > real_of_int (lo_geo_wide opts) then Some st
       else do {
         st1 \<leftarrow> fuzzy_try env s opts slot dsum bName eName st;
         fuzzy_try env s opts slot dsum eName bName st1 })"

definition tryFuzzySpatial :: "'w store_env \<Rightarrow> cache_store \<Rightarrow> lookup_opts \<Rightarrow> coord \<Rightarrow> coord \<Rightarrow> string \<Rightarrow> 'w \<Rightarrow>
    ((string + edge option) \<times> 'w) option" where
  "tryFuzzySpatial env s opts origin destination slot w =
     (let radius0 = real_of_int (lo_geo_wide opts) / 2;
          radius = (if radius0 < 1 then 100 else radius0);
          gkey = geoKey (cs_prefix s) (lo_tenant opts)
      in case rd_georadius (se_redis env) gkey origin radius 3 w of
           (Inl err, w1) \<Rightarrow> Some (Inl err, w1)
         | (Inr bs, w1) \<Rightarrow>
             (case rd_georadius (se_redis env) gkey destination radius 3 w1 of
                (Inl err, w2) \<Rightarrow> Some (Inl err, w2)
              | (Inr es, w2) \<Rightarrow> do {
                  (st, w3) \<leftarrow> fold_opt (fuzzy_pair env s opts slot) (List.product bs es)
                    (Inr (real_of_int (lo_geo_wide opts) + 1, None), w2);
                  Some (map_sum id snd st, w3) }))"

definition store_Get :: "'w store_env \<Rightarrow> cache_store \<Rightarrow> lookup_opts \<Rightarrow> coord \<Rightarrow> coord \<Rightarrow> 'w \<Rightarrow>
    ((string + get_result) \<times> 'w) option" where
  "store_Get env s opts0 origin destination w =
     (let opts1 = with_tenant opts0;
          opts = (if lo_geo_wide opts1 \<le> 0 then opts1\<lparr>lo_geo_wide := 200\<rparr> else opts1);
          slot = (if lo_time_slot opts = '''' then TimeSlotWMH (se_now env w) (Some (se_now env w)) else lo_time_slot opts);
          bExact = EncodeGeoHash env origin;
          eExact = EncodeGeoHash env destination;
          same = (if bExact = eExact
                  then \<lparr>gr_edge = zero_edge\<lparr>ed_origin := origin, ed_destination := destination, ed_wmt := slot\<rparr>,
                        gr_hit = True, gr_miss = False, gr_bgeo = bExact, gr_egeo = eExact\<rparr>
                  else \<lparr>gr_edge = zero_edge, gr_hit = False, gr_miss = True, gr_bgeo = bExact, gr_egeo = eExact\<rparr>)
      in do {
        (r, w1) \<leftarrow> tryHash env s opts bExact eExact slot w;
        case r of
          Inl err \<Rightarrow> Some (Inl err, w1)
        | Inr (Some e) \<Rightarrow>
            Some (Inr \<lparr>gr_edge = e, gr_hit = True, gr_miss = False, gr_bgeo = bExact, gr_egeo = eExact\<rparr>, w1)
        | Inr None \<Rightarrow>
            if \<not> lo_strict opts
            then do {
              (r2, w2) \<leftarrow> tryFuzzySpatial env s opts origin destination slot w1;
              Some (case r2 of
                Inl err \<Rightarrow> (Inl err, w2)
              | Inr (Some e) \<Rightarrow> (Inr \<lparr>gr_edge = e, gr_hit = True, gr_miss = False, gr_bgeo = '''', gr_egeo = ''''\<rparr>, w2)
              | Inr None \<Rightarrow> (Inr same, w2)) }
            else Some (Inr same, w1) })"

definition ParseTenant :: "string \<Rightarrow> string" where
  "ParseTenant h0 = (let h = TrimSpace h0 in if h = '''' then ''default'' else h)"

section \<open>Reading back what was written\<close>

text \<open>
  The documented behaviour of Redis that reads rely on: after a pipeline has been executed, the
  one field of a hash that it set has the new value.
\<close>

fun is_HSet :: "redis_cmd \<Rightarrow> bool" where
  "is_HSet (HSet k f v) = True"
| "is_HSet _ = False"

definition redis_sets_hash :: "'w redis \<Rightarrow> bool" where
  "redis_sets_hash r \<longleftrightarrow> (\<forall>cmds k f v w w'. rd_exec r cmds w = (None, w') \<longrightarrow> filter is_HSet cmds = [HSet k f v] \<longrightarrow>
     fst (rd_hmget r k [f] w') = Inr [Some (RString v)])"

lemma stamped_fields:
  "ed_origin (stamped env w e) = ed_origin e" "ed_destination (stamped env w e) = ed_destination e"
  by (simp_all add: stamped_def Let_def)

lemma TimeSlotWMH_nonempty: "TimeSlotWMH now t \<noteq> ''''"
proof -
  have "Itoa (int n) \<noteq> ''''" for n by (simp add: Itoa_digits digits_nonempty)
  from this [of "Suc _"] show ?thesis by (simp add: TimeSlotWMH_def Let_def add.commute)
qed

lemma stamped_wmt: "ed_wmt (stamped env w e) \<noteq> ''''"
  using TimeSlotWMH_nonempty [of "se_now env w" "Some (se_now env w)"] by (simp add: stamped_def Let_def)

lemma Put_Get:
  assumes redis: "redis_sets_hash (se_redis env)" and json: "se_parse env (se_json env (stamped env w e)) = Some (stamped env w e)"
    and put: "store_Put env s opts e w = Some (None, w')"
    and same: "lo_tenant (with_tenant opts') = lo_tenant (with_tenant opts)" "lo_method opts' = lo_method opts"
      "lo_strategy opts' = lo_strategy opts" "lo_strict opts'" "lo_time_slot opts' = ed_wmt (stamped env w e)"
    and ends: "EncodeGeoHash env a = EncodeGeoHash env (ed_origin e)" "EncodeGeoHash env b = EncodeGeoHash env (ed_destination e)"
  obtains w'' g where "store_Get env s opts' a b w' = Some (Inr g, w'')" "gr_hit g" "gr_edge g = stamped env w e"
proof -
  let ?e = "stamped env w e" and ?bg = "EncodeGeoHash env (ed_origin e)" and ?eg = "EncodeGeoHash env (ed_destination e)"
  have strict: "lo_strict (with_tenant opts') \<and> lo_method (with_tenant opts') = lo_method opts \<and> lo_strategy (with_tenant opts') = lo_strategy opts
      \<and> lo_time_slot (with_tenant opts') = ed_wmt ?e"
    using same by (simp add: with_tenant_def)
  have opts: "lo_method (with_tenant opts) = lo_method opts" "lo_strategy (with_tenant opts) = lo_strategy opts"
    by (simp_all add: with_tenant_def)
  obtain k where k: "store_hashKey s (lo_tenant (with_tenant opts)) (lo_method opts) (lo_strategy opts) ?bg ?eg = Some k"
    and exec: "rd_exec (se_redis env)
      [GeoAdd (geoKey (cs_prefix s) (lo_tenant (with_tenant opts))) [(?bg, ed_origin e), (?eg, ed_destination e)],
       HSet k (ed_wmt ?e) (se_json env ?e), Expire k (cs_ttl s),
       ZAdd (edgeKeysZSet (cs_prefix s) (lo_tenant (with_tenant opts))) (se_unix env w) k] w = (None, w')"
    using put by (auto simp: store_Put_def Let_def opts stamped_fields bind_eq_Some_conv)
  have "fst (rd_hmget (se_redis env) k [ed_wmt ?e] w') = Inr [Some (RString (se_json env ?e))]"
    using redis exec unfolding redis_sets_hash_def by (elim allE impE) auto
  then obtain w'' where hm: "rd_hmget (se_redis env) k [ed_wmt ?e] w' = (Inr [Some (RString (se_json env ?e))], w'')"
    by (cases "rd_hmget (se_redis env) k [ed_wmt ?e] w'") auto
  have "tryHash env s opts'' ?bg ?eg (ed_wmt ?e) w' = Some (Inr (Some ?e), w'')"
    if "opts'' = with_tenant opts' \<or> opts'' = (with_tenant opts')\<lparr>lo_geo_wide := 200\<rparr>" for opts''
    using that strict same(1) k hm json by (auto simp: tryHash_def)
  then have "store_Get env s opts' a b w' = Some (Inr \<lparr>gr_edge = ?e, gr_hit = True, gr_miss = False, gr_bgeo = ?bg, gr_egeo = ?eg\<rparr>, w'')"
    using strict stamped_wmt [of env w e] ends by (simp add: store_Get_def Let_def)
  then show thesis using that by simp
qed

section \<open>No panic\<close>

text \<open>Methods and strategies of at most twelve digits keep every operation from panicking.\<close>

definition small_context :: "lookup_opts \<Rightarrow> bool" where
  "small_context opts \<longleftrightarrow> lo_method opts < 10 ^ 12 \<and> lo_strategy opts < 10 ^ 12"

lemma small_context_simps [simp]:
  "small_context (with_tenant opts) = small_context opts"
  "small_context (opts\<lparr>lo_geo_wide := g\<rparr>) = small_context opts"
  by (simp_all add: small_context_def with_tenant_def)

lemma hashKey_total:
  assumes "small_context opts"
  shows "\<exists>k. store_hashKey s t (lo_method opts) (lo_strategy opts) b e = Some k"
proof -
  have "\<exists>x. itoa n = Some x" if "n < 10 ^ 12" for n
    using that itoa_small [of n] itoa_negative [of n] by (cases "n < 0") auto
  from this [of "lo_method opts"] this [of "lo_strategy opts"] obtain x y where
    "itoa (lo_method opts) = Some x" "itoa (lo_strategy opts) = Some y"
    using assms by (auto simp: small_context_def)
  then show ?thesis by (simp add: store_hashKey_def hashKey_def ContextKey_def)
qed

lemma tryHash_total: "small_context opts \<Longrightarrow> \<exists>r. tryHash env s opts b e slot w = Some r"
  using hashKey_total [of opts s "lo_tenant opts" b e] by (auto simp: tryHash_def)

lemma fuzzy_try_total: "small_context opts \<Longrightarrow> \<exists>r. fuzzy_try env s opts slot d b e st = Some r"
proof -
  assume "small_context opts"
  then have *: "\<exists>q v. tryHash env s opts b e slot w = Some (q, v)" for w
    using tryHash_total [of opts env s b e slot w] by (metis surj_pair)
  obtain a w where st: "st = (a, w)" by (cases st)
  obtain q v where "tryHash env s opts b e slot w = Some (q, v)" using * by blast
  then show ?thesis by (cases a) (auto simp: fuzzy_try_def st)
qed

lemma fuzzy_pair_total: "small_context opts \<Longrightarrow> \<exists>r. fuzzy_pair env s opts slot be st = Some r"
proof -
  assume small: "small_context opts"
  obtain bn bd en ed where be: "be = ((bn, bd), (en, ed))" by (metis surj_pair)
  obtain st1 where st1: "fuzzy_try env s opts slot (bd + ed) bn en st = Some st1" using fuzzy_try_total [OF small] by blast
  obtain st2 where "fuzzy_try env s opts slot (bd + ed) en bn st1 = Some st2" using fuzzy_try_total [OF small] by blast
  with st1 show ?thesis by (simp add: fuzzy_pair_def be Let_def)
qed

lemma fold_opt_total: "(\<And>x s. \<exists>s'. f x s = Some s') \<Longrightarrow> \<exists>s'. fold_opt f xs s = Some s'"
proof (induction xs arbitrary: s)
  case (Cons x xs)
  obtain s1 where "f x s = Some s1" using Cons.prems by blast
  with Cons show ?case by simp
qed simp

lemma tryFuzzySpatial_total: "small_context opts \<Longrightarrow> \<exists>r. tryFuzzySpatial env s opts p d slot w = Some r"
proof -
  assume small: "small_context opts"
  let ?gkey = "geoKey (cs_prefix s) (lo_tenant opts)"
  let ?radius = "if real_of_int (lo_geo_wide opts) / 2 < 1 then 100 else real_of_int (lo_geo_wide opts) / 2"
  obtain a w1 where a: "rd_georadius (se_redis env) ?gkey p ?radius 3 w = (a, w1)" by (metis surj_pair)
  obtain c w2 where c: "rd_georadius (se_redis env) ?gkey d ?radius 3 w1 = (c, w2)" by (metis surj_pair)
  have "\<exists>st w3. fold_opt (fuzzy_pair env s opts slot) xs st0 = Some (st, w3)" for xs st0
    using fold_opt_total [of "fuzzy_pair env s opts slot" xs st0] fuzzy_pair_total [OF small] by (metis surj_pair)
  then obtain st w3 where "fold_opt (fuzzy_pair env s opts slot) (List.product (projr a) (projr c))
      (Inr (real_of_int (lo_geo_wide opts) + 1, None), w2) = Some (st, w3)" by blast
  then show ?thesis
    unfolding tryFuzzySpatial_def Let_def using a c by (cases a; cases c) simp_all
qed

lemma store_Get_total: "small_context opts \<Longrightarrow> \<exists>r. store_Get env s opts p d w = Some r"
proof -
  assume small: "small_context opts"
  let ?o1 = "with_tenant opts"
  let ?o = "if lo_geo_wide ?o1 \<le> 0 then ?o1\<lparr>lo_geo_wide := 200\<rparr> else ?o1"
  let ?slot = "if lo_time_slot ?o = '''' then TimeSlotWMH (se_now env w) (Some (se_now env w)) else lo_time_slot ?o"
  have small': "small_context ?o" using small by simp
  obtain q w1 where q: "tryHash env s ?o (EncodeGeoHash env p) (EncodeGeoHash env d) ?slot w = Some (q, w1)"
    using tryHash_total [OF small'] by (metis surj_pair)
  obtain q2 w2 where q2: "tryFuzzySpatial env s ?o p d ?slot w1 = Some (q2, w2)"
    using tryFuzzySpatial_total [OF small'] by (metis surj_pair)
  show ?thesis unfolding store_Get_def Let_def q Option.bind.simps prod.case q2
    by (auto split: sum.split option.split)
qed

lemma store_Put_total: "small_context opts \<Longrightarrow> \<exists>r. store_Put env s opts ed w = Some r"
proof -
  assume "small_context opts"
  then have "small_context (with_tenant opts)" by simp
  from hashKey_total [OF this] obtain k where "store_hashKey s (lo_tenant (with_tenant opts)) (lo_method (with_tenant opts))
      (lo_strategy (with_tenant opts)) (EncodeGeoHash env (ed_origin (stamped env w ed)))
      (EncodeGeoHash env (ed_destination (stamped env w ed))) = Some k" by blast
  then show ?thesis unfolding store_Put_def Let_def by simp
qed

section \<open>Properties\<close>

text \<open>
  C39: what was put is got: when Redis executes the pipeline of \<open>Put\<close> and edges survive the JSON
  codec, a strict \<open>Get\<close> for the same tenant, method and strategy, in the time slot of the edge, and
  for end points with the same geohashes hits and returns the edge as it was written.
\<close>

theorem Get_after_Put:
  assumes "redis_sets_hash (se_redis env)" "se_parse env (se_json env (stamped env w e)) = Some (stamped env w e)"
    and "store_Put env s opts e w = Some (None, w')"
    and "EncodeGeoHash env a = EncodeGeoHash env (ed_origin e)" "EncodeGeoHash env b = EncodeGeoHash env (ed_destination e)"
  shows "\<exists>g w''. store_Get env s (opts\<lparr>lo_strict := True, lo_time_slot := ed_wmt (stamped env w e)\<rparr>) a b w' = Some (Inr g, w'') \<and>
    gr_hit g \<and> gr_edge g = stamped env w e"
  by (rule Put_Get [OF assms(1,2,3) _ _ _ _ _ assms(4,5),
        where opts' = "opts\<lparr>lo_strict := True, lo_time_slot := ed_wmt (stamped env w e)\<rparr>"])
    (auto simp: with_tenant_def)

text \<open>A Redis that keeps hashes in a function and knows no positions.\<close>

type_synonym hash_world = "string \<Rightarrow> string \<Rightarrow> string option"

fun hash_cmd :: "redis_cmd \<Rightarrow> hash_world \<Rightarrow> hash_world" where
  "hash_cmd (HSet k f v) m = m(k := (m k)(f \<mapsto> v))"
| "hash_cmd _ m = m"

definition hash_redis :: "hash_world redis" where
  "hash_redis = \<lparr>rd_ping = (\<lambda>m. (None, m)), rd_exec = (\<lambda>cmds m. (None, fold hash_cmd cmds m)),
     rd_hmget = (\<lambda>k fs m. (Inr (map (\<lambda>f. map_option RString (m k f)) fs), m)),
     rd_georadius = (\<lambda>_ _ _ _ m. (Inr [], m))\<rparr>"

lemma hash_redis_sets: "redis_sets_hash hash_redis"
proof -
  have "fold hash_cmd cmds m k f = (case filter is_HSet cmds of [] \<Rightarrow> m k f | _ \<Rightarrow> Some v)"
    if "filter is_HSet cmds = [] \<or> filter is_HSet cmds = [HSet k f v]" for cmds m k f v
    using that
  proof (induction cmds arbitrary: m)
    case (Cons c cmds)
    then show ?case by (cases c) (auto split: if_splits)
  qed simp
  then show ?thesis by (auto simp: redis_sets_hash_def hash_redis_def)
qed

definition example_env :: "hash_world store_env" where
  "example_env = \<lparr>se_redis = hash_redis, se_geohash = (\<lambda>x y n. if x = y then ''u'' else ''v''),
     se_json = (\<lambda>_. ''{}''), se_parse = (\<lambda>_. Some (zero_edge\<lparr>ed_wmt := ''50714'', ed_computed_at := Some 7\<rparr>)),
     se_now = (\<lambda>_. \<lparr>ct_weekday = 4, ct_month = 7, ct_hour = 14\<rparr>), se_instant = (\<lambda>_. 7), se_unix = (\<lambda>_. 7)\<rparr>"

definition example_opts :: lookup_opts where
  "example_opts = \<lparr>lo_tenant = '''', lo_method = 0, lo_strategy = 1, lo_time_slot = '''', lo_strict = False, lo_geo_wide = 0, lo_edge_ttl = 0\<rparr>"

theorem Get_after_Put_witness:
  "\<exists>w' g w''. store_Put example_env (NewStore '''' 0) example_opts zero_edge (\<lambda>_ _. None) = Some (None, w') \<and>
     store_Get example_env (NewStore '''' 0) (example_opts\<lparr>lo_strict := True, lo_time_slot := ''50714''\<rparr>) (1, 1) (2, 2) w' = Some (Inr g, w'') \<and>
     gr_hit g \<and> ed_computed_at (gr_edge g) = Some 7"
proof -
  have st: "stamped example_env (\<lambda>_ _. None) zero_edge = zero_edge\<lparr>ed_wmt := ''50714'', ed_computed_at := Some 7\<rparr>"
  proof -
    have "TimeSlotWMH \<lparr>ct_weekday = 4, ct_month = 7, ct_hour = 14\<rparr> (Some \<lparr>ct_weekday = 4, ct_month = 7, ct_hour = 14\<rparr>) = ''50714''"
      by code_simp
    then show ?thesis by (simp add: stamped_def example_env_def zero_edge_def)
  qed
  obtain w' where put: "store_Put example_env (NewStore '''' 0) example_opts zero_edge (\<lambda>_ _. None) = Some (None, w')"
    by (simp add: store_Put_def store_hashKey_def hashKey_def ContextKey_def itoa_small example_env_def hash_redis_def example_opts_def with_tenant_def Let_def)
  have redis: "redis_sets_hash (se_redis example_env)" by (simp add: example_env_def hash_redis_sets)
  have json: "se_parse example_env (se_json example_env (stamped example_env (\<lambda>_ _. None) zero_edge)) = Some (stamped example_env (\<lambda>_ _. None) zero_edge)"
    unfolding st by (simp add: example_env_def)
  have "EncodeGeoHash example_env (1, 1) = EncodeGeoHash example_env (ed_origin zero_edge)"
    "EncodeGeoHash example_env (2, 2) = EncodeGeoHash example_env (ed_destination zero_edge)"
    by (simp_all add: EncodeGeoHash_def example_env_def zero_edge_def)
  from Get_after_Put [OF redis json put this] put show ?thesis unfolding st by fastforce
qed

end
