(* ===== verification/Edge_Archive.thy ===== *)
theory Edge_Archive
  imports Edge_Store
begin

text \<open>
  \<open>internal/persist/archive.go\<close> and \<open>memory.go\<close>: the interface \<open>Archive\<close> of the cold edge store as
  a locale (an archive is a map from keys to edges), the in-process archive \<open>Memory\<close> that
  interprets it, and \<open>AsyncWriter\<close>, a bounded queue with a worker in front of an archive. The
  writer is a state machine; its refinement lemma says that pending jobs count as written.
\<close>

section \<open>The interface\<close>

text \<open>
  \<open>cells\<close> reads the contents of a state; an edge of distance 0 is not stored, any other replaces
  the cell of its key. A strict read looks at one cell.
\<close>

locale edge_archive =
  fixes upsert :: "lookup_opts \<Rightarrow> edge \<Rightarrow> 's \<Rightarrow> 's"
    and get :: "lookup_opts \<Rightarrow> coord \<Rightarrow> coord \<Rightarrow> 's \<Rightarrow> edge option"
    and cells :: "'s \<Rightarrow> 'k \<Rightarrow> edge option"
    and write_key :: "lookup_opts \<Rightarrow> edge \<Rightarrow> 'k"
    and read_key :: "lookup_opts \<Rightarrow> coord \<Rightarrow> coord \<Rightarrow> 'k"
    and written :: "edge \<Rightarrow> edge"
  assumes cells_upsert: "cells (upsert opts e s) k =
      (if ed_distance e \<noteq> 0 \<and> k = write_key opts e then Some (written e) else cells s k)"
    and get_strict: "lo_strict opts \<Longrightarrow> get opts a b s = cells s (read_key opts a b)"
begin

lemma get_upsert:
  "lo_strict opts \<Longrightarrow> read_key opts a b = write_key opts' e \<Longrightarrow> ed_distance e \<noteq> 0 \<Longrightarrow>
   get opts a b (upsert opts' e s) = Some (written e)"
  by (simp add: get_strict cells_upsert)

lemma get_other:
  "lo_strict opts \<Longrightarrow> read_key opts a b \<noteq> write_key opts' e \<or> ed_distance e = 0 \<Longrightarrow>
   get opts a b (upsert opts' e s) = get opts a b s"
  by (auto simp: get_strict cells_upsert)

text \<open>A batch of writes: the last write to a key wins.\<close>

abbreviation upsert_all :: "(lookup_opts \<times> edge) list \<Rightarrow> 's \<Rightarrow> 's" where
  "upsert_all jobs \<equiv> fold (\<lambda>(opts, e). upsert opts e) jobs"

lemma cells_upsert_all:
  "cells (upsert_all jobs s) k =
    (case filter (\<lambda>(opts, e). ed_distance e \<noteq> 0 \<and> write_key opts e = k) (rev jobs) of
       [] \<Rightarrow> cells s k | (opts, e) # _ \<Rightarrow> Some (written e))"
proof (induction jobs rule: rev_induct)
  case (snoc j jobs)
  then show ?case by (cases j) (auto simp: cells_upsert)
qed simp

end

section \<open>Memory\<close>

text \<open>
  \<open>rows\<close> is an association list for the Go map; \<open>order\<close> is the order in which a range over the
  map visits it. \<open>gh\<close> is \<open>cache.EncodeGeoHash\<close>, \<open>now\<close> the clock.
\<close>

type_synonym memory = "(string \<times> edge) list"

definition NewMemory :: memory where "NewMemory = []"

definition memKey :: "string \<Rightarrow> int \<Rightarrow> int \<Rightarrow> string \<Rightarrow> string \<Rightarrow> string \<Rightarrow> string" where
  "memKey tenant m s start stop wmt =
     tenant @ ''|'' @ Itoa m @ ''|'' @ Itoa s @ ''|'' @ start @ ''|'' @ stop @ ''|'' @ wmt"

definition mem_slot :: "civil_time \<Rightarrow> string \<Rightarrow> string" where
  "mem_slot now s = (if s = '''' then TimeSlotWMH now (Some now) else s)"

definition memory_Upsert :: "(coord \<Rightarrow> string) \<Rightarrow> civil_time \<Rightarrow> lookup_opts \<Rightarrow> edge \<Rightarrow> memory \<Rightarrow> memory" where
  "memory_Upsert gh now opts e rows =
     (if ed_distance e = 0 then rows
      else let tenant = tenant_name (lo_tenant opts);
               wmt = mem_slot now (ed_wmt e);
               start = gh (ed_origin e);
               stop = gh (ed_destination e)
           in AList.update (memKey tenant (lo_method opts) (lo_strategy opts) start stop wmt) (e\<lparr>ed_wmt := wmt\<rparr>) rows)"

definition memory_Get :: "(memory \<Rightarrow> memory) \<Rightarrow> (coord \<Rightarrow> string) \<Rightarrow> civil_time \<Rightarrow> lookup_opts \<Rightarrow> coord \<Rightarrow> coord \<Rightarrow> memory \<Rightarrow> edge option" where
  "memory_Get order gh now opts origin destination rows =
     (let tenant = tenant_name (lo_tenant opts);
          slot = mem_slot now (lo_time_slot opts);
          start = gh origin;
          stop = gh destination;
          slots = (if lo_strict opts then [slot] else AdjacentSlots now slot);
          key = memKey tenant (lo_method opts) (lo_strategy opts) start stop
      in case List.map_filter (\<lambda>sl. map_of rows (key sl)) slots of
           e # _ \<Rightarrow> Some e
         | [] \<Rightarrow>
             if lo_strict opts then None
             else let wantT = HourBucket now slot;
                      prefix = key ''''
                  in map_option snd (find (\<lambda>(k, e). length k > length prefix \<and> take (length prefix) k = prefix \<and>
                       HourBucket now (ed_wmt e) = wantT) (order rows)))"

interpretation mem: edge_archive "memory_Upsert gh now" "memory_Get order gh now" map_of
  "\<lambda>opts e. memKey (tenant_name (lo_tenant opts)) (lo_method opts) (lo_strategy opts) (gh (ed_origin e)) (gh (ed_destination e))
     (mem_slot now (ed_wmt e))"
  "\<lambda>opts a b. memKey (tenant_name (lo_tenant opts)) (lo_method opts) (lo_strategy opts) (gh a) (gh b) (mem_slot now (lo_time_slot opts))"
  "\<lambda>e. e\<lparr>ed_wmt := mem_slot now (ed_wmt e)\<rparr>"
  for order gh now
  by unfold_locales (simp_all add: memory_Upsert_def memory_Get_def update_conv' Let_def List.map_filter_def split: option.split)

section \<open>The asynchronous writer\<close>

type_synonym upsert_job = "lookup_opts \<times> edge"

text \<open>
  The state of \<open>AsyncWriter\<close>: the inner archive, the buffered channel with its capacity, the job the
  worker has received and not yet written, and whether the channel is closed.
  A nil writer (or one without an archive), on which every method returns at once, is the absence of
  this record where a writer is held.
\<close>

record 's async_writer =
  aw_inner :: 's
  aw_queue :: "upsert_job list"
  aw_hand :: "upsert_job option"
  aw_capacity :: nat
  aw_closed :: bool

definition NewAsyncWriter :: "'s \<Rightarrow> int \<Rightarrow> 's async_writer" where
  "NewAsyncWriter inner queueSize =
     \<lparr>aw_inner = inner, aw_queue = [], aw_hand = None, aw_capacity = nat (if queueSize \<le> 0 then 1024 else queueSize),
      aw_closed = False\<rparr>"

text \<open>A send on a closed channel panics, also in a \<open>select\<close> with a default.\<close>

definition EnqueueUpsert :: "lookup_opts \<Rightarrow> edge \<Rightarrow> 's async_writer \<Rightarrow> 's async_writer option" where
  "EnqueueUpsert opts e w =
     (if aw_closed w then None
      else if length (aw_queue w) < aw_capacity w then Some (w\<lparr>aw_queue := aw_queue w @ [(opts, e)]\<rparr>)
      else Some w)"

text \<open>The worker \<open>loop\<close> has two steps: receive a job, write it.\<close>

definition worker_step :: "(lookup_opts \<Rightarrow> edge \<Rightarrow> 's \<Rightarrow> 's) \<Rightarrow> 's async_writer \<Rightarrow> 's async_writer" where
  "worker_step upsert w =
     (case aw_hand w of
        Some (opts, e) \<Rightarrow> w\<lparr>aw_inner := upsert opts e (aw_inner w), aw_hand := None\<rparr>
      | None \<Rightarrow> (case aw_queue w of
           [] \<Rightarrow> w
         | j # js \<Rightarrow> w\<lparr>aw_queue := js, aw_hand := Some j\<rparr>))"

definition async_Get :: "(lookup_opts \<Rightarrow> coord \<Rightarrow> coord \<Rightarrow> 's \<Rightarrow> edge option) \<Rightarrow> lookup_opts \<Rightarrow> coord \<Rightarrow> coord \<Rightarrow> 's async_writer \<Rightarrow> edge option" where
  "async_Get get opts a b w = get opts a b (aw_inner w)"

definition async_Upsert :: "(lookup_opts \<Rightarrow> edge \<Rightarrow> 's \<Rightarrow> 's) \<Rightarrow> lookup_opts \<Rightarrow> edge \<Rightarrow> 's async_writer \<Rightarrow> 's async_writer" where
  "async_Upsert upsert opts e w = w\<lparr>aw_inner := upsert opts e (aw_inner w)\<rparr>"

text \<open>
  \<open>Close\<close> closes the channel (closing twice panics) and waits for the worker, which empties the
  channel first: two steps for each job and one for the job in hand.
\<close>

definition async_Close :: "(lookup_opts \<Rightarrow> edge \<Rightarrow> 's \<Rightarrow> 's) \<Rightarrow> 's async_writer \<Rightarrow> 's async_writer option" where
  "async_Close upsert w =
     (if aw_closed w then None
      else Some ((worker_step upsert ^^ (2 * length (aw_queue w) + 1)) (w\<lparr>aw_closed := True\<rparr>)))"

section \<open>Pending jobs\<close>

definition pending :: "'s async_writer \<Rightarrow> upsert_job list" where
  "pending w = (case aw_hand w of None \<Rightarrow> [] | Some j \<Rightarrow> [j]) @ aw_queue w"

definition apply_jobs :: "(lookup_opts \<Rightarrow> edge \<Rightarrow> 's \<Rightarrow> 's) \<Rightarrow> upsert_job list \<Rightarrow> 's \<Rightarrow> 's" where
  "apply_jobs upsert = fold (\<lambda>(opts, e). upsert opts e)"

text \<open>The archive that an observer will see in the end.\<close>

definition eventually_stored :: "(lookup_opts \<Rightarrow> edge \<Rightarrow> 's \<Rightarrow> 's) \<Rightarrow> 's async_writer \<Rightarrow> 's" where
  "eventually_stored upsert w = apply_jobs upsert (pending w) (aw_inner w)"

lemma worker_keeps: "eventually_stored upsert (worker_step upsert w) = eventually_stored upsert w"
  by (auto simp: eventually_stored_def worker_step_def pending_def apply_jobs_def split: option.split list.split)

lemma worker_steps_keep: "eventually_stored upsert ((worker_step upsert ^^ n) w) = eventually_stored upsert w"
  by (induction n) (simp_all add: worker_keeps)

lemma worker_capacity: "aw_capacity (worker_step upsert w) = aw_capacity w \<and> aw_closed (worker_step upsert w) = aw_closed w \<and>
    length (aw_queue (worker_step upsert w)) \<le> length (aw_queue w)"
  by (auto simp: worker_step_def split: option.split list.split)

definition backlog :: "'s async_writer \<Rightarrow> nat" where
  "backlog w = 2 * length (aw_queue w) + (if aw_hand w = None then 0 else 1)"

lemma worker_backlog: "backlog (worker_step upsert w) = backlog w - 1"
  by (auto simp: backlog_def worker_step_def split: option.split list.split)

lemma worker_steps_backlog: "backlog ((worker_step upsert ^^ n) w) = backlog w - n"
  by (induction n) (simp_all add: worker_backlog)

lemma backlog_zero: "backlog w = 0 \<Longrightarrow> pending w = [] \<and> aw_queue w = [] \<and> aw_hand w = None"
  by (auto simp: backlog_def pending_def split: if_splits)

lemma Close_drains:
  assumes "async_Close upsert w = Some w'"
  shows "aw_queue w' = [] \<and> aw_hand w' = None \<and> aw_inner w' = eventually_stored upsert w"
proof -
  let ?w = "w\<lparr>aw_closed := True\<rparr>"
  have w': "w' = (worker_step upsert ^^ (2 * length (aw_queue w) + 1)) ?w" using assms by (simp add: async_Close_def split: if_splits)
  have "backlog w' = 0" unfolding w' worker_steps_backlog by (simp add: backlog_def)
  from backlog_zero [OF this] have fin: "pending w' = []" "aw_queue w' = []" "aw_hand w' = None" by simp_all
  have "eventually_stored upsert w' = eventually_stored upsert ?w" unfolding w' by (rule worker_steps_keep)
  moreover have "eventually_stored upsert ?w = eventually_stored upsert w" by (simp add: eventually_stored_def pending_def)
  ultimately show ?thesis using fin by (simp add: eventually_stored_def apply_jobs_def)
qed

section \<open>Reachable writers\<close>

text \<open>
  A writer with queue size \<open>q\<close> in front of \<open>inner\<close> after any interleaving of enqueues and worker
  steps; \<open>acc\<close> lists the jobs that found room, in order.
\<close>

inductive async_reach :: "(lookup_opts \<Rightarrow> edge \<Rightarrow> 's \<Rightarrow> 's) \<Rightarrow> 's \<Rightarrow> int \<Rightarrow> upsert_job list \<Rightarrow> 's async_writer \<Rightarrow> bool"
  for upsert inner q where
  async_new: "async_reach upsert inner q [] (NewAsyncWriter inner q)"
| async_accept: "async_reach upsert inner q acc w \<Longrightarrow> length (aw_queue w) < aw_capacity w \<Longrightarrow>
    EnqueueUpsert opts e w = Some w' \<Longrightarrow> async_reach upsert inner q (acc @ [(opts, e)]) w'"
| async_drop: "async_reach upsert inner q acc w \<Longrightarrow> \<not> length (aw_queue w) < aw_capacity w \<Longrightarrow>
    EnqueueUpsert opts e w = Some w' \<Longrightarrow> async_reach upsert inner q acc w'"
| async_work: "async_reach upsert inner q acc w \<Longrightarrow> async_reach upsert inner q acc (worker_step upsert w)"

lemma apply_jobs_snoc: "apply_jobs upsert (js @ [(opts, e)]) s = upsert opts e (apply_jobs upsert js s)"
  by (simp add: apply_jobs_def)

lemma Enqueue_accept:
  assumes "length (aw_queue w) < aw_capacity w" "EnqueueUpsert opts e w = Some w'"
  shows "w' = w\<lparr>aw_queue := aw_queue w @ [(opts, e)]\<rparr>" "pending w' = pending w @ [(opts, e)]"
  using assms by (simp_all add: EnqueueUpsert_def pending_def split: if_splits) (auto simp: pending_def)

lemma Enqueue_drop: "\<not> length (aw_queue w) < aw_capacity w \<Longrightarrow> EnqueueUpsert opts e w = Some w' \<Longrightarrow> w' = w"
  by (simp add: EnqueueUpsert_def split: if_splits)

lemma async_reach_invariant:
  "async_reach upsert inner q acc w \<Longrightarrow> \<not> aw_closed w \<and> 0 < aw_capacity w \<and> length (aw_queue w) \<le> aw_capacity w \<and>
   eventually_stored upsert w = apply_jobs upsert acc inner"
proof (induction rule: async_reach.induct)
  case async_new
  then show ?case by (simp add: NewAsyncWriter_def eventually_stored_def pending_def)
next
  case (async_accept acc w opts e w')
  then show ?case using Enqueue_accept [OF async_accept.hyps(2,3)]
    by (simp add: eventually_stored_def apply_jobs_snoc)
next
  case (async_drop acc w opts e w')
  then show ?case using Enqueue_drop [OF async_drop.hyps(2,3)] by simp
next
  case (async_work acc w)
  then show ?case using worker_capacity [of upsert w] by (simp add: worker_keeps)
qed

section \<open>Reading the memory archive\<close>

text \<open>
  In \<open>Memory\<close> the last write wins: after any sequence of upserts a strict read returns the last
  edge of positive or negative distance that was written under the same key, with its time slot
  filled in, and what was there before when there is none.
\<close>

lemma Memory_last_write_wins:
  assumes "lo_strict opts"
    and "key = memKey (tenant_name (lo_tenant opts)) (lo_method opts) (lo_strategy opts) (gh a) (gh b) (mem_slot now (lo_time_slot opts))"
  shows "memory_Get order gh now opts a b (fold (\<lambda>(o', e). memory_Upsert gh now o' e) jobs rows) =
    (case filter (\<lambda>(o', e). ed_distance e \<noteq> 0 \<and> memKey (tenant_name (lo_tenant o')) (lo_method o') (lo_strategy o')
         (gh (ed_origin e)) (gh (ed_destination e)) (mem_slot now (ed_wmt e)) = key) (rev jobs) of
       [] \<Rightarrow> memory_Get order gh now opts a b rows
     | (o', e) # _ \<Rightarrow> Some (e\<lparr>ed_wmt := mem_slot now (ed_wmt e)\<rparr>))"
proof -
  have "memory_Get order gh now opts a b s = map_of s key" for s
    using mem.get_strict [OF assms(1), of order gh now a b s] assms(2) by simp
  then show ?thesis using mem.cells_upsert_all [of gh now jobs rows key] by (simp only:)
qed

section \<open>Properties\<close>

text \<open>
  C14: the asynchronous writer refines an archive that is written at once: under every interleaving
  of enqueues and worker steps the queue stays within its capacity, the inner archive with the
  pending jobs applied equals the initial archive with all accepted jobs applied in order, and
  \<open>Close\<close> returns with the queue empty and exactly these jobs written.
\<close>

theorem AsyncWriter_refines_archive:
  assumes "async_reach upsert inner q acc w"
  shows "length (aw_queue w) \<le> aw_capacity w \<and>
    apply_jobs upsert (pending w) (aw_inner w) = apply_jobs upsert acc inner \<and>
    (\<exists>w'. async_Close upsert w = Some w' \<and> aw_queue w' = [] \<and> aw_hand w' = None \<and> aw_inner w' = apply_jobs upsert acc inner)"
proof -
  note inv = async_reach_invariant [OF assms]
  then obtain w' where w': "async_Close upsert w = Some w'" by (simp add: async_Close_def)
  show ?thesis using inv w' Close_drains [OF w'] by (simp add: eventually_stored_def)
qed

definition example_edge :: edge where
  "example_edge = zero_edge\<lparr>ed_distance := 99, ed_wmt := ''50714''\<rparr>"

abbreviation example_upsert :: "lookup_opts \<Rightarrow> edge \<Rightarrow> memory \<Rightarrow> memory" where
  "example_upsert \<equiv> memory_Upsert (\<lambda>p. ''wx4g0ec1'') \<lparr>ct_weekday = 4, ct_month = 7, ct_hour = 14\<rparr>"

theorem AsyncWriter_refines_archive_witness:
  "\<exists>w w'. EnqueueUpsert example_opts example_edge (NewAsyncWriter NewMemory 1) = Some w \<and> aw_inner w = NewMemory \<and>
     async_Close example_upsert w = Some w' \<and> aw_queue w' = [] \<and> aw_inner w' = example_upsert example_opts example_edge NewMemory"
proof -
  obtain w where w: "EnqueueUpsert example_opts example_edge (NewAsyncWriter NewMemory 1) = Some w" "aw_inner w = NewMemory"
    by (simp add: EnqueueUpsert_def NewAsyncWriter_def)
  have "async_reach example_upsert NewMemory 1 ([] @ [(example_opts, example_edge)]) w"
    by (rule async_accept [OF async_new _ w(1)]) (simp add: NewAsyncWriter_def)
  from AsyncWriter_refines_archive [OF this] w show ?thesis by (auto simp: apply_jobs_def)
qed

end
