(* ===== verification/Matrix_Engine.thy ===== *)
theory Matrix_Engine
  imports Dense_Planner Batch_Planner Edge_Archive
begin

text \<open>
  \<open>internal/engine/engine.go\<close>: \<open>Compute\<close> looks every origin-destination pair up in the cache and
  the archive, plans provider walks over the misses, executes them and fills the two matrices.
  The engine holds the components of the other theories: the Redis store, an archive and an
  asynchronous writer behind their interfaces, the batch planner, the registry, the arc-cover
  planner. \<open>None\<close> as a result of a definition is a panic. Left out are \<open>ElapsedMs\<close> and the start
  time it is computed from.
\<close>

section \<open>Types\<close>

record matrix_request =
  mr_points :: "coord list"
  mr_coordinate :: string
  mr_strategy :: int
  mr_method :: int
  mr_time_slot :: string
  mr_strict :: bool
  mr_geo_wide :: int
  mr_provider :: string
  mr_speed :: int
  mr_tenant :: string

record engine_stats =
  es_cache_hits :: nat
  es_cold_hits :: nat
  es_cache_misses :: nat
  es_provider_calls :: nat
  es_fallback_edges :: nat
  es_arc_cover_calls :: nat
  es_hit_ratio :: real

record matrix_result =
  mx_distances :: "real list list"
  mx_durations :: "real list list"
  mx_stats :: engine_stats

datatype 'e engine_error =
    MatrixDeadline
  | TooManyPoints int
  | NeedTwoPoints
  | ProviderNotFound string
  | CacheError string
  | ArchiveError string
  | PlanFailed string
  | WalkFailed "'e plan_error"
  | PairFailed 'e

text \<open>The interface \<open>persist.Archive\<close> as the engine uses it, and \<open>EnqueueUpsert\<close> of the writer.\<close>

record 'w archive_ops =
  ar_Get :: "lookup_opts \<Rightarrow> coord \<Rightarrow> coord \<Rightarrow> 'w \<Rightarrow> (string + edge option) \<times> 'w"
  ar_Upsert :: "lookup_opts \<Rightarrow> edge \<Rightarrow> 'w \<Rightarrow> string option \<times> 'w"

type_synonym arc_cover = "poll \<Rightarrow> nat \<Rightarrow> arc list \<Rightarrow> int \<Rightarrow> (string + plan) option"

record ('e, 'w) engine =
  en_cache :: "('w store_env \<times> cache_store) option"
  en_archive :: "'w archive_ops option"
  en_async :: "(lookup_opts \<Rightarrow> edge \<Rightarrow> 'w \<Rightarrow> 'w option) option"
  en_planner :: "planner option"
  en_registry :: "('e, 'w) registry"
  en_arc_cover :: "arc_cover option"
  en_max_points :: int

text \<open>
  What a call of \<open>Compute\<close> observes: \<open>ctx.Err() != nil\<close> (\<open>cx_done\<close>, and its answers while \<open>Plan\<close>
  runs, \<open>cx_polls\<close>), the calendar time, the schedule of goroutines, the rounding to \<open>float32\<close>.
\<close>

record 'w call_env =
  cx_done :: "'w \<Rightarrow> bool \<times> 'w"
  cx_polls :: "'w \<Rightarrow> poll"
  cx_now :: "'w \<Rightarrow> civil_time"
  cx_sched :: "nat \<Rightarrow> nat list"
  cx_f32 :: "real \<Rightarrow> real"

section \<open>Small operations\<close>

definition dense_cover :: "config \<Rightarrow> arc_cover" where
  "dense_cover cfg = (\<lambda>ctx n required m. map_option Inr (Plan cfg ctx n required m))"

definition engine_arcCover :: "('e, 'w) engine \<Rightarrow> arc_cover" where
  "engine_arcCover e =
     (case en_arc_cover e of
        Some c \<Rightarrow> c
      | None \<Rightarrow> dense_cover (NewDensePlanner DefaultConfig))"

definition engine_maxLegs :: "('e, 'w) engine \<Rightarrow> int" where
  "engine_maxLegs e =
     (case en_planner e of
        Some p \<Rightarrow> if batch_size p > 1 then batch_size p - 1 else 11
      | None \<Rightarrow> 11)"

definition toSlice :: "coord list \<Rightarrow> real list list" where
  "toSlice pts = map (\<lambda>p. [fst p, snd p]) pts"

definition routeWaypoints :: "coord list \<Rightarrow> route \<Rightarrow> coord list option" where
  "routeWaypoints points r =
     (case legs r of
        [] \<Rightarrow> Some []
      | l # ls \<Rightarrow> do {
          first \<leftarrow> slice_get points (unat (leg_from l));
          rest \<leftarrow> those (map (\<lambda>leg. slice_get points (unat (leg_to leg))) (l # ls));
          Some (first # rest) })"

definition packResult :: "real list list \<Rightarrow> real list list \<Rightarrow> engine_stats \<Rightarrow> matrix_result" where
  "packResult distances durations st =
     (let total = es_cache_hits st + es_cold_hits st + es_cache_misses st
      in \<lparr>mx_distances = distances, mx_durations = durations,
          mx_stats = (if total > 0
            then st\<lparr>es_hit_ratio := real (es_cache_hits st + es_cold_hits st) / real total\<rparr> else st)\<rparr>)"

text \<open>\<open>lookupEdge\<close>: the cache, then the archive, whose hit is put into the cache. The result carries
  the step and whether the hit was cold.\<close>

definition cache_hit :: "('e, 'w) engine \<Rightarrow> lookup_opts \<Rightarrow> coord \<Rightarrow> coord \<Rightarrow> 'w \<Rightarrow>
    (('e engine_error + edge option) \<times> 'w) option" where
  "cache_hit e opts o' d w =
     (case en_cache e of
        None \<Rightarrow> Some (Inr None, w)
      | Some (env, s) \<Rightarrow> do {
          (r, w1) \<leftarrow> store_Get env s opts o' d w;
          Some (case r of
            Inl err \<Rightarrow> (Inl (CacheError err), w1)
          | Inr got \<Rightarrow> (Inr (if gr_hit got then Some (gr_edge got) else None), w1)) })"

text \<open>Errors of a write are ignored.\<close>

definition cache_write :: "('e, 'w) engine \<Rightarrow> lookup_opts \<Rightarrow> edge \<Rightarrow> 'w \<Rightarrow> 'w option" where
  "cache_write e opts ed w =
     (case en_cache e of
        None \<Rightarrow> Some w
      | Some (env, s) \<Rightarrow> map_option snd (store_Put env s opts ed w))"

definition lookupEdge :: "('e, 'w) engine \<Rightarrow> lookup_opts \<Rightarrow> coord \<Rightarrow> coord \<Rightarrow> 'w \<Rightarrow>
    (('e engine_error + (step \<times> bool) option) \<times> 'w) option" where
  "lookupEdge e opts o' d w = do {
     (r, w1) \<leftarrow> cache_hit e opts o' d w;
     case r of
       Inl err \<Rightarrow> Some (Inl err, w1)
     | Inr (Some ed) \<Rightarrow> Some (Inr (Some (edgeToStep ed, False)), w1)
     | Inr None \<Rightarrow>
         (case en_archive e of
            None \<Rightarrow> Some (Inr None, w1)
          | Some ar \<Rightarrow>
              (case ar_Get ar opts o' d w1 of
                 (Inl err, w2) \<Rightarrow> Some (Inl (ArchiveError err), w2)
               | (Inr None, w2) \<Rightarrow> Some (Inr None, w2)
               | (Inr (Some ed), w2) \<Rightarrow> do {
                   w3 \<leftarrow> cache_write e opts ed w2;
                   Some (Inr (Some (edgeToStep ed, True)), w3) })) }"

definition persistEdge :: "('e, 'w) engine \<Rightarrow> lookup_opts \<Rightarrow> edge \<Rightarrow> 'w \<Rightarrow> 'w option" where
  "persistEdge e opts ed w = do {
     w1 \<leftarrow> cache_write e opts ed w;
     case en_async e of
       Some enqueue \<Rightarrow> enqueue opts ed w1
     | None \<Rightarrow>
         (case en_archive e of
            Some ar \<Rightarrow> Some (snd (ar_Upsert ar opts ed w1))
          | None \<Rightarrow> Some w1) }"

definition fillPair :: "('e, 'w) engine \<Rightarrow> ('e, 'w) provider \<Rightarrow> lookup_opts \<Rightarrow> route_request \<Rightarrow> coord \<Rightarrow> coord \<Rightarrow> string \<Rightarrow> 'w \<Rightarrow>
    (('e engine_error + step) \<times> nat \<times> 'w) option" where
  "fillPair e prov opts routeReq o' d wmt w = do {
     (r, w1) \<leftarrow> lookupEdge e opts o' d w;
     case r of
       Inl err \<Rightarrow> Some (Inl err, 0, w1)
     | Inr (Some (st, cold)) \<Rightarrow> Some (Inr st, 0, w1)
     | Inr None \<Rightarrow>
         (case RoutePair (prov_Route prov) routeReq o' d w1 of
            ((Inl err, calls), w2) \<Rightarrow> Some (Inl (PairFailed err), calls, w2)
          | ((Inr st, calls), w2) \<Rightarrow>
              if st_source st \<noteq> SourceFallback
              then do { w3 \<leftarrow> persistEdge e opts (StepToEdge st wmt (prov_Name prov)) w2; Some (Inr st, calls, w3) }
              else Some (Inr st, calls, w2)) }"

section \<open>Compute\<close>

text \<open>
  The variables of \<open>Compute\<close>; \<open>segmentByPair\<close> is a map from pair keys to steps. A loop body
  continues, leaves \<open>Compute\<close> with the partial result and \<open>ErrDeadline\<close>, or leaves it with another
  error and no result.
\<close>

record 'w compute_state =
  cp_distances :: "real list list"
  cp_durations :: "real list list"
  cp_stats :: engine_stats
  cp_segments :: "string \<Rightarrow> step option"
  cp_miss :: "arc list"
  cp_world :: 'w

datatype ('e, 'w) flow =
    Go "'w compute_state"
  | Deadline "'w compute_state"
  | Failed "'e engine_error" "'w compute_state"

fun run_loop :: "('x \<Rightarrow> 'w compute_state \<Rightarrow> ('e, 'w) flow option) \<Rightarrow> 'x list \<Rightarrow> 'w compute_state \<Rightarrow> ('e, 'w) flow option" where
  "run_loop body [] s = Some (Go s)"
| "run_loop body (x # xs) s = do {
     r \<leftarrow> body x s;
     case r of Go s' \<Rightarrow> run_loop body xs s' | _ \<Rightarrow> Some r }"

text \<open>The index pairs in the order of the two nested loops.\<close>

definition index_pairs :: "nat \<Rightarrow> (nat \<times> nat) list" where
  "index_pairs n = List.product [0..<n] [0..<n]"

definition note_hit :: "bool \<Rightarrow> string \<Rightarrow> step \<Rightarrow> 'w compute_state \<Rightarrow> 'w compute_state" where
  "note_hit cold key st s =
     s\<lparr>cp_stats := (if cold then (cp_stats s)\<lparr>es_cold_hits := es_cold_hits (cp_stats s) + 1\<rparr>
                    else (cp_stats s)\<lparr>es_cache_hits := es_cache_hits (cp_stats s) + 1\<rparr>),
       cp_segments := (cp_segments s)(key \<mapsto> st)\<rparr>"

definition note_miss :: "nat \<Rightarrow> nat \<Rightarrow> 'w compute_state \<Rightarrow> 'w compute_state" where
  "note_miss i j s =
     s\<lparr>cp_stats := (cp_stats s)\<lparr>es_cache_misses := es_cache_misses (cp_stats s) + 1\<rparr>,
       cp_miss := cp_miss s @ [Arc 0 (of_nat i) (of_nat j)]\<rparr>"

definition probe_pair :: "'w call_env \<Rightarrow> ('e, 'w) engine \<Rightarrow> lookup_opts \<Rightarrow> bool \<Rightarrow> coord list \<Rightarrow> nat \<times> nat \<Rightarrow>
    'w compute_state \<Rightarrow> ('e, 'w) flow option" where
  "probe_pair cx e opts strict waypoints = (\<lambda>(i, j) s.
     if i = j then Some (Go s)
     else let (stop, w1) = cx_done cx (cp_world s); s1 = s\<lparr>cp_world := w1\<rparr> in
       if stop then Some (Deadline s1)
       else let p = waypoints ! i; d = waypoints ! j; key = pairKey p d in
         if cp_segments s1 key \<noteq> None then Some (Go s1)
         else do {
           (r, w2) \<leftarrow> lookupEdge e opts p d w1;
           let s2 = s1\<lparr>cp_world := w2\<rparr>;
           case r of
             Inl err \<Rightarrow> Some (Failed err s2)
           | Inr (Some (st, cold)) \<Rightarrow> Some (Go (note_hit cold key st s2))
           | Inr None \<Rightarrow>
               if strict then Some (Go (note_miss i j s2))
               else do {
                 (r', w3) \<leftarrow> lookupEdge e opts d p w2;
                 let s3 = s2\<lparr>cp_world := w3\<rparr>;
                 case r' of
                   Inl err \<Rightarrow> Some (Failed err s3)
                 | Inr (Some (st, cold)) \<Rightarrow> Some (Go (note_hit cold (pairKey d p) st s3))
                 | Inr None \<Rightarrow> Some (Go (note_miss i j s3)) } })"

text \<open>One step of a walk: counted, recorded, and persisted unless it is a fallback.\<close>

definition record_step :: "('e, 'w) engine \<Rightarrow> ('e, 'w) provider \<Rightarrow> lookup_opts \<Rightarrow> string \<Rightarrow> step \<Rightarrow>
    'w compute_state \<Rightarrow> 'w compute_state option" where
  "record_step e prov opts wmt st s =
     (let s1 = (if st_source st = SourceFallback
                then s\<lparr>cp_stats := (cp_stats s)\<lparr>es_fallback_edges := es_fallback_edges (cp_stats s) + 1\<rparr>\<rparr> else s);
          s2 = s1\<lparr>cp_segments := (cp_segments s1)(pairKey (st_origin st) (st_destination st) \<mapsto> st)\<rparr>
      in if st_source st \<noteq> SourceFallback
         then do { w1 \<leftarrow> persistEdge e opts (StepToEdge st wmt (prov_Name prov)) (cp_world s2); Some (s2\<lparr>cp_world := w1\<rparr>) }
         else Some s2)"

definition add_calls :: "nat \<Rightarrow> 'w compute_state \<Rightarrow> 'w compute_state" where
  "add_calls calls s = s\<lparr>cp_stats := (cp_stats s)\<lparr>es_provider_calls := es_provider_calls (cp_stats s) + calls\<rparr>\<rparr>"

text \<open>After an error of the provider the context decides between \<open>ErrDeadline\<close> and that error.\<close>

definition deadline_or :: "'w call_env \<Rightarrow> 'e engine_error \<Rightarrow> 'w compute_state \<Rightarrow> ('e, 'w) flow" where
  "deadline_or cx err s =
     (let (stop, w1) = cx_done cx (cp_world s); s1 = s\<lparr>cp_world := w1\<rparr>
      in if stop then Deadline s1 else Failed err s1)"

definition walk_route :: "'w call_env \<Rightarrow> ('e, 'w) engine \<Rightarrow> ('e, 'w) provider \<Rightarrow> lookup_opts \<Rightarrow> route_request \<Rightarrow> string \<Rightarrow>
    coord list \<Rightarrow> route \<Rightarrow> 'w compute_state \<Rightarrow> ('e, 'w) flow option" where
  "walk_route cx e prov opts routeReq wmt waypoints rt s =
     (let (stop, w1) = cx_done cx (cp_world s); s1 = s\<lparr>cp_world := w1\<rparr> in
      if stop then Some (Deadline s1)
      else do {
        wps \<leftarrow> routeWaypoints waypoints rt;
        if length wps < 2 then Some (Go s1)
        else do {
          p \<leftarrow> en_planner e;
          let ((r, calls), w2) = RouteWaypoints (cx_sched cx) (prov_Route prov) (cx_done cx) p routeReq wps w1;
          let s2 = add_calls calls (s1\<lparr>cp_world := w2\<rparr>);
          case r of
            Inl err \<Rightarrow> Some (deadline_or cx (WalkFailed err) s2)
          | Inr steps \<Rightarrow> map_option Go (fold_opt (record_step e prov opts wmt) steps s2) } })"

definition walk_misses :: "'w call_env \<Rightarrow> ('e, 'w) engine \<Rightarrow> ('e, 'w) provider \<Rightarrow> lookup_opts \<Rightarrow> route_request \<Rightarrow> string \<Rightarrow>
    coord list \<Rightarrow> 'w compute_state \<Rightarrow> ('e, 'w) flow option" where
  "walk_misses cx e prov opts routeReq wmt waypoints s =
     (if length (cp_miss s) > 0
      then do {
        r \<leftarrow> engine_arcCover e (cx_polls cx (cp_world s)) (length waypoints) (cp_miss s) (engine_maxLegs e);
        case r of
          Inl err \<Rightarrow> Some (Failed (PlanFailed err) s)
        | Inr pl \<Rightarrow>
            let (stop, w1) = cx_done cx (cp_world s); s1 = s\<lparr>cp_world := w1\<rparr> in
            if stop then Some (Deadline s1)
            else run_loop (walk_route cx e prov opts routeReq wmt waypoints) (routes pl)
              (s1\<lparr>cp_stats := (cp_stats s1)\<lparr>es_arc_cover_calls := length (routes pl)\<rparr>\<rparr>) }
      else Some (Go s))"

definition set_entry :: "nat \<Rightarrow> nat \<Rightarrow> step \<Rightarrow> 'w compute_state \<Rightarrow> 'w compute_state" where
  "set_entry i j st s =
     s\<lparr>cp_distances := (cp_distances s)[i := (cp_distances s ! i)[j := st_distance st]],
       cp_durations := (cp_durations s)[i := (cp_durations s ! i)[j := st_duration st]]\<rparr>"

text \<open>The step that the table holds for a pair; in non-strict mode also that of the reverse pair.\<close>

definition known_step :: "bool \<Rightarrow> coord \<Rightarrow> coord \<Rightarrow> (string \<Rightarrow> step option) \<Rightarrow> step option" where
  "known_step strict p d m =
     (case m (pairKey p d) of
        Some st \<Rightarrow> Some st
      | None \<Rightarrow> if strict then None else m (pairKey d p))"

definition fill_entry :: "'w call_env \<Rightarrow> ('e, 'w) engine \<Rightarrow> ('e, 'w) provider \<Rightarrow> lookup_opts \<Rightarrow> bool \<Rightarrow> route_request \<Rightarrow> string \<Rightarrow>
    coord list \<Rightarrow> nat \<times> nat \<Rightarrow> 'w compute_state \<Rightarrow> ('e, 'w) flow option" where
  "fill_entry cx e prov opts strict routeReq wmt waypoints = (\<lambda>(i, j) s.
     let (stop, w1) = cx_done cx (cp_world s); s1 = s\<lparr>cp_world := w1\<rparr> in
     if stop then Some (Deadline s1)
     else if i = j then Some (Go s1)
     else let p = waypoints ! i; d = waypoints ! j in
       (case known_step strict p d (cp_segments s1) of
          Some st \<Rightarrow> Some (Go (set_entry i j st s1))
        | None \<Rightarrow> do {
            (r, calls, w2) \<leftarrow> fillPair e prov opts routeReq p d wmt w1;
            let s2 = add_calls calls (s1\<lparr>cp_world := w2\<rparr>);
            case r of
              Inl err \<Rightarrow> Some (deadline_or cx err s2)
            | Inr st \<Rightarrow>
                let s3 = (if st_source st = SourceFallback
                          then s2\<lparr>cp_stats := (cp_stats s2)\<lparr>es_fallback_edges := es_fallback_edges (cp_stats s2) + 1\<rparr>\<rparr> else s2)
                in Some (Go (set_entry i j st s3)) }))"

definition zero_matrix :: "nat \<Rightarrow> real list list" where
  "zero_matrix n = replicate n (replicate n 0)"

definition start_state :: "nat \<Rightarrow> 'w \<Rightarrow> 'w compute_state" where
  "start_state n w =
     \<lparr>cp_distances = zero_matrix n, cp_durations = zero_matrix n,
      cp_stats = \<lparr>es_cache_hits = 0, es_cold_hits = 0, es_cache_misses = 0, es_provider_calls = 0, es_fallback_edges = 0,
        es_arc_cover_calls = 0, es_hit_ratio = 0\<rparr>,
      cp_segments = Map.empty, cp_miss = [], cp_world = w\<rparr>"

text \<open>The three phases in sequence.\<close>

definition compute_phases :: "'w call_env \<Rightarrow> ('e, 'w) engine \<Rightarrow> ('e, 'w) provider \<Rightarrow> lookup_opts \<Rightarrow> bool \<Rightarrow> route_request \<Rightarrow> string \<Rightarrow>
    coord list \<Rightarrow> 'w compute_state \<Rightarrow> ('e, 'w) flow option" where
  "compute_phases cx e prov opts strict routeReq wmt waypoints s0 = do {
     r1 \<leftarrow> run_loop (probe_pair cx e opts strict waypoints) (index_pairs (length waypoints)) s0;
     case r1 of
       Go s1 \<Rightarrow> do {
         r2 \<leftarrow> walk_misses cx e prov opts routeReq wmt waypoints s1;
         case r2 of
           Go s2 \<Rightarrow> run_loop (fill_entry cx e prov opts strict routeReq wmt waypoints) (index_pairs (length waypoints)) s2
         | _ \<Rightarrow> Some r2 }
     | _ \<Rightarrow> Some r1 }"

definition compute_opts :: "matrix_request \<Rightarrow> lookup_opts" where
  "compute_opts req =
     \<lparr>lo_tenant = mr_tenant req, lo_method = mr_method req, lo_strategy = mr_strategy req, lo_time_slot = mr_time_slot req,
      lo_strict = mr_strict req, lo_geo_wide = (if mr_geo_wide req \<le> 0 then 200 else mr_geo_wide req), lo_edge_ttl = 0\<rparr>"

definition compute_route_request :: "matrix_request \<Rightarrow> route_request" where
  "compute_route_request req =
     \<lparr>rq_waypoints = [], rq_strategy = mr_strategy req, rq_method = mr_method req, rq_speed = mr_speed req\<rparr>"

definition finish :: "('e, 'w) flow \<Rightarrow> (matrix_result option \<times> 'e engine_error option) \<times> 'w" where
  "finish r =
     (case r of
        Go s \<Rightarrow> ((Some (packResult (cp_distances s) (cp_durations s) (cp_stats s)), None), cp_world s)
      | Deadline s \<Rightarrow> ((Some (packResult (cp_distances s) (cp_durations s) (cp_stats s)), Some MatrixDeadline), cp_world s)
      | Failed err s \<Rightarrow> ((None, Some err), cp_world s))"

definition Compute :: "'w call_env \<Rightarrow> ('e, 'w) engine \<Rightarrow> matrix_request \<Rightarrow> 'w \<Rightarrow>
    ((matrix_result option \<times> 'e engine_error option) \<times> 'w) option" where
  "Compute cx e req w =
     (if en_max_points e > 0 \<and> int (length (mr_points req)) > en_max_points e
      then Some ((None, Some (TooManyPoints (en_max_points e))), w)
      else if length (mr_points req) < 2 then Some ((None, Some NeedTwoPoints), w)
      else do {
        waypoints \<leftarrow> CoordConvertToGCJ02 (cx_f32 cx) (toSlice (mr_points req)) (mr_coordinate req);
        let n = length waypoints;
        case registry_Get (mr_provider req) (en_registry e) of
          None \<Rightarrow> Some ((None, Some (ProviderNotFound (mr_provider req))), w)
        | Some prov \<Rightarrow>
            let wmt = (if mr_time_slot req = '''' then TimeSlotWMH (cx_now cx w) (Some (cx_now cx w)) else mr_time_slot req)
            in map_option finish (compute_phases cx e prov (compute_opts req) (mr_strict req) (compute_route_request req) wmt
                 waypoints (start_state n w)) })"

end
