(* ===== verification/Matrix_Entries.thy ===== *)
theory Matrix_Entries
  imports Matrix_Engine
begin

text \<open>
  Where the entries of a matrix come from. \<open>served\<close> says that a pair of numbers was answered for
  an origin and a destination by the cache, the archive or the provider; the invariant of the
  three loops of \<open>Compute\<close> is that the table of segments and the matrices hold such numbers only.
\<close>

section \<open>Rules for the loops\<close>

definition flow_ok :: "('w compute_state \<Rightarrow> bool) \<Rightarrow> ('w compute_state \<Rightarrow> bool) \<Rightarrow> ('e, 'w) flow \<Rightarrow> bool" where
  "flow_ok I D r = (case r of Go s \<Rightarrow> I s | Deadline s \<Rightarrow> D s | Failed err s \<Rightarrow> True)"

lemma flow_ok_simps [simp]:
  "flow_ok I D (Go s) = I s" "flow_ok I D (Deadline s) = D s" "flow_ok I D (Failed err s)"
  by (simp_all add: flow_ok_def)

lemma flow_ok_deadline_or: "(\<And>w. D (s\<lparr>cp_world := w\<rparr>)) \<Longrightarrow> flow_ok I D (deadline_or cx err s)"
  by (simp add: deadline_or_def Let_def split: prod.split)

lemma run_loop_append:
  "run_loop body (xs @ ys) s = do { r \<leftarrow> run_loop body xs s; case r of Go t \<Rightarrow> run_loop body ys t | _ \<Rightarrow> Some r }"
proof (induction xs arbitrary: s)
  case (Cons x xs)
  show ?case by (cases "body x s") (auto simp: Cons split: flow.split)
qed simp

text \<open>The partial rule: \<open>I\<close> may depend on the elements already seen.\<close>

lemma run_loop_rule:
  assumes "run_loop body xs s = Some r" "I [] s"
    and "\<And>ys x zs t r'. xs = ys @ x # zs \<Longrightarrow> I ys t \<Longrightarrow> body x t = Some r' \<Longrightarrow> flow_ok (I (ys @ [x])) D r'"
  shows "flow_ok (I xs) D r"
proof -
  have "flow_ok (I ys) D q" if "xs = ys @ zs" "run_loop body ys s = Some q" for ys zs q
    using that
  proof (induction ys arbitrary: zs q rule: rev_induct)
    case Nil
    then show ?case using assms(2) by auto
  next
    case (snoc y ys)
    then obtain q0 where q0: "run_loop body ys s = Some q0"
      by (auto simp: run_loop_append bind_eq_Some_conv)
    with snoc.IH [of "y # zs" q0] snoc.prems(1) have ok: "flow_ok (I ys) D q0" by simp
    show ?case
    proof (cases q0)
      case (Go t)
      with snoc.prems(2) q0 obtain r' where r': "body y t = Some r'" "q = r'"
        by (cases "body y t") (auto simp: run_loop_append split: flow.splits)
      with Go ok assms(3) [of ys y zs t r'] snoc.prems(1) show ?thesis by simp
    qed (use snoc.prems(2) q0 ok in \<open>auto simp: run_loop_append\<close>)
  qed
  from this [of xs "[]"] assms(1) show ?thesis by simp
qed

text \<open>The total rule: the loop does not panic.\<close>

lemma run_loop_total:
  assumes "J s" and "\<And>x t. x \<in> set xs \<Longrightarrow> J t \<Longrightarrow> \<exists>r. body x t = Some r \<and> (\<forall>t'. r = Go t' \<longrightarrow> J t')"
  shows "\<exists>r. run_loop body xs s = Some r \<and> (\<forall>t'. r = Go t' \<longrightarrow> J t')"
  using assms
proof (induction xs arbitrary: s)
  case (Cons x xs)
  from Cons.prems(2) [of x s] Cons.prems(1) obtain r where r: "body x s = Some r" "\<forall>t'. r = Go t' \<longrightarrow> J t'" by auto
  show ?case
  proof (cases r)
    case (Go t)
    with r Cons.IH [of t] Cons.prems(2) show ?thesis by simp
  qed (use r in auto)
qed simp

section \<open>Answers\<close>

definition step_value :: "step \<Rightarrow> real \<times> real" where
  "step_value st = (st_distance st, st_duration st)"

text \<open>
  \<open>served\<close>: for points that agree with \<open>p\<close> and \<open>d\<close> to the micro-degree, a lookup hit with these
  numbers, a route has a step with these numbers, or a request for the pair returned them.
\<close>

definition served :: "('e, 'w) engine \<Rightarrow> ('e, 'w) provider \<Rightarrow> lookup_opts \<Rightarrow> route_request \<Rightarrow> coord \<Rightarrow> coord \<Rightarrow> real \<times> real \<Rightarrow> bool" where
  "served e prov opts req p d v \<longleftrightarrow>
     (\<exists>p' d' st. micro_point p' = micro_point p \<and> micro_point d' = micro_point d \<and> v = step_value st \<and>
        ((\<exists>w w' cold. lookupEdge e opts p' d' w = Some (Inr (Some (st, cold)), w')) \<or>
         (\<exists>w w' rq res. prov_Route prov rq w = (Inr res, w') \<and> st \<in> set (rr_steps res) \<and> step_ends st = (p', d')) \<or>
         (\<exists>w w' n. RoutePair (prov_Route prov) req p' d' w = ((Inr st, n), w'))))"

lemma served_same_key:
  "pairKey p d = pairKey p' d' \<Longrightarrow> served e prov opts req p d v = served e prov opts req p' d' v"
  by (simp add: served_def pairKey_eq_iff)

lemma served_lookup: "lookupEdge e opts p d w = Some (Inr (Some (st, cold)), w') \<Longrightarrow> served e prov opts req p d (step_value st)"
  unfolding served_def by blast

lemma served_pair: "RoutePair (prov_Route prov) req p d w = ((Inr st, n), w') \<Longrightarrow> served e prov opts req p d (step_value st)"
  unfolding served_def by blast

lemma served_route:
  "prov_Route prov rq w = (Inr res, w') \<Longrightarrow> st \<in> set (rr_steps res) \<Longrightarrow>
   served e prov opts req (st_origin st) (st_destination st) (step_value st)"
  unfolding served_def step_ends_def by blast

text \<open>Steps of a batched walk are steps of the provider.\<close>

lemma run_packet_steps:
  assumes "run_packet route halt req packets i (rs, c, err, w) = (rs', c', err', w')" "st \<in> set (concat rs')"
  shows "st \<in> set (concat rs) \<or> (\<exists>rq v v' res. route rq v = (Inr res, v') \<and> st \<in> set (rr_steps res))"
proof -
  consider "rs' = rs" | v v' res where "route (req\<lparr>rq_waypoints := packets ! i\<rparr>) v = (Inr res, v')" "rs' = rs[i := rr_steps res]"
    using assms(1) by (auto simp: run_packet_def split: if_splits prod.splits bool.splits sum.splits)
  then show ?thesis
  proof cases
    case 2
    then have "set (concat rs') \<subseteq> set (concat rs) \<union> set (rr_steps res)"
      using set_update_subset_insert [of rs i "rr_steps res"] by auto
    with assms(2) 2(1) show ?thesis by blast
  qed (use assms(2) in simp)
qed

lemma fold_packets_steps:
  assumes "fold (run_packet route halt req packets) is (rs, c, err, w) = (rs', c', err', w')" "st \<in> set (concat rs')"
  shows "st \<in> set (concat rs) \<or> (\<exists>rq v v' res. route rq v = (Inr res, v') \<and> st \<in> set (rr_steps res))"
  using assms
proof (induction "is" arbitrary: rs c err w)
  case (Cons i "is")
  obtain rs1 c1 err1 w1 where one: "run_packet route halt req packets i (rs, c, err, w) = (rs1, c1, err1, w1)"
    by (metis surj_pair)
  with Cons.IH [of rs1 c1 err1 w1] Cons.prems run_packet_steps [OF one] show ?case by auto
qed simp

lemma RouteWaypoints_steps:
  assumes "RouteWaypoints sched route halt p req wps w = ((Inr steps, n), w')" "st \<in> set steps"
  shows "\<exists>rq v v' res. route rq v = (Inr res, v') \<and> st \<in> set (rr_steps res)"
proof -
  obtain ps where ps: "WaypointsPacket (batch_size p) wps = Some ps" using WaypointsPacket_returns by blast
  obtain rs c err v where run: "fold (run_packet route halt req ps) (sched (length ps)) (replicate (length ps) [], 0, None, w) =
      (rs, c, err, v)" by (metis surj_pair)
  have "steps = [] \<or> steps = concat rs"
    using assms(1) run ps by (auto simp: RouteWaypoints_def split: if_splits option.splits)
  then show ?thesis using fold_packets_steps [OF run, of st] assms(2) by auto
qed

section \<open>Outcomes of the loop bodies\<close>

lemma probe_pair_cases:
  assumes "probe_pair cx e opts strict wps (i, j) s = Some r"
  obtains "r = Go s" "i = j"
  | w where "r = Deadline (s\<lparr>cp_world := w\<rparr>)"
  | w st where "r = Go (s\<lparr>cp_world := w\<rparr>)" "cp_segments s (pairKey (wps ! i) (wps ! j)) = Some st"
  | w err where "r = Failed err (s\<lparr>cp_world := w\<rparr>)"
  | w w' p d st cold where "r = Go (note_hit cold (pairKey p d) st (s\<lparr>cp_world := w'\<rparr>))"
      "lookupEdge e opts p d w = Some (Inr (Some (st, cold)), w')"
      "(p, d) = (wps ! i, wps ! j) \<or> \<not> strict \<and> (p, d) = (wps ! j, wps ! i)"
  | w where "r = Go (note_miss i j (s\<lparr>cp_world := w\<rparr>))" "i \<noteq> j"
proof (cases "i = j")
  case True
  then show ?thesis using assms that(1) by (simp add: probe_pair_def)
next
  case False
  obtain stop w1 where stop: "cx_done cx (cp_world s) = (stop, w1)" by (metis surj_pair)
  consider (stop) stop | (known) st where "\<not> stop" "cp_segments s (pairKey (wps ! i) (wps ! j)) = Some st"
    | (ask) "\<not> (stop \<or> cp_segments s (pairKey (wps ! i) (wps ! j)) \<noteq> None)" by blast
  then show ?thesis
  proof cases
    case stop
    then show ?thesis using assms \<open>cx_done cx (cp_world s) = (stop, w1)\<close> that(2) [of w1] \<open>i \<noteq> j\<close> by (auto simp: probe_pair_def)
  next
    case known
    then show ?thesis using assms stop that(3) [of w1 st] \<open>i \<noteq> j\<close> by (auto simp: probe_pair_def Let_def)
  next
    case False: ask
    then obtain q w2 where q: "lookupEdge e opts (wps ! i) (wps ! j) w1 = Some (q, w2)"
      using assms stop \<open>i \<noteq> j\<close> by (auto simp: probe_pair_def Let_def bind_eq_Some_conv)
    show ?thesis
    proof (cases q)
      case (Inl err)
      then show ?thesis using assms stop q False \<open>i \<noteq> j\<close> that(4) by (auto simp: probe_pair_def Let_def)
    next
      case (Inr h)
      show ?thesis
      proof (cases h)
        case (Some sc)
        obtain st cold where "sc = (st, cold)" by (cases sc)
        with Some have "r = Go (note_hit cold (pairKey (wps ! i) (wps ! j)) st (s\<lparr>cp_world := w2\<rparr>))"
            "lookupEdge e opts (wps ! i) (wps ! j) w1 = Some (Inr (Some (st, cold)), w2)"
          using assms stop q Inr False \<open>i \<noteq> j\<close> by (auto simp: probe_pair_def Let_def)
        then show ?thesis by (rule that(5)) simp
      next
        case None
        show ?thesis
        proof (cases strict)
          case True
          then show ?thesis using assms stop q Inr None False \<open>i \<noteq> j\<close> that(6) by (auto simp: probe_pair_def Let_def)
        next
          case ns: False
          then obtain q' w3 where q': "lookupEdge e opts (wps ! j) (wps ! i) w2 = Some (q', w3)"
            using assms stop q Inr None False \<open>i \<noteq> j\<close> by (auto simp: probe_pair_def Let_def bind_eq_Some_conv)
          have r: "(case q' of Inl err \<Rightarrow> Some (Failed err (s\<lparr>cp_world := w3\<rparr>))
              | Inr None \<Rightarrow> Some (Go (note_miss i j (s\<lparr>cp_world := w3\<rparr>)))
              | Inr (Some (st, cold)) \<Rightarrow> Some (Go (note_hit cold (pairKey (wps ! j) (wps ! i)) st (s\<lparr>cp_world := w3\<rparr>)))) = Some r"
            using assms stop q Inr None False ns \<open>i \<noteq> j\<close> q' by (simp add: probe_pair_def Let_def)
          show ?thesis
          proof (cases q')
            case (Inl err)
            then show ?thesis using r that(4) by auto
          next
            case (Inr h')
            show ?thesis
            proof (cases h')
              case None
              then show ?thesis using r Inr that(6) \<open>i \<noteq> j\<close> by auto
            next
              case (Some sc)
              obtain st cold where "sc = (st, cold)" by (cases sc)
              with Some have "r = Go (note_hit cold (pairKey (wps ! j) (wps ! i)) st (s\<lparr>cp_world := w3\<rparr>))"
                  "lookupEdge e opts (wps ! j) (wps ! i) w2 = Some (Inr (Some (st, cold)), w3)"
                using r Inr q' by auto
              then show ?thesis by (rule that(5)) (simp add: ns)
            qed
          qed
        qed
      qed
    qed
  qed
qed

lemma walk_route_cases:
  assumes "walk_route cx e prov opts req wmt waypoints rt s = Some r"
  obtains w where "r = Deadline (s\<lparr>cp_world := w\<rparr>)"
  | w where "r = Go (s\<lparr>cp_world := w\<rparr>)"
  | err w c where "r = deadline_or cx err (add_calls c (s\<lparr>cp_world := w\<rparr>))"
  | w w' wps p steps c t where "RouteWaypoints (cx_sched cx) (prov_Route prov) (cx_done cx) p req wps w = ((Inr steps, c), w')"
      "fold_opt (record_step e prov opts wmt) steps (add_calls c (s\<lparr>cp_world := w'\<rparr>)) = Some t" "r = Go t"
proof -
  obtain stop w1 where stop: "cx_done cx (cp_world s) = (stop, w1)" by (metis surj_pair)
  show ?thesis
  proof (cases stop)
    case True
    then show ?thesis using assms stop that(1) [of w1] by (auto simp: walk_route_def)
  next
    case False
    then obtain wps where wps: "routeWaypoints waypoints rt = Some wps"
      using assms stop by (auto simp: walk_route_def Let_def bind_eq_Some_conv)
    show ?thesis
    proof (cases "length wps < 2")
      case True
      then show ?thesis using assms stop False wps that(2) [of w1] by (auto simp: walk_route_def)
    next
      case long: False
      then obtain p where p: "en_planner e = Some p"
        using assms stop False wps by (auto simp: walk_route_def Let_def bind_eq_Some_conv)
      obtain q c w2 where run: "RouteWaypoints (cx_sched cx) (prov_Route prov) (cx_done cx) p req wps w1 = ((q, c), w2)"
        by (metis surj_pair)
      show ?thesis
        using assms stop False wps long p run that(3) [of _ c w2] that(4) [of p wps w1 _ c w2]
        by (cases q) (auto simp: walk_route_def Let_def)
    qed
  qed
qed

lemma walk_misses_cases:
  assumes "walk_misses cx e prov opts req wmt waypoints s = Some r"
  obtains "r = Go s" "cp_miss s = []"
  | err where "r = Failed err s"
  | w where "r = Deadline (s\<lparr>cp_world := w\<rparr>)"
  | w pl where "engine_arcCover e (cx_polls cx (cp_world s)) (length waypoints) (cp_miss s) (engine_maxLegs e) = Some (Inr pl)"
      "run_loop (walk_route cx e prov opts req wmt waypoints) (routes pl)
         (s\<lparr>cp_world := w, cp_stats := (cp_stats s)\<lparr>es_arc_cover_calls := length (routes pl)\<rparr>\<rparr>) = Some r"
proof (cases "cp_miss s = []")
  case True
  then show ?thesis using assms that(1) by (simp add: walk_misses_def)
next
  case False
  then obtain q where q: "engine_arcCover e (cx_polls cx (cp_world s)) (length waypoints) (cp_miss s) (engine_maxLegs e) = Some q"
    using assms by (auto simp: walk_misses_def bind_eq_Some_conv)
  obtain stop w1 where stop: "cx_done cx (cp_world s) = (stop, w1)" by (metis surj_pair)
  show ?thesis
    using assms False q stop that(2,3) that(4) [of _ w1] by (cases q) (auto simp: walk_misses_def Let_def split: if_splits)
qed

lemma fill_entry_cases:
  assumes "fill_entry cx e prov opts strict req wmt wps (i, j) s = Some r"
  obtains w where "r = Deadline (s\<lparr>cp_world := w\<rparr>)"
  | w where "r = Go (s\<lparr>cp_world := w\<rparr>)" "i = j"
  | w st where "r = Go (set_entry i j st (s\<lparr>cp_world := w\<rparr>))" "i \<noteq> j"
      "known_step strict (wps ! i) (wps ! j) (cp_segments s) = Some st"
  | w c err where "r = deadline_or cx err (add_calls c (s\<lparr>cp_world := w\<rparr>))"
  | w w' c st k where "r = Go (set_entry i j st (s\<lparr>cp_world := w', cp_stats := k\<rparr>))" "i \<noteq> j"
      "fillPair e prov opts req (wps ! i) (wps ! j) wmt w = Some (Inr st, c, w')"
proof -
  obtain stop w1 where stop: "cx_done cx (cp_world s) = (stop, w1)" by (metis surj_pair)
  show ?thesis
  proof (cases "stop \<or> i = j")
    case True
    then show ?thesis using assms stop that(1) [of w1] that(2) [of w1] by (cases stop) (auto simp: fill_entry_def Let_def)
  next
    case go: False
    show ?thesis
    proof (cases "known_step strict (wps ! i) (wps ! j) (cp_segments s)")
    case (Some st)
    then show ?thesis using assms stop go that(3) [of st w1] by (auto simp: fill_entry_def Let_def)
  next
    case None
    note False = go None
    then obtain q c w2 where q: "fillPair e prov opts req (wps ! i) (wps ! j) wmt w1 = Some (q, c, w2)"
      using assms stop by (auto simp: fill_entry_def Let_def bind_eq_Some_conv)
    show ?thesis
      using assms stop False q that(4) [of _ c w2] that(5) [of _ _ w2 w1 c]
      by (cases q) (auto simp: fill_entry_def Let_def add_calls_def split: if_splits)
    qed
  qed
qed

lemma fillPair_served:
  assumes "fillPair e prov opts req p d wmt w = Some (Inr st, c, w')"
  shows "served e prov opts req p d (step_value st)"
proof -
  obtain q w1 where q: "lookupEdge e opts p d w = Some (q, w1)"
    using assms by (auto simp: fillPair_def bind_eq_Some_conv)
  obtain a n w2 where a: "RoutePair (prov_Route prov) req p d w1 = ((a, n), w2)" by (metis surj_pair)
  consider cold where "q = Inr (Some (st, cold))" | "a = Inr st"
    using assms q a by (auto simp: fillPair_def bind_eq_Some_conv split: sum.splits option.splits if_splits)
  then show ?thesis using served_lookup [of e opts p d w st] served_pair [of prov req p d w1 st n w2] q a by cases auto
qed

section \<open>The table of segments\<close>

definition segments_ok :: "('e, 'w) engine \<Rightarrow> ('e, 'w) provider \<Rightarrow> lookup_opts \<Rightarrow> route_request \<Rightarrow> (string \<Rightarrow> step option) \<Rightarrow> bool" where
  "segments_ok e prov opts req m \<longleftrightarrow> (\<forall>p d st. m (pairKey p d) = Some st \<longrightarrow> served e prov opts req p d (step_value st))"

text \<open>The probes and walks do not touch the matrices.\<close>

definition before_fill :: "('e, 'w) engine \<Rightarrow> ('e, 'w) provider \<Rightarrow> lookup_opts \<Rightarrow> route_request \<Rightarrow> nat \<Rightarrow> 'w compute_state \<Rightarrow> bool" where
  "before_fill e prov opts req n s \<longleftrightarrow>
     segments_ok e prov opts req (cp_segments s) \<and> cp_distances s = zero_matrix n \<and> cp_durations s = zero_matrix n"

lemma segments_ok_update:
  "segments_ok e prov opts req m \<Longrightarrow> served e prov opts req p d (step_value st) \<Longrightarrow>
   segments_ok e prov opts req (m(pairKey p d \<mapsto> st))"
  unfolding segments_ok_def
proof (intro allI impI)
  fix p' d' st'
  assume ok: "\<forall>p d st. m (pairKey p d) = Some st \<longrightarrow> served e prov opts req p d (step_value st)"
    and st: "served e prov opts req p d (step_value st)"
    and get: "(m(pairKey p d \<mapsto> st)) (pairKey p' d') = Some st'"
  show "served e prov opts req p' d' (step_value st')"
  proof (cases "pairKey p' d' = pairKey p d")
    case True
    with get have "st' = st" by simp
    then show ?thesis using st by (simp add: served_same_key [OF True])
  next
    case False
    with get have "m (pairKey p' d') = Some st'" by simp
    with ok show ?thesis by blast
  qed
qed

lemma segments_ok_get: "segments_ok e prov opts req m \<Longrightarrow> m (pairKey p d) = Some st \<Longrightarrow> served e prov opts req p d (step_value st)"
  unfolding segments_ok_def by blast

lemma probe_pair_before:
  assumes "before_fill e prov opts req n s" "probe_pair cx e opts strict wps ij s = Some r"
  shows "flow_ok (before_fill e prov opts req n) (before_fill e prov opts req n) r"
proof (cases ij)
  case (Pair i j)
  from assms(2) [unfolded Pair] show ?thesis
  proof (cases rule: probe_pair_cases)
    case (5 w w' p d st cold)
    have "segments_ok e prov opts req ((cp_segments s)(pairKey p d \<mapsto> st))"
      by (rule segments_ok_update [OF _ served_lookup [OF 5(2)]]) (use assms(1) in \<open>simp add: before_fill_def\<close>)
    then show ?thesis unfolding 5(1) using assms(1) by (simp add: before_fill_def note_hit_def)
  next
    case 1
    show ?thesis unfolding 1(1) using assms(1) by simp
  next
    case 2
    show ?thesis unfolding 2 using assms(1) by (simp add: before_fill_def)
  next
    case 3
    show ?thesis unfolding 3(1) using assms(1) by (simp add: before_fill_def)
  next
    case 4
    show ?thesis unfolding 4 by simp
  next
    case 6
    show ?thesis unfolding 6(1) using assms(1) by (simp add: before_fill_def note_miss_def)
  qed
qed

lemma record_step_before:
  assumes "before_fill e prov opts req n s" "record_step e prov opts' wmt st s = Some s'"
    and "served e prov opts req (st_origin st) (st_destination st) (step_value st)"
  shows "before_fill e prov opts req n s'"
proof -
  have "cp_segments s' = (cp_segments s)(pairKey (st_origin st) (st_destination st) \<mapsto> st) \<and>
      cp_distances s' = cp_distances s \<and> cp_durations s' = cp_durations s"
    using assms(2) by (auto simp: record_step_def Let_def bind_eq_Some_conv split: if_splits)
  with assms(1) segments_ok_update [OF _ assms(3)] show ?thesis by (simp add: before_fill_def)
qed

lemma record_steps_before:
  assumes "fold_opt (record_step e prov opts' wmt) steps s = Some s'" "before_fill e prov opts req n s"
    and "\<And>st. st \<in> set steps \<Longrightarrow> served e prov opts req (st_origin st) (st_destination st) (step_value st)"
  shows "before_fill e prov opts req n s'"
  using assms
proof (induction steps arbitrary: s)
  case (Cons st steps)
  then obtain s1 where "record_step e prov opts' wmt st s = Some s1" "fold_opt (record_step e prov opts' wmt) steps s1 = Some s'"
    by (auto simp: bind_eq_Some_conv)
  with Cons record_step_before [of e prov opts req n s opts' wmt st s1] show ?case by simp
qed simp

lemma walk_route_before:
  assumes "before_fill e prov opts req n s" "walk_route cx e prov opts' req' wmt waypoints rt s = Some r"
  shows "flow_ok (before_fill e prov opts req n) (before_fill e prov opts req n) r"
  using assms(2)
proof (cases rule: walk_route_cases)
  case (3 err w c)
  then show ?thesis using assms(1) by (auto intro!: flow_ok_deadline_or simp: before_fill_def add_calls_def)
next
  case (4 w w' wps p steps c t)
  have "served e prov opts req (st_origin st) (st_destination st) (step_value st)" if "st \<in> set steps" for st
  proof -
    from RouteWaypoints_steps [OF 4(1) that] obtain rq v v' res where
      "prov_Route prov rq v = (Inr res, v')" "st \<in> set (rr_steps res)" by blast
    then show ?thesis by (rule served_route)
  qed
  from record_steps_before [OF 4(2) _ this] 4(3) assms(1) show ?thesis by (simp add: before_fill_def add_calls_def)
qed (use assms(1) in \<open>auto simp: before_fill_def\<close>)

lemma walk_misses_before:
  assumes "before_fill e prov opts req n s" "walk_misses cx e prov opts' req' wmt waypoints s = Some r"
  shows "flow_ok (before_fill e prov opts req n) (before_fill e prov opts req n) r"
  using assms(2)
proof (cases rule: walk_misses_cases)
  case (4 w pl)
  show ?thesis
  proof (rule run_loop_rule [OF 4(2), where I = "\<lambda>_. before_fill e prov opts req n"])
    show "before_fill e prov opts req n (s\<lparr>cp_world := w, cp_stats := (cp_stats s)\<lparr>es_arc_cover_calls := length (routes pl)\<rparr>\<rparr>)"
      using assms(1) by (simp add: before_fill_def)
  qed (rule walk_route_before)
qed (use assms(1) in \<open>auto simp: before_fill_def\<close>)

section \<open>The matrices\<close>

definition entry :: "real list list \<Rightarrow> real list list \<Rightarrow> nat \<Rightarrow> nat \<Rightarrow> real \<times> real" where
  "entry D T i j = (D ! i ! j, T ! i ! j)"

definition square :: "nat \<Rightarrow> real list list \<Rightarrow> bool" where
  "square n D \<longleftrightarrow> length D = n \<and> (\<forall>r \<in> set D. length r = n)"

lemma square_zero: "square n (zero_matrix n)"
  by (simp add: square_def zero_matrix_def)

lemma square_row: "square n D \<Longrightarrow> i < n \<Longrightarrow> length (D ! i) = n"
  by (simp add: square_def)

lemma square_upd: "square n D \<Longrightarrow> i < n \<Longrightarrow> square n (D[i := (D ! i)[j := x]])"
  using set_update_subset_insert [of D i "(D ! i)[j := x]"] by (fastforce simp: square_def)

lemma entry_upd:
  assumes "square n D" "square n T" "i < n" "j < n" "i' < n" "j' < n"
  shows "entry (D[i := (D ! i)[j := x]]) (T[i := (T ! i)[j := y]]) i' j' = (if i' = i \<and> j' = j then (x, y) else entry D T i' j')"
proof -
  have "length D = n" "length T = n" using assms(1,2) by (simp_all add: square_def)
  then show ?thesis
    using assms(3-) square_row [OF assms(1,3)] square_row [OF assms(2,3)]
    by (cases "i' = i"; cases "j' = j") (simp_all add: entry_def)
qed

text \<open>Numbers for a pair; outside strict mode an answer for the reverse pair is used, too.\<close>

definition answered :: "('e, 'w) engine \<Rightarrow> ('e, 'w) provider \<Rightarrow> lookup_opts \<Rightarrow> route_request \<Rightarrow> bool \<Rightarrow> coord \<Rightarrow> coord \<Rightarrow> real \<times> real \<Rightarrow> bool" where
  "answered e prov opts req strict p d v \<longleftrightarrow> served e prov opts req p d v \<or> \<not> strict \<and> served e prov opts req d p v"

definition filled :: "('e, 'w) engine \<Rightarrow> ('e, 'w) provider \<Rightarrow> lookup_opts \<Rightarrow> route_request \<Rightarrow> bool \<Rightarrow> coord list \<Rightarrow>
    (nat \<times> nat) list \<Rightarrow> 'w compute_state \<Rightarrow> bool" where
  "filled e prov opts req strict wps seen s \<longleftrightarrow>
     segments_ok e prov opts req (cp_segments s) \<and>
     square (length wps) (cp_distances s) \<and> square (length wps) (cp_durations s) \<and>
     (\<forall>i < length wps. \<forall>j < length wps. let v = entry (cp_distances s) (cp_durations s) i j in
        v = (0, 0) \<and> (i = j \<or> (i, j) \<notin> set seen) \<or> i \<noteq> j \<and> answered e prov opts req strict (wps ! i) (wps ! j) v)"

lemma filled_start: "before_fill e prov opts req (length wps) s \<Longrightarrow> filled e prov opts req strict wps [] s"
  using square_zero [of "length wps"] by (auto simp: before_fill_def filled_def entry_def zero_matrix_def)

lemma filled_world:
  "filled e prov opts req strict wps seen (s\<lparr>cp_world := w\<rparr>) = filled e prov opts req strict wps seen s"
  "filled e prov opts req strict wps seen (s\<lparr>cp_world := w, cp_stats := q\<rparr>) = filled e prov opts req strict wps seen s"
  "filled e prov opts req strict wps seen (add_calls c s) = filled e prov opts req strict wps seen s"
  by (simp_all add: filled_def add_calls_def)

lemma filled_less: "filled e prov opts req strict wps (seen @ [x]) s \<Longrightarrow> filled e prov opts req strict wps seen s"
  unfolding filled_def Let_def by auto

lemma filled_diagonal: "filled e prov opts req strict wps seen s \<Longrightarrow> filled e prov opts req strict wps (seen @ [(i, i)]) s"
  unfolding filled_def Let_def by auto

lemma filled_set_entry:
  assumes "filled e prov opts req strict wps seen s" "i < length wps" "j < length wps" "i \<noteq> j"
    and "answered e prov opts req strict (wps ! i) (wps ! j) (step_value st)"
  shows "filled e prov opts req strict wps (seen @ [(i, j)]) (set_entry i j st s)"
proof -
  have sq: "square (length wps) (cp_distances s)" "square (length wps) (cp_durations s)"
    using assms(1) by (simp_all add: filled_def)
  have e: "entry (cp_distances (set_entry i j st s)) (cp_durations (set_entry i j st s)) i' j' =
      (if i' = i \<and> j' = j then step_value st else entry (cp_distances s) (cp_durations s) i' j')"
    if "i' < length wps" "j' < length wps" for i' j'
    using entry_upd [OF sq assms(2,3) that] by (simp add: set_entry_def step_value_def)
  show ?thesis
    unfolding filled_def Let_def
  proof (intro conjI allI impI)
    show "segments_ok e prov opts req (cp_segments (set_entry i j st s))"
      using assms(1) by (simp add: filled_def set_entry_def)
    show "square (length wps) (cp_distances (set_entry i j st s))" "square (length wps) (cp_durations (set_entry i j st s))"
      using sq assms(2) by (simp_all add: set_entry_def square_upd)
    fix i' j' assume "i' < length wps" "j' < length wps"
    then show "entry (cp_distances (set_entry i j st s)) (cp_durations (set_entry i j st s)) i' j' = (0, 0) \<and>
          (i' = j' \<or> (i', j') \<notin> set (seen @ [(i, j)])) \<or>
        i' \<noteq> j' \<and> answered e prov opts req strict (wps ! i') (wps ! j')
          (entry (cp_distances (set_entry i j st s)) (cp_durations (set_entry i j st s)) i' j')"
      using assms(1,4,5) e by (auto simp: filled_def Let_def)
  qed
qed

lemma known_step_answered:
  assumes "segments_ok e prov opts req m" "known_step strict p d m = Some st"
  shows "answered e prov opts req strict p d (step_value st)"
  using assms(2) segments_ok_get [OF assms(1)]
  by (auto simp: known_step_def answered_def split: option.splits if_splits)

lemma fill_entry_filled:
  assumes "filled e prov opts req strict wps seen s" "i < length wps" "j < length wps"
    and "fill_entry cx e prov opts strict req wmt wps (i, j) s = Some r"
  shows "flow_ok (filled e prov opts req strict wps (seen @ [(i, j)])) (filled e prov opts req strict wps []) r"
proof -
  have some: "filled e prov opts req strict wps [] s"
    using assms(1) unfolding filled_def Let_def by auto
  from assms(4) show ?thesis
  proof (cases rule: fill_entry_cases)
    case 1
    show ?thesis unfolding 1 using some by (simp add: filled_world)
  next
    case 2
    show ?thesis unfolding 2(1) using filled_diagonal [OF assms(1)] by (simp add: filled_world 2(2))
  next
    case (3 w st)
    have "answered e prov opts req strict (wps ! i) (wps ! j) (step_value st)"
      by (rule known_step_answered [OF _ 3(3)]) (use assms(1) in \<open>simp add: filled_def\<close>)
    from filled_set_entry [OF _ assms(2,3) 3(2) this, of seen "s\<lparr>cp_world := w\<rparr>"] show ?thesis
      unfolding 3(1) using assms(1) by (simp add: filled_world)
  next
    case (4 w c err)
    show ?thesis unfolding 4 using some by (intro flow_ok_deadline_or) (simp add: filled_world)
  next
    case (5 w w' c st k)
    have "answered e prov opts req strict (wps ! i) (wps ! j) (step_value st)"
      using fillPair_served [OF 5(3)] by (simp add: answered_def)
    from filled_set_entry [OF _ assms(2,3) 5(2) this, of seen "s\<lparr>cp_world := w', cp_stats := k\<rparr>"] show ?thesis
      unfolding 5(1) using assms(1) by (simp add: filled_world)
  qed
qed

section \<open>The phases together\<close>

lemma index_pairs_range: "(i, j) \<in> set (index_pairs n) \<longleftrightarrow> i < n \<and> j < n"
  by (simp add: index_pairs_def)

lemma compute_phases_filled:
  assumes "before_fill e prov opts req (length wps) s" "compute_phases cx e prov opts strict req wmt wps s = Some r"
  shows "flow_ok (filled e prov opts req strict wps (index_pairs (length wps))) (filled e prov opts req strict wps []) r"
proof -
  let ?B = "before_fill e prov opts req (length wps)"
    and ?F = "\<lambda>seen. filled e prov opts req strict wps seen"
  have weak: "flow_ok I (?F []) q" if "flow_ok ?B ?B q" "\<nexists>t. q = Go t" for q I
    using that filled_start by (cases q) auto
  obtain r1 where r1: "run_loop (probe_pair cx e opts strict wps) (index_pairs (length wps)) s = Some r1"
    using assms(2) by (auto simp: compute_phases_def bind_eq_Some_conv)
  have b1: "flow_ok ?B ?B r1"
    by (rule run_loop_rule [OF r1, where I = "\<lambda>_. ?B"]) (use assms(1) probe_pair_before in auto)
  show ?thesis
  proof (cases r1)
    case (Go s1)
    obtain r2 where r2: "walk_misses cx e prov opts req wmt wps s1 = Some r2"
      using assms(2) r1 Go by (auto simp: compute_phases_def bind_eq_Some_conv)
    have b2: "flow_ok ?B ?B r2" by (rule walk_misses_before [OF _ r2]) (use b1 Go in simp)
    show ?thesis
    proof (cases r2)
      case Go2: (Go s2)
      have r: "run_loop (fill_entry cx e prov opts strict req wmt wps) (index_pairs (length wps)) s2 = Some r"
        using assms(2) r1 Go r2 Go2 by (simp add: compute_phases_def)
      show ?thesis
      proof (rule run_loop_rule [OF r])
        show "?F [] s2" by (rule filled_start) (use b2 Go2 in simp)
        fix ys x zs t r'
        assume xs: "index_pairs (length wps) = ys @ x # zs" and t: "?F ys t"
          and r': "fill_entry cx e prov opts strict req wmt wps x t = Some r'"
        obtain i j where x: "x = (i, j)" by (cases x)
        have "(i, j) \<in> set (index_pairs (length wps))" using xs x by simp
        then have "i < length wps" "j < length wps" by (simp_all add: index_pairs_range)
        from fill_entry_filled [OF t this r' [unfolded x]] show "flow_ok (?F (ys @ [x])) (?F []) r'" by (simp only: x)
      qed
    qed (use assms(2) r1 Go r2 weak [OF b2] in \<open>auto simp: compute_phases_def\<close>)
  qed (use assms(2) r1 weak [OF b1] in \<open>auto simp: compute_phases_def\<close>)
qed

text \<open>Everything \<open>Compute\<close> returns with a matrix comes from the three phases.\<close>

lemma Compute_Some:
  assumes "Compute cx e rq w = Some ((Some mx, err), w')"
  obtains prov wps r wmt where "registry_Get (mr_provider rq) (en_registry e) = Some prov"
    "CoordConvertToGCJ02 (cx_f32 cx) (toSlice (mr_points rq)) (mr_coordinate rq) = Some wps"
    "length wps = length (mr_points rq)"
    "compute_phases cx e prov (compute_opts rq) (mr_strict rq) (compute_route_request rq) wmt wps (start_state (length wps) w) = Some r"
    "finish r = ((Some mx, err), w')"
proof -
  have "\<forall>v \<in> set (toSlice (mr_points rq)). 2 \<le> length v" by (simp add: toSlice_def)
  from CoordConvert_length [OF this, of "cx_f32 cx" "mr_coordinate rq"] obtain wps where
    wps: "CoordConvertToGCJ02 (cx_f32 cx) (toSlice (mr_points rq)) (mr_coordinate rq) = Some wps" "length wps = length (mr_points rq)"
    by (auto simp: toSlice_def)
  have "\<not> (en_max_points e > 0 \<and> int (length (mr_points rq)) > en_max_points e)" "\<not> length (mr_points rq) < 2"
    using assms by (auto simp: Compute_def split: if_splits)
  note run = assms [unfolded Compute_def if_not_P [OF this(1)] if_not_P [OF this(2)] wps(1) Let_def Option.bind.simps]
  obtain prov where prov: "registry_Get (mr_provider rq) (en_registry e) = Some prov"
    using run by (cases "registry_Get (mr_provider rq) (en_registry e)") auto
  show thesis using run that [OF prov wps] unfolding prov by (auto split: if_splits)
qed

lemma Compute_entries_answered:
  assumes "Compute cx e rq w = Some ((Some mx, err), w')"
  obtains prov wps where "registry_Get (mr_provider rq) (en_registry e) = Some prov"
    "CoordConvertToGCJ02 (cx_f32 cx) (toSlice (mr_points rq)) (mr_coordinate rq) = Some wps" "length wps = length (mr_points rq)"
    "square (length wps) (mx_distances mx)" "square (length wps) (mx_durations mx)" "err = None \<or> err = Some MatrixDeadline"
    "\<And>i j. i < length wps \<Longrightarrow> j < length wps \<Longrightarrow>
       entry (mx_distances mx) (mx_durations mx) i j = (0, 0) \<and> (i = j \<or> err \<noteq> None) \<or>
       i \<noteq> j \<and> answered e prov (compute_opts rq) (compute_route_request rq) (mr_strict rq) (wps ! i) (wps ! j)
         (entry (mx_distances mx) (mx_durations mx) i j)"
proof -
  obtain prov wps r wmt where
    c: "registry_Get (mr_provider rq) (en_registry e) = Some prov"
      "CoordConvertToGCJ02 (cx_f32 cx) (toSlice (mr_points rq)) (mr_coordinate rq) = Some wps" "length wps = length (mr_points rq)"
    and ph: "compute_phases cx e prov (compute_opts rq) (mr_strict rq) (compute_route_request rq) wmt wps (start_state (length wps) w) = Some r"
    and fin: "finish r = ((Some mx, err), w')" by (rule Compute_Some [OF assms])
  let ?ok = "\<lambda>seen. filled e prov (compute_opts rq) (compute_route_request rq) (mr_strict rq) wps seen"
  have "before_fill e prov (compute_opts rq) (compute_route_request rq) (length wps) (start_state (length wps) w)"
    by (simp add: before_fill_def start_state_def segments_ok_def)
  from compute_phases_filled [OF this ph] have ok: "flow_ok (?ok (index_pairs (length wps))) (?ok []) r" .
  obtain s where s: "mx_distances mx = cp_distances s" "mx_durations mx = cp_durations s"
    "err = None \<and> ?ok (index_pairs (length wps)) s \<or> err = Some MatrixDeadline \<and> ?ok [] s"
    using fin ok by (cases r) (auto simp: finish_def packResult_def Let_def)
  show thesis
  proof (rule that [OF c])
    show "square (length wps) (mx_distances mx)" "square (length wps) (mx_durations mx)" "err = None \<or> err = Some MatrixDeadline"
      using s by (auto simp: filled_def)
    fix i j assume ij: "i < length wps" "j < length wps"
    then show "entry (mx_distances mx) (mx_durations mx) i j = (0, 0) \<and> (i = j \<or> err \<noteq> None) \<or>
       i \<noteq> j \<and> answered e prov (compute_opts rq) (compute_route_request rq) (mr_strict rq) (wps ! i) (wps ! j)
         (entry (mx_distances mx) (mx_durations mx) i j)"
      using s index_pairs_range [of i j "length wps"] unfolding filled_def Let_def by auto
  qed
qed

end
