(* ===== verification/Key_Attempts.thy ===== *)
theory Key_Attempts
  imports Matrix_Prelude
begin

text \<open>
  The retry loop over keys that \<open>AmapProvider.Route\<close> (\<open>internal/provider/amap.go\<close>) runs against
  its key pool, over the operations of a key source: the next key, a request with a key, and the
  two reports. The loop ends because each round adds a key to \<open>tried\<close>. What it promises follows
  from the contract of a key source alone, a locale that the key pool interprets later.
\<close>

section \<open>The loop\<close>

text \<open>
  \<open>tried\<close> is a Go map used as a set; its keys are kept in a list without repetitions. An empty
  key is the failed type assertion on the \<open>nil\<close> that the pool returns when no key is eligible.
\<close>

function try_keys :: "('s \<Rightarrow> string \<times> 's) \<Rightarrow> (string \<Rightarrow> 's \<Rightarrow> ('e + 'r) \<times> 's) \<Rightarrow> (string \<Rightarrow> 's \<Rightarrow> 's) \<Rightarrow>
    (string \<Rightarrow> 's \<Rightarrow> 's) \<Rightarrow> nat \<Rightarrow> string list \<Rightarrow> 's \<Rightarrow> 'r option \<times> 's" where
  "try_keys nxt request good bad attempts tried s =
     (if length tried < attempts
      then let (key, s1) = nxt s in
        if key = '''' then (None, s1)
        else if key \<in> set tried then (None, s1)
        else (case request key s1 of
                (Inr res, s2) \<Rightarrow> (Some res, good key s2)
              | (Inl e, s2) \<Rightarrow> try_keys nxt request good bad attempts (key # tried) (bad key s2))
      else (None, s))"
  by pat_completeness auto
termination by (relation "measure (\<lambda>(nxt, request, good, bad, attempts, tried, s). attempts - length tried)") auto

declare try_keys.simps [simp del]

text \<open>A result of the loop is a result of some request.\<close>

lemma try_keys_result:
  assumes "\<And>k s r s'. request k s = (Inr r, s') \<Longrightarrow> P r"
  shows "fst (try_keys nxt request good bad n tried s) = Some r \<Longrightarrow> P r"
proof (induction "n - length tried" arbitrary: tried s rule: less_induct)
  case less
  obtain k s1 out s2 where step: "nxt s = (k, s1)" "request k s1 = (out, s2)" by (metis surj_pair)
  from less.prems have n: "length tried < n"
    by (subst (asm) try_keys.simps) (auto split: if_splits)
  have "fst (try_keys nxt request good bad n (k # tried) (bad k s2)) = Some r \<Longrightarrow> P r"
    using less.hyps [of "k # tried"] n by simp
  with less.prems step assms show ?case
    by (subst (asm) try_keys.simps) (auto split: if_splits sum.splits)
qed

text \<open>An invariant \<open>I\<close> of the rounds that fail, and what a success makes of it.\<close>

lemma try_keys_rule:
  assumes "I s" and nxt: "\<And>s. I s \<Longrightarrow> I (snd (nxt s))"
    and fail: "\<And>k s e s'. I s \<Longrightarrow> request k s = (Inl e, s') \<Longrightarrow> I (bad k s')"
    and good: "\<And>k s r s'. I s \<Longrightarrow> request k s = (Inr r, s') \<Longrightarrow> J (good k s')"
  shows "case try_keys nxt request good bad n tried s of (None, s') \<Rightarrow> I s' | (Some r, s') \<Rightarrow> J s'"
  using assms(1)
proof (induction "n - length tried" arbitrary: tried s rule: less_induct)
  case less
  obtain k s1 out s2 where step: "nxt s = (k, s1)" "request k s1 = (out, s2)" by (metis surj_pair)
  have s1: "I s1" using nxt [OF less.prems] step(1) by simp
  show ?case
  proof (cases "length tried < n \<and> k \<noteq> '''' \<and> k \<notin> set tried")
    case False
    then show ?thesis using step(1) s1 less.prems by (subst try_keys.simps) auto
  next
    case True
    show ?thesis
    proof (cases out)
      case (Inr r)
      then show ?thesis using True step good [OF s1] by (subst try_keys.simps) simp
    next
      case (Inl e)
      have "case try_keys nxt request good bad n (k # tried) (bad k s2) of (None, s') \<Rightarrow> I s' | (Some r, s') \<Rightarrow> J s'"
        by (rule less.hyps) (use True fail [OF s1] step(2) Inl in auto)
      then show ?thesis using True step Inl by (subst try_keys.simps) simp
    qed
  qed
qed

section \<open>Key sources\<close>

locale key_source =
  fixes nxt :: "'s \<Rightarrow> string \<times> 's"
    and request :: "string \<Rightarrow> 's \<Rightarrow> ('e + 'r) \<times> 's"
    and good :: "string \<Rightarrow> 's \<Rightarrow> 's"
    and bad :: "string \<Rightarrow> 's \<Rightarrow> 's"
    and keys :: "'s \<Rightarrow> string set"
    and log :: "'s \<Rightarrow> string list"
    and ok :: "'s \<Rightarrow> bool"
  assumes nxt_ok: "ok s \<Longrightarrow> ok (snd (nxt s)) \<and> keys (snd (nxt s)) = keys s \<and> log (snd (nxt s)) = log s"
    and nxt_key: "ok s \<Longrightarrow> fst (nxt s) \<noteq> '''' \<Longrightarrow> fst (nxt s) \<in> keys s"
    and request_ok: "ok s \<Longrightarrow> ok (snd (request k s)) \<and> keys (snd (request k s)) = keys s \<and> log (snd (request k s)) = log s @ [k]"
    and good_ok: "ok s \<Longrightarrow> ok (good k s) \<and> keys (good k s) = keys s \<and> log (good k s) = log s"
    and bad_ok: "ok s \<Longrightarrow> ok (bad k s) \<and> keys (bad k s) = keys s \<and> log (bad k s) = log s"
begin

abbreviation attempt :: "nat \<Rightarrow> string list \<Rightarrow> 's \<Rightarrow> 'r option \<times> 's" where
  "attempt \<equiv> try_keys nxt request good bad"

lemma attempt_unfold:
  assumes "nxt s = (k, s1)"
  shows "attempt n tried s =
    (if length tried < n \<and> k \<noteq> '''' \<and> k \<notin> set tried
     then (case request k s1 of (Inr res, s2) \<Rightarrow> (Some res, good k s2) | (Inl e, s2) \<Rightarrow> attempt n (k # tried) (bad k s2))
     else (None, if length tried < n then s1 else s))"
  by (subst try_keys.simps) (simp add: assms)

text \<open>What one run of the loop has done, seen from the state it started in.\<close>

definition attempts_done :: "nat \<Rightarrow> string list \<Rightarrow> 's \<Rightarrow> string list \<Rightarrow> 'r option \<times> 's \<Rightarrow> bool" where
  "attempts_done n tried s ks out \<longleftrightarrow> log (snd out) = log s @ ks \<and> distinct ks \<and> set ks \<inter> set tried = {} \<and>
     set ks \<subseteq> keys s \<and> length ks + length tried \<le> max n (length tried) \<and>
     ok (snd out) \<and> keys (snd out) = keys s \<and> (fst out \<noteq> None \<longrightarrow> ks \<noteq> [])"

lemma attempt_trace: "ok s \<Longrightarrow> \<exists>ks. attempts_done n tried s ks (attempt n tried s)"
proof (induction "n - length tried" arbitrary: tried s rule: less_induct)
  case less
  obtain k s1 where nx: "nxt s = (k, s1)" by force
  have s1: "ok s1" "keys s1 = keys s" "log s1 = log s" using nxt_ok [OF less.prems] nx by simp_all
  show ?case
  proof (cases "length tried < n \<and> k \<noteq> '''' \<and> k \<notin> set tried")
    case False
    then have "attempt n tried s = (None, if length tried < n then s1 else s)"
      unfolding attempt_unfold [OF nx] by presburger
    then have "attempts_done n tried s [] (attempt n tried s)"
      using s1 less.prems by (simp add: attempts_done_def)
    then show ?thesis ..
  next
    case True
    then have k: "length tried < n" "k \<noteq> ''''" "k \<notin> set tried" "k \<in> keys s"
      using nxt_key [OF less.prems] nx by simp_all
    obtain out s2 where rq: "request k s1 = (out, s2)" by force
    have s2: "ok s2" "keys s2 = keys s" "log s2 = log s @ [k]" using request_ok [OF s1(1), of k] rq s1 by simp_all
    show ?thesis
    proof (cases out)
      case (Inr res)
      have run: "attempt n tried s = (Some res, good k s2)"
        using k Inr rq by (simp add: attempt_unfold [OF nx])
      have "attempts_done n tried s [k] (attempt n tried s)"
        unfolding run using good_ok [OF s2(1), of k] s2 k by (simp add: attempts_done_def)
      then show ?thesis ..
    next
      case (Inl e)
      have run: "attempt n tried s = attempt n (k # tried) (bad k s2)"
        using k Inl rq by (simp add: attempt_unfold [OF nx])
      have b: "ok (bad k s2)" "keys (bad k s2) = keys s" "log (bad k s2) = log s @ [k]"
        using bad_ok [OF s2(1), of k] s2 by simp_all
      obtain ks where "attempts_done n (k # tried) (bad k s2) ks (attempt n (k # tried) (bad k s2))"
        using less.hyps [of "k # tried", OF _ b(1)] k(1) by fastforce
      then have "attempts_done n tried s (k # ks) (attempt n tried s)"
        unfolding run using b k by (auto simp: attempts_done_def)
      then show ?thesis ..
    qed
  qed
qed

text \<open>When some key of the source works and the loop gives up, that key was not requested.\<close>

lemma working_key_missed:
  assumes "\<And>s. ok s \<Longrightarrow> isl (fst (request k s)) = False" "ok s"
    and "fst (attempt n tried s) = None" "attempts_done n tried s ks (attempt n tried s)"
  shows "k \<notin> set ks"
  using assms(2-)
proof (induction "n - length tried" arbitrary: tried s ks rule: less_induct)
  case less
  obtain k' s1 where nx: "nxt s = (k', s1)" by force
  have s1: "ok s1" "log s1 = log s" using nxt_ok [OF less.prems(1)] nx by simp_all
  show ?case
  proof (cases "length tried < n \<and> k' \<noteq> '''' \<and> k' \<notin> set tried")
    case False
    then have "attempt n tried s = (None, if length tried < n then s1 else s)"
      unfolding attempt_unfold [OF nx] by presburger
    then show ?thesis using less.prems(3) s1 by (simp add: attempts_done_def split: if_splits)
  next
    case True
    obtain out s2 where rq: "request k' s1 = (out, s2)" by force
    have s2: "ok s2" "log s2 = log s @ [k']" using request_ok [OF s1(1), of k'] rq s1 by simp_all
    show ?thesis
    proof (cases out)
      case (Inr res)
      then have "attempt n tried s = (Some res, good k' s2)"
        using True rq by (simp add: attempt_unfold [OF nx])
      with less.prems(2) show ?thesis by simp
    next
      case (Inl e)
      have run: "attempt n tried s = attempt n (k' # tried) (bad k' s2)"
        using True Inl rq by (simp add: attempt_unfold [OF nx])
      have "k' \<noteq> k" using assms(1) [OF s1(1)] rq Inl by auto
      have b: "ok (bad k' s2)" "log (bad k' s2) = log s @ [k']" using bad_ok [OF s2(1), of k'] s2 by simp_all
      obtain ks' where ks': "attempts_done n (k' # tried) (bad k' s2) ks' (attempt n (k' # tried) (bad k' s2))"
        using attempt_trace [OF b(1)] by blast
      then have "k \<notin> set ks'" using less.hyps [of "k' # tried"] True b(1) less.prems(2) run by auto
      moreover have "ks = k' # ks'" using ks' less.prems(3) b run by (simp add: attempts_done_def)
      ultimately show ?thesis using \<open>k' \<noteq> k\<close> by simp
    qed
  qed
qed

end

end
