(* ===== verification/Key_Pool.thy ===== *)
theory Key_Pool
  imports Matrix_Prelude
begin

text \<open>
  The key pool of \<open>internal/loadbalance\<close> (\<open>config.go\<close>, \<open>loadbalance.go\<close>): outcome counters with
  exponential decay, the selection rate, and smooth weighted round-robin over the keys.
  \<open>float64\<close> values are reals (no rounding), \<open>time.Time\<close> is a number of nanoseconds with
  \<open>None\<close> for the zero time, \<open>time.Duration\<close> an integer number of nanoseconds. The clock
  reading \<open>p.now()\<close> is an argument. The pointers the map \<open>byKey\<close> shares with the slice
  \<open>items\<close> are indices into that slice. The mutex makes each method one step.
\<close>

section \<open>Configuration\<close>

record scheduler_config =
  prior_success_rate :: real
  min_probe_rate :: real
  beta_prior_a :: real
  beta_prior_b :: real
  confidence_tau :: real
  failure_soft_weight :: real
  probe_failure_scale :: real
  epsilon_scale :: real
  use_beta :: bool
  probe_only_hard_fail :: bool
  multi_key_epsilon :: bool

definition DefaultSchedulerConfig :: scheduler_config where
  "DefaultSchedulerConfig = \<lparr>prior_success_rate = 1, min_probe_rate = 0.02, beta_prior_a = 2,
     beta_prior_b = 1, confidence_tau = 2, failure_soft_weight = 0.3, probe_failure_scale = 5,
     epsilon_scale = 4, use_beta = True, probe_only_hard_fail = True, multi_key_epsilon = False\<rparr>"

definition LegacyMinProbePreset :: scheduler_config where
  "LegacyMinProbePreset = \<lparr>prior_success_rate = 1, min_probe_rate = 0.33, beta_prior_a = 1,
     beta_prior_b = 1, confidence_tau = 0.5, failure_soft_weight = 1, probe_failure_scale = 5,
     epsilon_scale = 1, use_beta = False, probe_only_hard_fail = False, multi_key_epsilon = True\<rparr>"

definition ZeroedPreset :: scheduler_config where
  "ZeroedPreset = DefaultSchedulerConfig\<lparr>probe_only_hard_fail := True, min_probe_rate := 0,
     multi_key_epsilon := False\<rparr>"

definition posteriorRho :: "scheduler_config \<Rightarrow> real \<Rightarrow> real \<Rightarrow> real \<Rightarrow> real" where
  "posteriorRho c s soft hard =
     (let f = soft + hard in
      if \<not> use_beta c then (if s + f \<le> 0 then prior_success_rate c else s / (s + f))
      else (s + beta_prior_a c) / (s + f + beta_prior_a c + beta_prior_b c))"

definition weightedSampleMass :: "scheduler_config \<Rightarrow> real \<Rightarrow> real \<Rightarrow> real \<Rightarrow> real" where
  "weightedSampleMass c s soft hard = s + failure_soft_weight c * (soft + hard)"

definition poolSafetyFactor :: "scheduler_config \<Rightarrow> nat \<Rightarrow> real" where
  "poolSafetyFactor c nItems =
     (if nItems \<le> 0 then 0
      else let k = (if epsilon_scale c \<le> 0 then 4 else epsilon_scale c);
               eps = exp (- real nItems / k)
           in if \<not> multi_key_epsilon c \<and> nItems > 1 then 0 else eps)"

section \<open>The pool\<close>

definition second :: int where "second = 10 ^ 9"

definition seconds :: "int \<Rightarrow> real" where "seconds d = real_of_int d / 10 ^ 9"

definition max_duration :: int where "max_duration = 2 ^ 63 - 1"

record 'k pool_item =
  pi_item :: 'k
  base_weight :: int
  successes :: real
  failures_soft :: real
  failures_hard :: real
  last_event_at :: "int option"
  last_outcome_at :: "int option"
  current_weight :: int
  effective_weight :: int

record 'k pool =
  pl_cfg :: scheduler_config
  recovery_half_life :: int
  probe_base_interval :: int
  pl_items :: "'k pool_item list"
  pl_by_key :: "'k \<Rightarrow> nat option"

definition NewPoolWithConfig :: "int \<Rightarrow> int \<Rightarrow> scheduler_config \<Rightarrow> 'k pool" where
  "NewPoolWithConfig recoveryHalfLife probeBaseInterval cfg =
     \<lparr>pl_cfg = cfg,
      recovery_half_life = (if recoveryHalfLife \<le> 0 then 5 * 60 * second else recoveryHalfLife),
      probe_base_interval = (if probeBaseInterval < 0 then 30 * second else probeBaseInterval),
      pl_items = [], pl_by_key = (\<lambda>_. None)\<rparr>"

definition NewPool :: "int \<Rightarrow> int \<Rightarrow> 'k pool" where
  "NewPool recoveryHalfLife probeBaseInterval =
     NewPoolWithConfig recoveryHalfLife probeBaseInterval DefaultSchedulerConfig"

definition pool_Add :: "'k \<Rightarrow> int \<Rightarrow> 'k pool \<Rightarrow> 'k pool" where
  "pool_Add item weight p =
     (let w = (if weight \<le> 0 then 1 else weight);
          s = \<lparr>pi_item = item, base_weight = w, successes = 0, failures_soft = 0, failures_hard = 0,
               last_event_at = None, last_outcome_at = None, current_weight = 0, effective_weight = 0\<rparr>
      in p\<lparr>pl_items := pl_items p @ [s], pl_by_key := (pl_by_key p)(item \<mapsto> length (pl_items p))\<rparr>)"

definition pool_RemoveAll :: "'k pool \<Rightarrow> 'k pool" where
  "pool_RemoveAll p = p\<lparr>pl_items := [], pl_by_key := (\<lambda>_. None)\<rparr>"

definition pool_Len :: "'k pool \<Rightarrow> nat" where
  "pool_Len p = length (pl_items p)"

definition pool_All :: "'k pool \<Rightarrow> 'k \<Rightarrow> int option" where
  "pool_All p = fold (\<lambda>s m. m(pi_item s \<mapsto> base_weight s)) (pl_items p) (\<lambda>_. None)"

definition applyDecay :: "int \<Rightarrow> int \<Rightarrow> 'k pool_item \<Rightarrow> 'k pool_item" where
  "applyDecay halfLife now s =
     (case last_event_at s of
        None \<Rightarrow> s
      | Some t \<Rightarrow>
          let elapsed = now - t in
          if elapsed \<le> 0 then s
          else let d = exp (- ln 2 * seconds elapsed / seconds halfLife)
               in s\<lparr>successes := max 0 (successes s * d), failures_soft := max 0 (failures_soft s * d),
                    failures_hard := max 0 (failures_hard s * d), last_event_at := Some now\<rparr>)"

definition pool_upd :: "nat \<Rightarrow> ('k pool_item \<Rightarrow> 'k pool_item) \<Rightarrow> 'k pool \<Rightarrow> 'k pool" where
  "pool_upd i f p = p\<lparr>pl_items := (pl_items p)[i := f (pl_items p ! i)]\<rparr>"

definition note_success :: "int \<Rightarrow> int \<Rightarrow> 'k pool_item \<Rightarrow> 'k pool_item" where
  "note_success halfLife now s0 =
     (let s = applyDecay halfLife now s0
      in s\<lparr>successes := successes s + 1, last_event_at := Some now, last_outcome_at := Some now\<rparr>)"

definition note_failure :: "int \<Rightarrow> int \<Rightarrow> 'k pool_item \<Rightarrow> 'k pool_item" where
  "note_failure halfLife now s0 =
     (let s = applyDecay halfLife now s0;
          s1 = (if successes s > 1 / 10 ^ 9 then s\<lparr>failures_soft := failures_soft s + 1\<rparr>
                else s\<lparr>failures_hard := failures_hard s + 1\<rparr>)
      in s1\<lparr>last_event_at := Some now, last_outcome_at := Some now\<rparr>)"

definition RecordSuccess :: "int \<Rightarrow> 'k \<Rightarrow> 'k pool \<Rightarrow> 'k pool" where
  "RecordSuccess now item p =
     (case pl_by_key p item of
        None \<Rightarrow> p
      | Some i \<Rightarrow> pool_upd i (note_success (recovery_half_life p) now) p)"

definition RecordFailure :: "int \<Rightarrow> 'k \<Rightarrow> 'k pool \<Rightarrow> 'k pool" where
  "RecordFailure now item p =
     (case pl_by_key p item of
        None \<Rightarrow> p
      | Some i \<Rightarrow> pool_upd i (note_failure (recovery_half_life p) now) p)"

section \<open>The selection rate\<close>

definition probeGate :: "int \<Rightarrow> real \<Rightarrow> int \<Rightarrow> real \<Rightarrow> real" where
  "probeGate sinceSelect0 backoffFailures probeBase phi0 =
     (if probeBase \<le> 0 then 1
      else let sinceSelect = (if sinceSelect0 < 0 then 0 else sinceSelect0);
               phi = (if phi0 \<le> 0 then 5 else phi0);
               intervalSec = seconds probeBase * exp (backoffFailures / phi)
           in if intervalSec \<le> 0 then 1 else 1 - exp (- seconds sinceSelect / intervalSec))"

definition sinceLastOutcome :: "'k pool_item \<Rightarrow> int \<Rightarrow> int" where
  "sinceLastOutcome s now = (case last_outcome_at s of None \<Rightarrow> max_duration | Some t \<Rightarrow> now - t)"

definition effectiveRate :: "'k pool \<Rightarrow> 'k pool_item \<Rightarrow> int \<Rightarrow> nat \<Rightarrow> real" where
  "effectiveRate p s sinceSelect nItems =
     (let cfg = pl_cfg p;
          rho = posteriorRho cfg (successes s) (failures_soft s) (failures_hard s);
          nEff = weightedSampleMass cfg (successes s) (failures_soft s) (failures_hard s);
          tau = (if confidence_tau cfg \<le> 0 then 2 else confidence_tau cfg);
          alpha = 1 - exp (- nEff / tau);
          shrink = (1 - alpha) * prior_success_rate cfg + alpha * rho;
          fb = failures_hard s + failure_soft_weight cfg * failures_soft s;
          gate = probeGate sinceSelect fb (probe_base_interval p) (probe_failure_scale cfg);
          gPrime = gate + (1 - gate) * poolSafetyFactor cfg nItems
      in if probe_only_hard_fail cfg \<and> successes s \<le> 1 / 10 ^ 9 \<and> failures_hard s \<ge> 1
         then if gPrime \<le> 0 \<or> min_probe_rate cfg \<le> 0 then 0
              else min_probe_rate cfg * gPrime * (1 - shrink)
         else shrink + min_probe_rate cfg * gPrime * (1 - shrink))"

text \<open>\<open>math.Round\<close> rounds half away from zero.\<close>

definition go_round :: "real \<Rightarrow> int" where
  "go_round x = (if x \<ge> 0 then \<lfloor>x + 1 / 2\<rfloor> else \<lceil>x - 1 / 2\<rceil>)"

definition selectionWeight :: "'k pool \<Rightarrow> int \<Rightarrow> 'k pool_item \<Rightarrow> int" where
  "selectionWeight p now s =
     (let rate = effectiveRate p s (sinceLastOutcome s now) (length (pl_items p))
      in go_round (real_of_int (base_weight s) * rate * 1000))"

section \<open>Smooth weighted round-robin\<close>

definition wrr_visit :: "nat \<Rightarrow> nat option \<times> int \<times> 'k pool_item list \<Rightarrow> nat option \<times> int \<times> 'k pool_item list" where
  "wrr_visit i = (\<lambda>(best, weights, items).
     let s = items ! i in
     if effective_weight s \<le> 0 then (best, weights, items)
     else let s' = s\<lparr>current_weight := current_weight s + effective_weight s\<rparr>;
              items' = items[i := s'];
              best' = (case best of
                         None \<Rightarrow> Some i
                       | Some b \<Rightarrow> if current_weight s' > current_weight (items' ! b) then Some i else best)
          in (best', weights + effective_weight s, items'))"

definition nextSmoothWeighted :: "'k pool_item list \<Rightarrow> nat option \<times> 'k pool_item list" where
  "nextSmoothWeighted items =
     (case fold wrr_visit [0..<length items] (None, 0, items) of
        (None, weights, items') \<Rightarrow> (None, items')
      | (Some b, weights, items') \<Rightarrow>
          (Some b, items'[b := (items' ! b)\<lparr>current_weight := current_weight (items' ! b) - weights\<rparr>]))"

definition refresh_weight :: "'k pool \<Rightarrow> int \<Rightarrow> 'k pool_item \<Rightarrow> 'k pool_item" where
  "refresh_weight p now s0 =
     (let s = applyDecay (recovery_half_life p) now s0 in s\<lparr>effective_weight := selectionWeight p now s\<rparr>)"

definition pool_Next :: "int \<Rightarrow> 'k pool \<Rightarrow> 'k option \<times> 'k pool" where
  "pool_Next now p =
     (if length (pl_items p) = 0 then (None, p)
      else let items = map (refresh_weight p now) (pl_items p)
           in case nextSmoothWeighted items of
                (None, items') \<Rightarrow> (None, p\<lparr>pl_items := items'\<rparr>)
              | (Some b, items') \<Rightarrow> (Some (pi_item (items' ! b)), p\<lparr>pl_items := items'\<rparr>))"

definition ActiveItems :: "int \<Rightarrow> 'k pool \<Rightarrow> 'k list \<times> 'k pool" where
  "ActiveItems now p =
     (let items = map (applyDecay (recovery_half_life p) now) (pl_items p)
      in (map pi_item (filter (\<lambda>s. selectionWeight p now s > 0) items), p\<lparr>pl_items := items\<rparr>))"

definition pool_Reset :: "'k pool \<Rightarrow> 'k pool" where
  "pool_Reset p = p\<lparr>pl_items := map (\<lambda>s. s\<lparr>successes := 0, failures_soft := 0, failures_hard := 0,
     current_weight := 0, last_event_at := None, last_outcome_at := None\<rparr>) (pl_items p)\<rparr>"

definition SuccessRate :: "'k \<Rightarrow> 'k pool \<Rightarrow> real" where
  "SuccessRate item p =
     (case pl_by_key p item of
        None \<Rightarrow> 0
      | Some i \<Rightarrow> let s = pl_items p ! i
                  in posteriorRho (pl_cfg p) (successes s) (failures_soft s) (failures_hard s))"

definition EffectiveRate :: "int \<Rightarrow> 'k \<Rightarrow> 'k pool \<Rightarrow> real \<times> 'k pool" where
  "EffectiveRate now item p =
     (case pl_by_key p item of
        None \<Rightarrow> (0, p)
      | Some i \<Rightarrow> let s = applyDecay (recovery_half_life p) now (pl_items p ! i)
                  in (effectiveRate p s (sinceLastOutcome s now) (length (pl_items p)),
                      p\<lparr>pl_items := (pl_items p)[i := s]\<rparr>))"

definition EffectiveRateAfter :: "int \<Rightarrow> 'k \<Rightarrow> int \<Rightarrow> 'k pool \<Rightarrow> real \<times> 'k pool" where
  "EffectiveRateAfter now item sinceSelect p =
     (case pl_by_key p item of
        None \<Rightarrow> (0, p)
      | Some i \<Rightarrow> let s = applyDecay (recovery_half_life p) now (pl_items p ! i)
                  in (effectiveRate p s sinceSelect (length (pl_items p)),
                      p\<lparr>pl_items := (pl_items p)[i := s]\<rparr>))"

end
