(* ===== verification/Key_Pool_Fair.thy ===== *)
theory Key_Pool_Fair
  imports Key_Pool
begin

text \<open>
  Smooth weighted round-robin: each turn is fair in the long run. With effective weights that
  stay the same, a full cycle of turns picks every key exactly as often as its weight says.
\<close>

section \<open>One turn\<close>

definition eligible :: "'k pool_item \<Rightarrow> bool" where
  "eligible s \<longleftrightarrow> effective_weight s > 0"

definition share :: "'k pool_item \<Rightarrow> int" where
  "share s = max 0 (effective_weight s)"

definition bump :: "'k pool_item \<Rightarrow> 'k pool_item" where
  "bump s = s\<lparr>current_weight := current_weight s + share s\<rparr>"

definition total_share :: "'k pool_item list \<Rightarrow> int" where
  "total_share items = (\<Sum>s \<leftarrow> items. share s)"

definition total_current :: "'k pool_item list \<Rightarrow> int" where
  "total_current items = (\<Sum>s \<leftarrow> items. current_weight s)"

lemma share_zero: "share s = 0 \<longleftrightarrow> \<not> eligible s"
  by (auto simp: share_def eligible_def max_def)

lemma bump_zero: "\<not> eligible s \<Longrightarrow> bump s = s"
  by (simp add: bump_def share_zero [THEN iffD2])

lemma share_pos: "eligible s \<Longrightarrow> share s = effective_weight s"
  by (simp add: share_def eligible_def)

text \<open>The state of the loop after the first \<open>k\<close> items.\<close>

definition visited :: "'k pool_item list \<Rightarrow> nat \<Rightarrow> nat option \<times> int \<times> 'k pool_item list \<Rightarrow> bool" where
  "visited items k = (\<lambda>(best, weights, items').
     items' = map bump (take k items) @ drop k items \<and> weights = total_share (take k items) \<and>
     (case best of
        None \<Rightarrow> \<forall>i < k. \<not> eligible (items ! i)
      | Some b \<Rightarrow> b < k \<and> eligible (items ! b) \<and>
          (\<forall>i < k. eligible (items ! i) \<longrightarrow> current_weight (bump (items ! i)) \<le> current_weight (bump (items ! b)))))"

lemma wrr_visit_step:
  assumes "visited items k (best, weights, items')" "k < length items"
  shows "visited items (Suc k) (wrr_visit k (best, weights, items'))"
proof -
  let ?s = "items ! k"
  have items': "items' = map bump (take k items) @ drop k items" and w: "weights = total_share (take k items)"
    using assms(1) by (simp_all add: visited_def)
  have nth: "items' ! k = ?s" "\<And>i. i < k \<Longrightarrow> items' ! i = bump (items ! i)"
    using assms(2) by (simp_all add: items' nth_append)
  have upd: "items'[k := bump ?s] = map bump (take (Suc k) items) @ drop (Suc k) items"
    using assms(2) by (simp add: items' list_update_append take_Suc_conv_app_nth Cons_nth_drop_Suc [symmetric])
  have total: "total_share (take (Suc k) items) = weights + share ?s"
    using assms(2) by (simp add: w total_share_def take_Suc_conv_app_nth)
  show ?thesis
  proof (cases "eligible ?s")
    case False
    then have s: "share ?s = 0" "bump ?s = ?s" by (simp_all add: share_zero bump_zero)
    have "items' = items'[k := bump ?s]" using nth(1) s(2) by (metis list_update_id)
    then have "items' = map bump (take (Suc k) items) @ drop (Suc k) items" using upd by simp
    moreover have "wrr_visit k (best, weights, items') = (best, weights, items')"
      using False nth(1) by (simp add: wrr_visit_def eligible_def)
    ultimately show ?thesis
      using assms(1) total s(1) False by (auto simp: visited_def less_Suc_eq split: option.splits)
  next
    case True
    have s: "?s\<lparr>current_weight := current_weight ?s + effective_weight ?s\<rparr> = bump ?s" "share ?s = effective_weight ?s"
      using True by (simp_all add: bump_def share_def eligible_def)
    let ?best = "case best of None \<Rightarrow> Some k
      | Some b \<Rightarrow> if current_weight (bump ?s) > current_weight (items'[k := bump ?s] ! b) then Some k else best"
    have run: "wrr_visit k (best, weights, items') = (?best, weights + share ?s, items'[k := bump ?s])"
      using True nth(1) s by (simp add: wrr_visit_def eligible_def Let_def)
    show ?thesis
    proof (cases best)
      case None
      with assms(1) True total upd show ?thesis unfolding run
        by (auto simp: visited_def less_Suc_eq)
    next
      case (Some b)
      then have b: "b < k" "eligible (items ! b)" "items'[k := bump ?s] ! b = bump (items ! b)"
        "\<forall>i < k. eligible (items ! i) \<longrightarrow> current_weight (bump (items ! i)) \<le> current_weight (bump (items ! b))"
        using assms(1) nth(2) by (auto simp: visited_def)
      with Some True total upd show ?thesis unfolding run
        by (auto simp: visited_def less_Suc_eq intro: order_trans)
    qed
  qed
qed

lemma wrr_fold: "k \<le> length items \<Longrightarrow> visited items k (fold wrr_visit [0..<k] (None, 0, items))"
proof (induction k)
  case 0
  then show ?case by (simp add: visited_def total_share_def)
next
  case (Suc k)
  then have "visited items k (fold wrr_visit [0..<k] (None, 0, items))" by simp
  with wrr_visit_step [of items k] Suc.prems show ?case
    by (cases "fold wrr_visit [0..<k] (None, 0, items)") simp
qed

text \<open>What one turn does: the first key with the greatest bumped weight pays for the turn.\<close>

definition turn_result :: "'k pool_item list \<Rightarrow> nat \<Rightarrow> 'k pool_item list" where
  "turn_result items b = (map bump items)[b := (bump (items ! b))\<lparr>current_weight :=
     current_weight (bump (items ! b)) - total_share items\<rparr>]"

lemma nextSmoothWeighted_cases:
  "(nextSmoothWeighted items = (None, items) \<and> (\<forall>s \<in> set items. \<not> eligible s)) \<or>
   (\<exists>b. nextSmoothWeighted items = (Some b, turn_result items b) \<and> b < length items \<and> eligible (items ! b) \<and>
     (\<forall>i < length items. eligible (items ! i) \<longrightarrow>
        current_weight (bump (items ! i)) \<le> current_weight (bump (items ! b))))"
proof -
  obtain best weights items' where run: "fold wrr_visit [0..<length items] (None, 0, items) = (best, weights, items')"
    by (cases "fold wrr_visit [0..<length items] (None, 0, items)")
  have v: "visited items (length items) (best, weights, items')"
    using wrr_fold [of "length items" items] run by simp
  show ?thesis
  proof (cases best)
    case None
    with v have none: "\<forall>i < length items. \<not> eligible (items ! i)" by (simp add: visited_def)
    then have "\<forall>s \<in> set items. \<not> eligible s" by (metis in_set_conv_nth)
    moreover from this have "map bump items = items"
      by (intro map_idI) (simp add: bump_zero)
    ultimately show ?thesis using v run None by (simp add: nextSmoothWeighted_def visited_def)
  next
    case (Some b)
    with v run show ?thesis by (auto simp: nextSmoothWeighted_def visited_def turn_result_def)
  qed
qed

section \<open>The sum of the current weights\<close>

lemma sum_list_update:
  fixes f :: "'a \<Rightarrow> int"
  assumes "i < length xs"
  shows "(\<Sum>x \<leftarrow> xs[i := y]. f x) = (\<Sum>x \<leftarrow> xs. f x) - f (xs ! i) + f y"
  using assms
proof (induction xs arbitrary: i)
  case (Cons x xs)
  then show ?case by (cases i) auto
qed simp

lemma total_current_bump: "total_current (map bump items) = total_current items + total_share items"
  by (induction items) (simp_all add: total_current_def total_share_def bump_def)

lemma turn_keeps_total: "b < length items \<Longrightarrow> total_current (turn_result items b) = total_current items"
  using sum_list_update [of b "map bump items" current_weight] total_current_bump [of items]
  by (simp add: turn_result_def total_current_def)

lemma next_keeps_total: "total_current (snd (nextSmoothWeighted items)) = total_current items"
  using nextSmoothWeighted_cases [of items] turn_keeps_total by auto

lemma turn_length [simp]: "length (turn_result items b) = length items"
  by (simp add: turn_result_def)

lemma turn_share:
  assumes "i < length items"
  shows "share (turn_result items b ! i) = share (items ! i)"
  using assms by (cases "b < length items") (auto simp: turn_result_def nth_list_update share_def bump_def list_update_beyond)

lemma turn_total_share: "total_share (turn_result items b) = total_share items"
proof -
  have "map share (turn_result items b) = map share items"
    by (rule nth_equalityI) (simp_all add: turn_share)
  then show ?thesis by (simp add: total_share_def)
qed

lemma turn_current:
  assumes "i < length items" "b < length items"
  shows "current_weight (turn_result items b ! i) =
    current_weight (items ! i) + share (items ! i) - (if i = b then total_share items else 0)"
  using assms by (simp add: turn_result_def nth_list_update bump_def)

section \<open>Many turns\<close>

fun wrr_turns :: "nat \<Rightarrow> 'k pool_item list \<Rightarrow> nat list \<times> 'k pool_item list" where
  "wrr_turns 0 items = ([], items)"
| "wrr_turns (Suc n) items =
     (case nextSmoothWeighted items of
        (None, items') \<Rightarrow> ([], items')
      | (Some b, items') \<Rightarrow> let (bs, items'') = wrr_turns n items' in (b # bs, items''))"

text \<open>The accounts: every turn credits each key its share and debits the picked key a whole cycle.\<close>

lemma wrr_turns_account:
  assumes "total_share items > 0"
  shows "\<exists>bs items'. wrr_turns n items = (bs, items') \<and> length bs = n \<and> set bs \<subseteq> {..<length items} \<and>
    length items' = length items \<and> total_current items' = total_current items \<and>
    (\<forall>i < length items. current_weight (items' ! i) =
       current_weight (items ! i) + int n * share (items ! i) - total_share items * int (count_list bs i))"
  using assms
proof (induction n arbitrary: items)
  case 0
  then show ?case by simp
next
  case (Suc n)
  have "\<exists>s \<in> set items. eligible s"
  proof (rule ccontr)
    assume "\<not> ?thesis"
    then have "map share items = map (\<lambda>_. 0) items" by (simp add: share_zero)
    then have "total_share items = 0" unfolding total_share_def by (simp only: sum_list_0)
    with Suc.prems show False by simp
  qed
  then obtain b where b: "nextSmoothWeighted items = (Some b, turn_result items b)" "b < length items"
    using nextSmoothWeighted_cases [of items] by blast
  have "total_share (turn_result items b) > 0" using Suc.prems by (simp add: turn_total_share)
  from Suc.IH [OF this] obtain bs items' where rec: "wrr_turns n (turn_result items b) = (bs, items')" "length bs = n"
    "set bs \<subseteq> {..<length items}" "length items' = length items"
    "total_current items' = total_current (turn_result items b)"
    "\<forall>i < length items. current_weight (items' ! i) = current_weight (turn_result items b ! i) +
       int n * share (turn_result items b ! i) - total_share (turn_result items b) * int (count_list bs i)"
    by auto
  have "\<forall>i < length items. current_weight (items' ! i) =
       current_weight (items ! i) + int (Suc n) * share (items ! i) - total_share items * int (count_list (b # bs) i)"
    using rec(6) b(2) by (auto simp: turn_current turn_share turn_total_share algebra_simps)
  with b rec turn_keeps_total [OF b(2)] show ?case by simp
qed

lemma wrr_turns_run:
  assumes "total_share items > 0" "wrr_turns n items = (bs, items')"
  shows "length bs = n" "set bs \<subseteq> {..<length items}" "length items' = length items"
    "i < length items \<Longrightarrow> current_weight (items' ! i) =
       current_weight (items ! i) + int n * share (items ! i) - total_share items * int (count_list bs i)"
  using wrr_turns_account [OF assms(1), of n] unfolding assms(2) by simp_all

text \<open>
  No key is ever a whole cycle in debt: the winner's bumped weight is positive, because the
  bumped weights add up to a whole cycle.
\<close>

definition solvent :: "'k pool_item list \<Rightarrow> bool" where
  "solvent items \<longleftrightarrow> total_current items = 0 \<and> (\<forall>s \<in> set items. \<not> eligible s \<longrightarrow> current_weight s = 0) \<and>
     (\<forall>s \<in> set items. - total_share items < current_weight s)"

lemma share_nonneg: "0 \<le> share s"
  by (simp add: share_def)

lemma share_eligible: "eligible s \<longleftrightarrow> share s > 0"
  by (auto simp: eligible_def share_def max_def)

lemma winner_positive:
  assumes "total_share items > 0" "solvent items"
    and best: "\<forall>i < length items. eligible (items ! i) \<longrightarrow> current_weight (bump (items ! i)) \<le> w"
  shows "0 < w"
proof (rule ccontr)
  assume w: "\<not> 0 < w"
  have "current_weight (bump s) \<le> 0" if s: "s \<in> set items" for s
  proof (cases "eligible s")
    case True
    obtain i where "i < length items" "s = items ! i" using s by (auto simp: in_set_conv_nth)
    with True best have "current_weight (bump s) \<le> w" by simp
    with w show ?thesis by simp
  next
    case False
    then have "share s = 0" using share_nonneg [of s] by (simp add: share_eligible)
    moreover have "current_weight s = 0" using assms(2) s False by (simp add: solvent_def)
    ultimately show ?thesis by (simp add: bump_def)
  qed
  then have "(\<Sum>s \<leftarrow> items. current_weight (bump s)) \<le> 0" by (intro sum_list_nonpos) auto
  then have "total_current (map bump items) \<le> 0" by (simp add: total_current_def comp_def)
  moreover have "total_current items = 0" using assms(2) by (simp add: solvent_def)
  ultimately show False using assms(1) by (simp add: total_current_bump)
qed

lemma turn_solvent:
  assumes W: "total_share items > 0" and sol: "solvent items" and b: "b < length items" "eligible (items ! b)"
    and best: "\<forall>i < length items. eligible (items ! i) \<longrightarrow>
      current_weight (bump (items ! i)) \<le> current_weight (bump (items ! b))"
  shows "solvent (turn_result items b)"
  unfolding solvent_def turn_keeps_total [OF b(1)] turn_total_share
proof (intro conjI ballI impI)
  show "total_current items = 0" using sol by (simp add: solvent_def)
next
  fix s assume "s \<in> set (turn_result items b)" "\<not> eligible s"
  then obtain i where i: "i < length items" "s = turn_result items b ! i" by (auto simp: in_set_conv_nth)
  with \<open>\<not> eligible s\<close> have ne: "\<not> eligible (items ! i)" by (simp add: share_eligible turn_share)
  then have "share (items ! i) = 0" "i \<noteq> b" using b(2) share_nonneg [of "items ! i"] by (auto simp: share_eligible)
  moreover have "current_weight (items ! i) = 0" using sol i(1) ne by (simp add: solvent_def)
  ultimately show "current_weight s = 0" using i b(1) by (simp add: turn_current)
next
  fix s assume "s \<in> set (turn_result items b)"
  then obtain i where i: "i < length items" "s = turn_result items b ! i" by (auto simp: in_set_conv_nth)
  have old: "- total_share items < current_weight (items ! i)" using sol i(1) by (simp add: solvent_def)
  have win: "0 < current_weight (items ! b) + share (items ! b)"
    using winner_positive [OF W sol best] by (simp add: bump_def)
  show "- total_share items < current_weight s"
    using i b(1) old win share_nonneg [of "items ! i"] by (cases "i = b") (simp_all add: turn_current)
qed

lemma wrr_turns_solvent:
  "total_share items > 0 \<Longrightarrow> solvent items \<Longrightarrow> wrr_turns n items = (bs, items') \<Longrightarrow>
   solvent items' \<and> total_share items' = total_share items"
proof (induction n arbitrary: items bs items')
  case (Suc n)
  consider (none) "nextSmoothWeighted items = (None, items)"
    | (some) b where "nextSmoothWeighted items = (Some b, turn_result items b)" "b < length items" "eligible (items ! b)"
      "\<forall>i < length items. eligible (items ! i) \<longrightarrow>
        current_weight (bump (items ! i)) \<le> current_weight (bump (items ! b))"
    using nextSmoothWeighted_cases [of items] by blast
  then show ?case
  proof cases
    case none
    with Suc.prems show ?thesis by simp
  next
    case (some b)
    obtain cs where "wrr_turns n (turn_result items b) = (cs, items')"
      using Suc.prems(3) some(1) by (auto split: prod.splits)
    with Suc.IH [of "turn_result items b" cs items'] turn_solvent [OF Suc.prems(1,2) some(2-4)] Suc.prems(1)
    show ?thesis by (simp add: turn_total_share)
  qed
qed simp

lemma count_list_sum:
  fixes n :: nat
  assumes "set bs \<subseteq> {..<n}"
  shows "(\<Sum>i < n. int (count_list bs i)) = int (length bs)"
  using assms
proof (induction bs)
  case (Cons b bs)
  have "(\<Sum>i < n. int (count_list (b # bs) i)) = (\<Sum>i < n. (if b = i then 1 else 0) + int (count_list bs i))"
    by (rule sum.cong) auto
  moreover have "(\<Sum>i < n. if b = i then 1 else 0) = (1 :: int)"
    using Cons.prems by simp
  ultimately show ?case using Cons by (simp add: sum.distrib)
qed simp

lemma all_equal_of_sum:
  fixes f g :: "nat \<Rightarrow> int"
  assumes "\<forall>i < n. f i \<le> g i" "(\<Sum>i < n. f i) = (\<Sum>i < n. g i)" "i < n"
  shows "f i = g i"
proof (rule ccontr)
  assume "f i \<noteq> g i"
  with assms(1,3) have "f i < g i" by force
  then have "(\<Sum>i < n. f i) < (\<Sum>i < n. g i)"
    using assms(1,3) by (intro sum_strict_mono_ex1) auto
  with assms(2) show False by simp
qed

lemma total_share_sum: "total_share items = (\<Sum>i < length items. share (items ! i))"
  by (simp add: total_share_def sum_list_sum_nth atLeast0LessThan)

text \<open>In \<open>n\<close> turns a key is picked less than once more than its proportional part.\<close>

lemma wrr_turns_upper:
  assumes W: "total_share items > 0" and fresh: "\<forall>s \<in> set items. current_weight s = 0"
    and run: "wrr_turns n items = (bs, items')" and i: "i < length items"
  shows "total_share items * int (count_list bs i) < int n * share (items ! i) + total_share items"
proof -
  have "total_current items = 0" using fresh by (simp add: total_current_def cong: map_cong)
  then have "solvent items" using fresh W by (simp add: solvent_def)
  from wrr_turns_solvent [OF W this run] have sol: "solvent items'" "total_share items' = total_share items" by simp_all
  note len = wrr_turns_run(3) [OF W run] and acc = wrr_turns_run(4) [OF W run i]
  have "- total_share items < current_weight (items' ! i)" using sol len i by (simp add: solvent_def)
  with acc fresh i show ?thesis by simp
qed

lemma wrr_turns_at_most_share:
  assumes "total_share items > 0" "\<forall>s \<in> set items. current_weight s = 0"
    and "wrr_turns (nat (total_share items)) items = (bs, items')" "i < length items"
  shows "int (count_list bs i) \<le> share (items ! i)"
proof -
  have n: "int (nat (total_share items)) = total_share items" using assms(1) by simp
  have "total_share items * int (count_list bs i) < total_share items * share (items ! i) + total_share items"
    using wrr_turns_upper [OF assms] unfolding n .
  also have "\<dots> = total_share items * (share (items ! i) + 1)" by (simp add: distrib_left)
  finally have "int (count_list bs i) < share (items ! i) + 1"
    using assms(1) by (simp only: mult_less_cancel_left_pos)
  then show ?thesis by simp
qed

lemma wrr_cycle:
  assumes W: "total_share items > 0" and fresh: "\<forall>s \<in> set items. current_weight s = 0"
    and run: "wrr_turns (nat (total_share items)) items = (bs, items')" and i: "i < length items"
  shows "int (count_list bs i) = share (items ! i) \<and> current_weight (items' ! i) = 0"
proof -
  have n: "int (nat (total_share items)) = total_share items" using W by simp
  note acc = wrr_turns_run [OF W run]
  have le: "\<forall>j < length items. int (count_list bs j) \<le> share (items ! j)"
    by (intro allI impI wrr_turns_at_most_share [OF W fresh run])
  have sums: "(\<Sum>j < length items. int (count_list bs j)) = (\<Sum>j < length items. share (items ! j))"
    using count_list_sum [OF acc(2)] unfolding acc(1) n by (rule trans [OF _ total_share_sum])
  have eq: "int (count_list bs i) = share (items ! i)" by (rule all_equal_of_sum [OF le sums i])
  have "current_weight (items ! i) = 0" using fresh i by simp
  then show ?thesis using acc(4) [OF i] eq unfolding n by simp
qed

end
