(* ===== verification/Key_Pool_State.thy ===== *)
theory Key_Pool_State
  imports Key_Pool_Fair
begin

text \<open>
  The state of a pool over its operations: the index \<open>byKey\<close> agrees with the items, counters
  are non-negative, the current weights add up to zero. \<open>Next\<close> picks a key of greatest bumped
  weight, and on a pool nobody reports to it serves every key its share in each cycle.
\<close>

section \<open>Well-formed pools\<close>

definition item_ok :: "'k pool_item \<Rightarrow> bool" where
  "item_ok s \<longleftrightarrow> 0 < base_weight s \<and> 0 \<le> successes s \<and> 0 \<le> failures_soft s \<and> 0 \<le> failures_hard s"

definition index_ok :: "('k \<Rightarrow> nat option) \<Rightarrow> 'k list \<Rightarrow> bool" where
  "index_ok m ks \<longleftrightarrow> dom m = set ks \<and> (\<forall>k i. m k = Some i \<longrightarrow> i < length ks \<and> ks ! i = k)"

definition pool_keys :: "'k pool \<Rightarrow> 'k list" where
  "pool_keys p = map pi_item (pl_items p)"

definition pool_ok :: "'k pool \<Rightarrow> bool" where
  "pool_ok p \<longleftrightarrow> (\<forall>s \<in> set (pl_items p). item_ok s) \<and> index_ok (pl_by_key p) (pool_keys p) \<and>
     total_current (pl_items p) = 0 \<and> 0 < recovery_half_life p \<and> 0 \<le> probe_base_interval p"

lemma item_ok_decay: "item_ok s \<Longrightarrow> item_ok (applyDecay h now s)"
  by (auto simp: item_ok_def applyDecay_def Let_def split: option.split)

lemma decay_fields [simp]:
  "pi_item (applyDecay h now s) = pi_item s" "base_weight (applyDecay h now s) = base_weight s"
  "current_weight (applyDecay h now s) = current_weight s"
  "effective_weight (applyDecay h now s) = effective_weight s"
  "last_outcome_at (applyDecay h now s) = last_outcome_at s"
  by (auto simp: applyDecay_def Let_def split: option.split)

lemma refresh_fields [simp]:
  "pi_item (refresh_weight p now s) = pi_item s" "base_weight (refresh_weight p now s) = base_weight s"
  "current_weight (refresh_weight p now s) = current_weight s"
  by (simp_all add: refresh_weight_def Let_def)

lemma item_ok_refresh: "item_ok s \<Longrightarrow> item_ok (refresh_weight p now s)"
  using item_ok_decay [of s "recovery_half_life p" now] by (simp add: refresh_weight_def item_ok_def Let_def)

lemma note_fields [simp]:
  "pi_item (note_success h now s) = pi_item s" "pi_item (note_failure h now s) = pi_item s"
  "current_weight (note_success h now s) = current_weight s" "current_weight (note_failure h now s) = current_weight s"
  by (simp_all add: note_success_def note_failure_def Let_def)

lemma item_ok_note:
  assumes "item_ok s"
  shows "item_ok (note_success h now s)" "item_ok (note_failure h now s)"
  using item_ok_decay [OF assms, of h now] by (simp_all add: note_success_def note_failure_def item_ok_def Let_def)

lemma total_current_map: "(\<And>s. current_weight (f s) = current_weight s) \<Longrightarrow> total_current (map f items) = total_current items"
  by (simp add: total_current_def comp_def)

lemma total_current_upd:
  "i < length items \<Longrightarrow> total_current (items[i := y]) = total_current items - current_weight (items ! i) + current_weight y"
  by (simp add: total_current_def sum_list_update)

text \<open>Replacing items by items of the same key keeps the index.\<close>

lemma pool_ok_items:
  assumes "pool_ok p" "map pi_item items = pool_keys p" "\<forall>s \<in> set items. item_ok s" "total_current items = 0"
  shows "pool_ok (p\<lparr>pl_items := items\<rparr>)"
  using assms by (simp add: pool_ok_def pool_keys_def)

lemma pool_ok_upd:
  assumes "pool_ok p" "pl_by_key p k = Some i"
    and "\<And>s. item_ok s \<Longrightarrow> item_ok (f s)" "\<And>s. pi_item (f s) = pi_item s" "\<And>s. current_weight (f s) = current_weight s"
  shows "pool_ok (pool_upd i f p)"
proof -
  have i: "i < length (pl_items p)" using assms(1,2) by (auto simp: pool_ok_def index_ok_def pool_keys_def)
  have "map pi_item ((pl_items p)[i := f (pl_items p ! i)]) = pool_keys p"
    unfolding pool_keys_def map_update assms(4) using i by (simp flip: nth_map)
  moreover have "\<forall>s \<in> set ((pl_items p)[i := f (pl_items p ! i)]). item_ok s"
    using assms(1) i set_update_subset_insert [of "pl_items p" i "f (pl_items p ! i)"]
    by (auto simp: pool_ok_def intro!: assms(3))
  moreover have "total_current ((pl_items p)[i := f (pl_items p ! i)]) = 0"
    using i assms(1) by (simp add: total_current_upd assms(5) pool_ok_def)
  ultimately show ?thesis unfolding pool_upd_def by (intro pool_ok_items [OF assms(1)])
qed

lemma pool_ok_index:
  "pool_ok p \<Longrightarrow> pl_by_key p k = Some i \<Longrightarrow> i < length (pl_items p) \<and> pi_item (pl_items p ! i) = k"
  by (force simp: pool_ok_def index_ok_def pool_keys_def)

section \<open>The operations\<close>

lemma NewPool_ok: "pool_ok (NewPoolWithConfig h b cfg)"
  by (simp add: NewPoolWithConfig_def pool_ok_def index_ok_def pool_keys_def total_current_def second_def)

lemma index_ok_snoc:
  assumes "index_ok m ks"
  shows "index_ok (m(k \<mapsto> length ks)) (ks @ [k])"
  unfolding index_ok_def
proof (intro conjI allI impI)
  show "dom (m(k \<mapsto> length ks)) = set (ks @ [k])" using assms by (simp add: index_ok_def)
next
  fix k' i assume i: "(m(k \<mapsto> length ks)) k' = Some i"
  show "i < length (ks @ [k])" "(ks @ [k]) ! i = k'"
    using assms i by (cases "k' = k"; force simp: index_ok_def nth_append)+
qed

lemma Add_ok:
  assumes "pool_ok p"
  shows "pool_ok (pool_Add k w p)"
  using assms index_ok_snoc [of "pl_by_key p" "pool_keys p" k]
  by (simp add: pool_ok_def pool_Add_def item_ok_def total_current_def pool_keys_def Let_def)

lemma RemoveAll_ok: "pool_ok p \<Longrightarrow> pool_ok (pool_RemoveAll p)"
  by (simp add: pool_ok_def pool_RemoveAll_def index_ok_def pool_keys_def total_current_def)

lemma RecordSuccess_ok: "pool_ok p \<Longrightarrow> pool_ok (RecordSuccess now k p)"
  by (auto simp: RecordSuccess_def item_ok_note intro!: pool_ok_upd split: option.split)

lemma RecordFailure_ok: "pool_ok p \<Longrightarrow> pool_ok (RecordFailure now k p)"
  by (auto simp: RecordFailure_def item_ok_note intro!: pool_ok_upd split: option.split)

lemma turn_fields:
  assumes "i < length items"
  shows "pi_item (turn_result items b ! i) = pi_item (items ! i) \<and> (item_ok (items ! i) \<longrightarrow> item_ok (turn_result items b ! i))"
  using assms by (cases "b < length items")
    (auto simp: turn_result_def nth_list_update bump_def item_ok_def list_update_beyond)

lemma turn_items:
  shows "map pi_item (turn_result items b) = map pi_item items"
    and "\<forall>s \<in> set items. item_ok s \<Longrightarrow> \<forall>s \<in> set (turn_result items b). item_ok s"
  by (rule nth_equalityI; simp add: turn_fields) (metis in_set_conv_nth turn_fields turn_length)

lemma Next_cases:
  fixes now p
  defines "items \<equiv> map (refresh_weight p now) (pl_items p)"
  shows "(pool_Next now p = (None, p\<lparr>pl_items := items\<rparr>) \<and> (\<forall>s \<in> set items. \<not> eligible s)) \<or>
   (\<exists>b. pool_Next now p = (Some (pi_item (items ! b)), p\<lparr>pl_items := turn_result items b\<rparr>) \<and>
     b < length items \<and> eligible (items ! b) \<and>
     (\<forall>i < length items. eligible (items ! i) \<longrightarrow>
        current_weight (bump (items ! i)) \<le> current_weight (bump (items ! b))))"
proof (cases "pl_items p = []")
  case True
  then have "p\<lparr>pl_items := items\<rparr> = p" by (cases p) (simp add: items_def)
  with True show ?thesis by (simp add: pool_Next_def items_def)
next
  case False
  from nextSmoothWeighted_cases [of items] show ?thesis
  proof
    assume "nextSmoothWeighted items = (None, items) \<and> (\<forall>s \<in> set items. \<not> eligible s)"
    with False show ?thesis by (simp add: pool_Next_def Let_def flip: items_def)
  next
    assume "\<exists>b. nextSmoothWeighted items = (Some b, turn_result items b) \<and> b < length items \<and> eligible (items ! b) \<and>
      (\<forall>i < length items. eligible (items ! i) \<longrightarrow> current_weight (bump (items ! i)) \<le> current_weight (bump (items ! b)))"
    then obtain b where b: "nextSmoothWeighted items = (Some b, turn_result items b)" "b < length items" "eligible (items ! b)"
      "\<forall>i < length items. eligible (items ! i) \<longrightarrow> current_weight (bump (items ! i)) \<le> current_weight (bump (items ! b))"
      by blast
    have "pool_Next now p = (Some (pi_item (items ! b)), p\<lparr>pl_items := turn_result items b\<rparr>)"
      using False b(1) turn_fields [OF b(2), of b] by (simp add: pool_Next_def Let_def flip: items_def)
    with b show ?thesis by blast
  qed
qed

lemma Next_ok:
  assumes "pool_ok p"
  shows "pool_ok (snd (pool_Next now p))"
proof -
  let ?items = "map (refresh_weight p now) (pl_items p)"
  have keys: "map pi_item ?items = pool_keys p" by (simp add: pool_keys_def)
  have ok: "\<forall>s \<in> set ?items. item_ok s" using assms by (auto simp: pool_ok_def intro: item_ok_refresh)
  have tot: "total_current ?items = 0" using assms by (simp add: total_current_map pool_ok_def)
  from Next_cases [of now p] show ?thesis
  proof
    assume "pool_Next now p = (None, p\<lparr>pl_items := ?items\<rparr>) \<and> (\<forall>s \<in> set ?items. \<not> eligible s)"
    then show ?thesis using pool_ok_items [OF assms keys ok tot] by simp
  next
    assume "\<exists>b. pool_Next now p = (Some (pi_item (?items ! b)), p\<lparr>pl_items := turn_result ?items b\<rparr>) \<and>
     b < length ?items \<and> eligible (?items ! b) \<and> (\<forall>i < length ?items. eligible (?items ! i) \<longrightarrow>
        current_weight (bump (?items ! i)) \<le> current_weight (bump (?items ! b)))"
    then obtain b where b: "pool_Next now p = (Some (pi_item (?items ! b)), p\<lparr>pl_items := turn_result ?items b\<rparr>)"
      "b < length ?items" by blast
    have "map pi_item (turn_result ?items b) = pool_keys p" unfolding turn_items(1) keys ..
    moreover have "total_current (turn_result ?items b) = 0" unfolding turn_keeps_total [OF b(2)] tot ..
    ultimately have "pool_ok (p\<lparr>pl_items := turn_result ?items b\<rparr>)"
      by (intro pool_ok_items [OF assms _ turn_items(2) [OF ok]])
    with b(1) show ?thesis by simp
  qed
qed

lemma ActiveItems_ok: "pool_ok p \<Longrightarrow> pool_ok (snd (ActiveItems now p))"
  by (auto simp: ActiveItems_def Let_def pool_keys_def total_current_map pool_ok_def [of p]
      intro!: pool_ok_items item_ok_decay)

lemma Reset_ok: "pool_ok p \<Longrightarrow> pool_ok (pool_Reset p)"
  by (auto simp: pool_Reset_def pool_ok_def pool_keys_def item_ok_def total_current_def comp_def)

lemma pool_ok_decayed: "pool_ok p \<Longrightarrow> pl_by_key p k = Some i \<Longrightarrow>
    pool_ok (p\<lparr>pl_items := (pl_items p)[i := applyDecay (recovery_half_life p) now (pl_items p ! i)]\<rparr>)"
  using pool_ok_upd [of p k i "applyDecay (recovery_half_life p) now"] by (simp add: pool_upd_def item_ok_decay)

lemma EffectiveRate_ok: "pool_ok p \<Longrightarrow> pool_ok (snd (EffectiveRate now k p))"
  by (auto simp: EffectiveRate_def Let_def intro: pool_ok_decayed split: option.split)

lemma EffectiveRateAfter_ok: "pool_ok p \<Longrightarrow> pool_ok (snd (EffectiveRateAfter now k d p))"
  by (auto simp: EffectiveRateAfter_def Let_def intro: pool_ok_decayed split: option.split)

section \<open>Reachable pools\<close>

text \<open>The states of a pool with configuration \<open>cfg\<close> under any sequence of calls at any clock readings.\<close>

inductive pool_reach :: "scheduler_config \<Rightarrow> 'k pool \<Rightarrow> bool" for cfg where
  reach_new: "pool_reach cfg (NewPoolWithConfig h b cfg)"
| reach_add: "pool_reach cfg p \<Longrightarrow> pool_reach cfg (pool_Add k w p)"
| reach_remove: "pool_reach cfg p \<Longrightarrow> pool_reach cfg (pool_RemoveAll p)"
| reach_success: "pool_reach cfg p \<Longrightarrow> pool_reach cfg (RecordSuccess now k p)"
| reach_failure: "pool_reach cfg p \<Longrightarrow> pool_reach cfg (RecordFailure now k p)"
| reach_next: "pool_reach cfg p \<Longrightarrow> pool_reach cfg (snd (pool_Next now p))"
| reach_active: "pool_reach cfg p \<Longrightarrow> pool_reach cfg (snd (ActiveItems now p))"
| reach_reset: "pool_reach cfg p \<Longrightarrow> pool_reach cfg (pool_Reset p)"
| reach_rate: "pool_reach cfg p \<Longrightarrow> pool_reach cfg (snd (EffectiveRate now k p))"
| reach_rate_after: "pool_reach cfg p \<Longrightarrow> pool_reach cfg (snd (EffectiveRateAfter now k d p))"

lemma pool_cfg_kept:
  "pl_cfg (NewPoolWithConfig h b cfg) = cfg" "pl_cfg (pool_Add k w p) = pl_cfg p"
  "pl_cfg (pool_RemoveAll p) = pl_cfg p" "pl_cfg (RecordSuccess now k p) = pl_cfg p"
  "pl_cfg (RecordFailure now k p) = pl_cfg p" "pl_cfg (snd (pool_Next now p)) = pl_cfg p"
  "pl_cfg (snd (ActiveItems now p)) = pl_cfg p" "pl_cfg (pool_Reset p) = pl_cfg p"
  "pl_cfg (snd (EffectiveRate now k p)) = pl_cfg p" "pl_cfg (snd (EffectiveRateAfter now k d p)) = pl_cfg p"
  by (simp_all add: NewPoolWithConfig_def pool_Add_def pool_RemoveAll_def RecordSuccess_def RecordFailure_def
      pool_upd_def pool_Next_def ActiveItems_def pool_Reset_def EffectiveRate_def EffectiveRateAfter_def Let_def
      split: option.split prod.split)

lemma reach_ok: "pool_reach cfg p \<Longrightarrow> pool_ok p \<and> pl_cfg p = cfg"
  by (induction rule: pool_reach.induct)
    (simp_all add: pool_cfg_kept NewPool_ok Add_ok RemoveAll_ok RecordSuccess_ok RecordFailure_ok Next_ok
      ActiveItems_ok Reset_ok EffectiveRate_ok EffectiveRateAfter_ok)

section \<open>Repeated selection at one instant\<close>

fun pool_turns :: "nat \<Rightarrow> int \<Rightarrow> 'k pool \<Rightarrow> 'k option list \<times> 'k pool" where
  "pool_turns 0 now p = ([], p)"
| "pool_turns (Suc n) now p =
     (let (k, p') = pool_Next now p; (ks, p'') = pool_turns n now p' in (k # ks, p''))"

text \<open>The weight with which \<open>Next\<close> lets a key take part.\<close>

definition turn_weight :: "'k pool \<Rightarrow> int \<Rightarrow> 'k pool_item \<Rightarrow> int" where
  "turn_weight p now s = max 0 (selectionWeight p now (applyDecay (recovery_half_life p) now s))"

lemma decay_idem [simp]: "applyDecay h now (applyDecay h now s) = applyDecay h now s"
  by (auto simp: applyDecay_def Let_def split: option.split)

lemma decay_weights:
  "applyDecay h now (s\<lparr>effective_weight := e\<rparr>) = (applyDecay h now s)\<lparr>effective_weight := e\<rparr>"
  "applyDecay h now (s\<lparr>current_weight := c\<rparr>) = (applyDecay h now s)\<lparr>current_weight := c\<rparr>"
  by (simp_all add: applyDecay_def Let_def split: option.split)

lemma selection_weights:
  "selectionWeight p now (s\<lparr>effective_weight := e\<rparr>) = selectionWeight p now s"
  "selectionWeight p now (s\<lparr>current_weight := c\<rparr>) = selectionWeight p now s"
  by (simp_all add: selectionWeight_def effectiveRate_def sinceLastOutcome_def)

lemma refresh_idem: "refresh_weight p now (refresh_weight p now s) = refresh_weight p now s"
  by (simp add: refresh_weight_def Let_def decay_weights selection_weights)

lemma refresh_current:
  "refresh_weight p now (s\<lparr>current_weight := c\<rparr>) = (refresh_weight p now s)\<lparr>current_weight := c\<rparr>"
  by (simp add: refresh_weight_def Let_def decay_weights selection_weights)

lemma refresh_items: "length items = length (pl_items p) \<Longrightarrow> refresh_weight (p\<lparr>pl_items := items\<rparr>) = refresh_weight p"
  by (intro ext) (simp add: refresh_weight_def selectionWeight_def effectiveRate_def Let_def)

definition settled :: "'k pool \<Rightarrow> int \<Rightarrow> bool" where
  "settled p now \<longleftrightarrow> (\<forall>s \<in> set (pl_items p). refresh_weight p now s = s)"

lemma settled_map: "settled p now \<Longrightarrow> map (refresh_weight p now) (pl_items p) = pl_items p"
  by (intro map_idI) (simp add: settled_def)

lemma settled_refresh: "settled (p\<lparr>pl_items := map (refresh_weight p now) (pl_items p)\<rparr>) now"
  by (simp add: settled_def refresh_items refresh_idem)

lemma settled_turn:
  assumes "settled p now" "b < length (pl_items p)"
  shows "settled (p\<lparr>pl_items := turn_result (pl_items p) b\<rparr>) now"
proof -
  have "refresh_weight p now (turn_result (pl_items p) b ! i) = turn_result (pl_items p) b ! i"
    if "i < length (pl_items p)" for i
    using assms that by (simp add: turn_result_def nth_list_update bump_def refresh_current settled_def)
  then show ?thesis by (auto simp: settled_def refresh_items in_set_conv_nth)
qed

lemma pool_turns_wrr:
  "settled p now \<Longrightarrow> total_share (pl_items p) > 0 \<Longrightarrow> wrr_turns n (pl_items p) = (bs, items') \<Longrightarrow>
   pool_turns n now p = (map (\<lambda>b. Some (pool_keys p ! b)) bs, p\<lparr>pl_items := items'\<rparr>)"
proof (induction n arbitrary: p bs items')
  case 0
  then show ?case by (cases p) simp
next
  case (Suc n)
  have pos: "\<not> (\<forall>s \<in> set (pl_items p). \<not> eligible s)"
  proof
    assume "\<forall>s \<in> set (pl_items p). \<not> eligible s"
    then have "map share (pl_items p) = map (\<lambda>_. 0) (pl_items p)" by (simp add: share_zero)
    with Suc.prems(2) show False unfolding total_share_def by (simp only: sum_list_0)
  qed
  with nextSmoothWeighted_cases [of "pl_items p"] obtain c where
    c: "nextSmoothWeighted (pl_items p) = (Some c, turn_result (pl_items p) c)" "c < length (pl_items p)" by blast
  let ?q = "p\<lparr>pl_items := turn_result (pl_items p) c\<rparr>"
  have ne: "pl_items p \<noteq> []" using c(2) by auto
  have nxt: "pool_Next now p = (Some (pool_keys p ! c), ?q)"
    using ne c turn_fields [OF c(2), of c] settled_map [OF Suc.prems(1)] by (simp add: pool_Next_def pool_keys_def)
  obtain cs where cs: "wrr_turns n (turn_result (pl_items p) c) = (cs, items')" "bs = c # cs"
    using Suc.prems(3) c(1) by (auto split: prod.splits)
  have "pool_turns n now ?q = (map (\<lambda>b. Some (pool_keys ?q ! b)) cs, ?q\<lparr>pl_items := items'\<rparr>)"
    using Suc.IH [of ?q cs items'] settled_turn [OF Suc.prems(1) c(2)] Suc.prems(2) cs(1) by (simp add: turn_total_share)
  moreover have "pool_keys ?q = pool_keys p" by (simp add: pool_keys_def turn_items(1))
  ultimately show ?case using nxt cs(2) by simp
qed

section \<open>A full cycle\<close>

lemma count_list_map_inj:
  assumes "inj_on f (insert x (set xs))"
  shows "count_list (map f xs) (f x) = count_list xs x"
  using assms by (induction xs) (auto simp: inj_on_def)

lemma refresh_share: "share (refresh_weight p now s) = turn_weight p now s"
  by (simp add: share_def turn_weight_def refresh_weight_def Let_def)

lemma total_refresh: "total_share (map (refresh_weight p now) items) = (\<Sum>s \<leftarrow> items. turn_weight p now s)"
  by (simp add: total_share_def refresh_share comp_def)

lemma first_turn: "pl_items p \<noteq> [] \<Longrightarrow>
    pool_turns (Suc n) now p = pool_turns (Suc n) now (p\<lparr>pl_items := map (refresh_weight p now) (pl_items p)\<rparr>)"
  by (simp add: pool_Next_def Let_def refresh_items refresh_idem comp_def split: prod.split option.split)

lemma cycle_of_turns:
  assumes W: "(\<Sum>s \<leftarrow> pl_items p. turn_weight p now s) = int W" "0 < W"
    and fresh: "\<forall>s \<in> set (pl_items p). current_weight s = 0"
  obtains bs items' where
    "pool_turns W now p = (map (\<lambda>b. Some (pool_keys p ! b)) bs, p\<lparr>pl_items := items'\<rparr>)"
    "length bs = W" "set bs \<subseteq> {..<length (pl_items p)}" "length items' = length (pl_items p)"
    "\<And>i. i < length (pl_items p) \<Longrightarrow>
       int (count_list bs i) = turn_weight p now (pl_items p ! i) \<and> current_weight (items' ! i) = 0"
proof -
  let ?items = "map (refresh_weight p now) (pl_items p)"
  let ?q = "p\<lparr>pl_items := ?items\<rparr>"
  obtain bs items' where run: "wrr_turns W ?items = (bs, items')" by force
  have tot: "total_share ?items = int W" by (simp add: total_refresh W(1))
  then have pos: "0 < total_share ?items" using W(2) by simp
  have ne: "pl_items p \<noteq> []" using W by auto
  obtain n where n: "W = Suc n" using W(2) by (cases W) auto
  have keys: "pool_keys ?q = pool_keys p" by (simp add: pool_keys_def)
  have settled: "settled ?q now" by (rule settled_refresh)
  have turns: "pool_turns W now p = (map (\<lambda>b. Some (pool_keys p ! b)) bs, p\<lparr>pl_items := items'\<rparr>)"
    using pool_turns_wrr [OF settled, of W bs items'] pos run first_turn [OF ne, of n now] n keys by simp
  have fresh': "\<forall>s \<in> set ?items. current_weight s = 0" using fresh by simp
  have run': "wrr_turns (nat (total_share ?items)) ?items = (bs, items')" unfolding tot using run by simp
  have cyc: "int (count_list bs i) = turn_weight p now (pl_items p ! i) \<and> current_weight (items' ! i) = 0"
    if "i < length (pl_items p)" for i
    using wrr_cycle [OF pos fresh' run', of i] that by (simp add: refresh_share)
  have "length bs = W" "set bs \<subseteq> {..<length (pl_items p)}" "length items' = length (pl_items p)"
    using wrr_turns_run(1-3) [OF pos run] by simp_all
  then show thesis using that [OF turns] cyc by simp
qed

section \<open>Properties\<close>

text \<open>
  C17: every state a pool reaches is well formed: the index \<open>byKey\<close> holds exactly the keys of the
  items and points to an item of that key, base weights are positive, counters are not negative,
  and the current weights add up to zero.
\<close>

theorem reachable_pool_ok:
  assumes "pool_reach cfg p"
  shows "dom (pl_by_key p) = set (map pi_item (pl_items p)) \<and>
    (\<forall>k i. pl_by_key p k = Some i \<longrightarrow> i < length (pl_items p) \<and> pi_item (pl_items p ! i) = k) \<and>
    (\<forall>s \<in> set (pl_items p). 0 < base_weight s \<and> 0 \<le> successes s \<and> 0 \<le> failures_soft s \<and> 0 \<le> failures_hard s) \<and>
    (\<Sum>s \<leftarrow> pl_items p. current_weight s) = 0 \<and> pl_cfg p = cfg"
proof -
  have ok: "pool_ok p" "pl_cfg p = cfg" using reach_ok [OF assms] by simp_all
  then show ?thesis
    using pool_ok_index [OF ok(1)] by (simp add: pool_ok_def index_ok_def pool_keys_def item_ok_def total_current_def)
qed

theorem reachable_pool_ok_witness:
  "\<exists>p. p = snd (pool_Next 5 (RecordFailure 3 ''k1'' (pool_Add ''k2'' 4 (pool_Add ''k1'' 0 (NewPool 0 0))))) \<and>
     dom (pl_by_key p) = {''k1'', ''k2''} \<and> (\<Sum>s \<leftarrow> pl_items p. current_weight s) = 0"
proof -
  let ?p = "snd (pool_Next 5 (RecordFailure 3 ''k1'' (pool_Add ''k2'' 4 (pool_Add ''k1'' 0 (NewPool 0 0)))))"
  have "pool_reach DefaultSchedulerConfig ?p" unfolding NewPool_def by (intro pool_reach.intros)
  note ok = reachable_pool_ok [OF this]
  have "map pi_item (pl_items ?p) = [''k1'', ''k2'']"
    using Next_cases [of 5 "RecordFailure 3 ''k1'' (pool_Add ''k2'' 4 (pool_Add ''k1'' 0 (NewPool 0 0)))"]
    by (elim disjE exE conjE)
      (simp_all add: turn_items(1) RecordFailure_def pool_upd_def pool_Add_def NewPool_def NewPoolWithConfig_def comp_def)
  then have "set (map pi_item (pl_items ?p)) = {''k1'', ''k2''}" by simp
  with ok show ?thesis by simp
qed

lemma Next_greatest:
  assumes "weight = (\<lambda>s. selectionWeight p now (applyDecay (recovery_half_life p) now s))"
  shows "(fst (pool_Next now p) = None \<longleftrightarrow> (\<forall>s \<in> set (pl_items p). weight s \<le> 0)) \<and>
    (\<forall>k. fst (pool_Next now p) = Some k \<longrightarrow> (\<exists>s \<in> set (pl_items p). pi_item s = k \<and> 0 < weight s \<and>
       (\<forall>t \<in> set (pl_items p). 0 < weight t \<longrightarrow> current_weight t + weight t \<le> current_weight s + weight s)))"
proof -
  let ?items = "map (refresh_weight p now) (pl_items p)"
  have el: "eligible (refresh_weight p now s) \<longleftrightarrow> 0 < weight s" for s
    by (simp add: eligible_def refresh_weight_def assms Let_def)
  have cw: "current_weight (bump (refresh_weight p now s)) = current_weight s + weight s" if "0 < weight s" for s
    using that by (simp add: bump_def share_def refresh_weight_def assms Let_def)
  from Next_cases [of now p] show ?thesis
  proof
    assume "pool_Next now p = (None, p\<lparr>pl_items := ?items\<rparr>) \<and> (\<forall>s \<in> set ?items. \<not> eligible s)"
    then show ?thesis by (simp add: el not_less)
  next
    assume "\<exists>b. pool_Next now p = (Some (pi_item (?items ! b)), p\<lparr>pl_items := turn_result ?items b\<rparr>) \<and>
     b < length ?items \<and> eligible (?items ! b) \<and> (\<forall>i < length ?items. eligible (?items ! i) \<longrightarrow>
        current_weight (bump (?items ! i)) \<le> current_weight (bump (?items ! b)))"
    then obtain b where b: "fst (pool_Next now p) = Some (pi_item (pl_items p ! b))" "b < length (pl_items p)"
      "0 < weight (pl_items p ! b)"
      "\<forall>i < length (pl_items p). 0 < weight (pl_items p ! i) \<longrightarrow>
        current_weight (bump (refresh_weight p now (pl_items p ! i))) \<le> current_weight (bump (refresh_weight p now (pl_items p ! b)))"
      by (auto simp: el)
    have "\<forall>t \<in> set (pl_items p). 0 < weight t \<longrightarrow>
        current_weight t + weight t \<le> current_weight (pl_items p ! b) + weight (pl_items p ! b)"
      using b(3,4) by (auto simp: in_set_conv_nth cw)
    with b(1-3) show ?thesis by (auto simp: not_le intro!: bexI [OF _ nth_mem])
  qed
qed

text \<open>
  C33: \<open>Next\<close> returns the key whose current weight, raised by the weight of its effective rate, is
  greatest among the keys of positive weight; it returns \<open>nil\<close> exactly when no key has positive
  weight.
\<close>

theorem Next_picks_greatest:
  assumes "weight = (\<lambda>s. selectionWeight p now (applyDecay (recovery_half_life p) now s))"
  shows "(fst (pool_Next now p) = None \<longleftrightarrow> (\<forall>s \<in> set (pl_items p). weight s \<le> 0)) \<and>
    (\<forall>k. fst (pool_Next now p) = Some k \<longrightarrow> (\<exists>s \<in> set (pl_items p). pi_item s = k \<and> 0 < weight s \<and>
       (\<forall>t \<in> set (pl_items p). 0 < weight t \<longrightarrow> current_weight t + weight t \<le> current_weight s + weight s)))"
  by (rule Next_greatest [OF assms])

text \<open>
  C12: nobody starves. From a pool whose current weights are zero (as after \<open>Reset\<close>) and distinct
  keys, as many calls of \<open>Next\<close> as the weights add up to, with no report in between, all return
  a key, return each key exactly as often as its weight says, and end with zero current weights
  again.
\<close>

theorem Next_serves_every_key:
  assumes "distinct (map pi_item (pl_items p))" "\<forall>s \<in> set (pl_items p). current_weight s = 0"
    and "(\<Sum>s \<leftarrow> pl_items p. turn_weight p now s) = int W" "0 < W"
  shows "\<exists>ks p'. pool_turns W now p = (ks, p') \<and> length ks = W \<and> None \<notin> set ks \<and>
    (\<forall>s \<in> set (pl_items p). int (count_list ks (Some (pi_item s))) = turn_weight p now s) \<and>
    (\<forall>s \<in> set (pl_items p'). current_weight s = 0)"
proof -
  obtain bs items' where run:
    "pool_turns W now p = (map (\<lambda>b. Some (pool_keys p ! b)) bs, p\<lparr>pl_items := items'\<rparr>)"
    "length bs = W" "set bs \<subseteq> {..<length (pl_items p)}" "length items' = length (pl_items p)"
    and cyc: "\<And>i. i < length (pl_items p) \<Longrightarrow>
       int (count_list bs i) = turn_weight p now (pl_items p ! i) \<and> current_weight (items' ! i) = 0"
    using cycle_of_turns [OF assms(3,4,2)] by blast
  have inj: "inj_on (\<lambda>b. Some (pool_keys p ! b)) {..<length (pl_items p)}"
    using nth_eq_iff_index_eq [OF assms(1)] by (simp add: inj_on_def pool_keys_def)
  have "int (count_list (map (\<lambda>b. Some (pool_keys p ! b)) bs) (Some (pi_item s))) = turn_weight p now s"
    if mem: "s \<in> set (pl_items p)" for s
  proof -
    obtain i where i: "i < length (pl_items p)" "s = pl_items p ! i" using mem unfolding in_set_conv_nth by blast
    have "Some (pi_item s) = Some (pool_keys p ! i)" using i by (simp add: pool_keys_def)
    moreover have "count_list (map (\<lambda>b. Some (pool_keys p ! b)) bs) (Some (pool_keys p ! i)) = count_list bs i"
      using run(3) i(1) by (intro count_list_map_inj inj_on_subset [OF inj]) auto
    ultimately show ?thesis using cyc [OF i(1)] i(2) by simp
  qed
  moreover have "\<forall>s \<in> set items'. current_weight s = 0" using cyc run(4) unfolding all_set_conv_all_nth by simp
  moreover have "None \<notin> set (map (\<lambda>b. Some (pool_keys p ! b)) bs)" by auto
  ultimately show ?thesis unfolding run(1) using run(2) by (simp del: set_map list.set_map)
qed

lemma fresh_default_weight:
  assumes "pl_cfg p = DefaultSchedulerConfig" "last_event_at s = None" "successes s = 0" "failures_soft s = 0"
    "failures_hard s = 0" "0 < base_weight s"
  shows "turn_weight p now s = 1000 * base_weight s"
proof -
  have "effectiveRate p s d n = 1" for d n
    using assms by (simp add: effectiveRate_def DefaultSchedulerConfig_def weightedSampleMass_def Let_def)
  moreover have "go_round (real_of_int (base_weight s) * 1000) = 1000 * base_weight s"
  proof -
    have "\<lfloor>real_of_int (1000 * base_weight s) + 1 / 2\<rfloor> = 1000 * base_weight s" by linarith
    then show ?thesis using assms(6) by (simp add: go_round_def mult.commute)
  qed
  ultimately show ?thesis using assms(2,6)
    by (simp add: turn_weight_def selectionWeight_def applyDecay_def)
qed

theorem Next_serves_every_key_witness:
  "\<exists>ks p'. pool_turns 3000 0 (pool_Add ''b'' 2 (pool_Add ''a'' 1 (NewPool 0 0))) = (ks, p') \<and> length ks = 3000 \<and>
     count_list ks (Some ''a'') = 1000 \<and> count_list ks (Some ''b'') = 2000"
proof -
  let ?p = "pool_Add ''b'' 2 (pool_Add ''a'' 1 (NewPool 0 0))"
  have items: "map pi_item (pl_items ?p) = [''a'', ''b'']" "\<forall>s \<in> set (pl_items ?p). current_weight s = 0"
    by (simp_all add: pool_Add_def NewPool_def NewPoolWithConfig_def)
  have w: "map (turn_weight ?p 0) (pl_items ?p) = [1000, 2000]"
    by (simp add: pool_Add_def NewPool_def NewPoolWithConfig_def fresh_default_weight)
  then have sum: "(\<Sum>s \<leftarrow> pl_items ?p. turn_weight ?p 0 s) = int 3000" by simp
  have dist: "distinct (map pi_item (pl_items ?p))" by (simp add: items(1))
  obtain s t where st: "pl_items ?p = [s, t]" by (simp add: pool_Add_def NewPool_def NewPoolWithConfig_def)
  have "pi_item s = ''a''" "pi_item t = ''b''" "turn_weight ?p 0 s = 1000" "turn_weight ?p 0 t = 2000"
    using items(1) w unfolding st by simp_all
  with Next_serves_every_key [OF dist items(2) sum] show ?thesis unfolding st by auto
qed

theorem Next_picks_greatest_witness:
  "fst (pool_Next 0 (pool_Add ''b'' 2 (pool_Add ''a'' 1 (NewPool 0 0)))) = Some ''b''"
proof -
  let ?p = "pool_Add ''b'' 2 (pool_Add ''a'' 1 (NewPool 0 0))"
  let ?w = "\<lambda>s. selectionWeight ?p 0 (applyDecay (recovery_half_life ?p) 0 s)"
  obtain s t where st: "pl_items ?p = [s, t]" "pi_item s = ''a''" "pi_item t = ''b''"
    "current_weight s = 0" "current_weight t = 0" "turn_weight ?p 0 s = 1000" "turn_weight ?p 0 t = 2000"
    by (simp add: pool_Add_def NewPool_def NewPoolWithConfig_def fresh_default_weight)
  then have w: "?w s = 1000" "?w t = 2000" by (simp_all add: turn_weight_def max_def split: if_splits)
  from Next_picks_greatest [of ?w ?p 0, OF refl] show ?thesis
    unfolding st(1) by (cases "fst (pool_Next 0 ?p)") (use st w in auto)
qed

end
