(* ===== verification/Key_Pool_Rates.thy ===== *)
theory Key_Pool_Rates
  imports Key_Pool_State
begin

text \<open>
  The selection rate of the key pool: decay does not depend on how often it is applied, rates of
  reachable pools lie between 0 and 1, and a key that fails without a success on record gets no
  turn at that instant while the pool has other keys.
\<close>

section \<open>Decay\<close>

lemma seconds_diff: "seconds (a - b) + seconds (b - c) = seconds (a - c)"
  by (simp add: seconds_def diff_divide_distrib [symmetric] add_divide_distrib [symmetric])

lemma decay_factor:
  "exp (- ln 2 * seconds (b - c) / h) * exp (- ln 2 * seconds (a - b) / h) = exp (- ln 2 * seconds (a - c) / h)"
proof -
  have "- ln 2 * seconds (b - c) / h + - ln 2 * seconds (a - b) / h = - ln 2 * (seconds (a - b) + seconds (b - c)) / h"
    by (simp add: divide_simps ring_distribs)
  then show ?thesis by (simp only: seconds_diff flip: exp_add)
qed

text \<open>
  Outcome counters decay continuously: applying the decay at an intermediate instant changes nothing
  for a later one.
\<close>

lemma applyDecay_composes:
  assumes "0 \<le> successes s" "0 \<le> failures_soft s" "0 \<le> failures_hard s" "t1 \<le> t2"
  shows "applyDecay h t2 (applyDecay h t1 s) = applyDecay h t2 s"
proof (cases "last_event_at s")
  case None
  then show ?thesis by (simp add: applyDecay_def)
next
  case (Some t0)
  show ?thesis
  proof (cases "t1 \<le> t0 \<or> t1 = t2")
    case True
    then show ?thesis using Some by (auto simp: applyDecay_def Let_def)
  next
    case False
    then have t: "t0 < t1" "t1 < t2" using assms(4) by auto
    have "max 0 (max 0 (x * exp (- ln 2 * seconds (t1 - t0) / seconds h)) * exp (- ln 2 * seconds (t2 - t1) / seconds h)) =
        max 0 (x * exp (- ln 2 * seconds (t2 - t0) / seconds h))" if "0 \<le> x" for x :: real
      using that decay_factor [of t1 t0 "seconds h" t2] by (simp add: mult.assoc)
    with t Some assms(1-3) show ?thesis by (simp add: applyDecay_def Let_def)
  qed
qed

section \<open>Rates lie between 0 and 1\<close>

definition config_sane :: "scheduler_config \<Rightarrow> bool" where
  "config_sane c \<longleftrightarrow> 0 \<le> prior_success_rate c \<and> prior_success_rate c \<le> 1 \<and> 0 \<le> min_probe_rate c \<and> min_probe_rate c \<le> 1 \<and>
     0 \<le> beta_prior_a c \<and> 0 \<le> beta_prior_b c \<and> 0 < beta_prior_a c + beta_prior_b c \<and> 0 \<le> failure_soft_weight c"

abbreviation unit_interval :: "real \<Rightarrow> bool" where
  "unit_interval x \<equiv> 0 \<le> x \<and> x \<le> 1"

lemma convex_unit:
  assumes "unit_interval a" "unit_interval x" "unit_interval y"
  shows "unit_interval ((1 - a) * x + a * y)"
proof -
  have "0 \<le> (1 - a) * x" "0 \<le> a * y" using assms by simp_all
  moreover have "(1 - a) * x \<le> 1 - a" "a * y \<le> a" using assms by (simp_all add: mult_left_le)
  ultimately show ?thesis by linarith
qed

lemma posteriorRho_unit:
  assumes "config_sane c" "0 \<le> s" "0 \<le> soft" "0 \<le> hard"
  shows "unit_interval (posteriorRho c s soft hard)"
proof (cases "use_beta c")
  case True
  have "0 < s + (soft + hard) + beta_prior_a c + beta_prior_b c" using assms by (simp add: config_sane_def)
  moreover have "0 \<le> s + beta_prior_a c" "s + beta_prior_a c \<le> s + (soft + hard) + beta_prior_a c + beta_prior_b c"
    using assms by (simp_all add: config_sane_def)
  ultimately show ?thesis using True by (simp add: posteriorRho_def)
next
  case False
  then show ?thesis using assms by (simp add: posteriorRho_def config_sane_def Let_def)
qed

lemma exp_unit: "0 \<le> x \<Longrightarrow> unit_interval (1 - exp (- x))"
  by simp

lemma probeGate_unit: "unit_interval (probeGate d fb b phi)"
proof -
  have "unit_interval (1 - exp (- seconds x / i))" if "0 \<le> x" "\<not> i \<le> 0" for x :: int and i :: real
  proof -
    have "0 \<le> seconds x / i" using that by (simp add: seconds_def)
    then show ?thesis using exp_unit [of "seconds x / i"] by simp
  qed
  then show ?thesis by (simp add: probeGate_def Let_def del: One_nat_def)
qed

lemma poolSafetyFactor_unit: "unit_interval (poolSafetyFactor c n)"
  by (auto simp: poolSafetyFactor_def Let_def not_le)

lemma effectiveRate_unit:
  assumes c: "config_sane (pl_cfg p)" and s: "item_ok s"
  shows "unit_interval (effectiveRate p s d n)"
proof -
  let ?c = "pl_cfg p"
  let ?rho = "posteriorRho ?c (successes s) (failures_soft s) (failures_hard s)"
  let ?n = "weightedSampleMass ?c (successes s) (failures_soft s) (failures_hard s)"
  let ?tau = "if confidence_tau ?c \<le> 0 then 2 else confidence_tau ?c"
  define alpha where "alpha = 1 - exp (- ?n / ?tau)"
  define shrink where "shrink = (1 - alpha) * prior_success_rate ?c + alpha * ?rho"
  define gate where "gate = probeGate d (failures_hard s + failure_soft_weight ?c * failures_soft s)
    (probe_base_interval p) (probe_failure_scale ?c)"
  define g where "g = gate + (1 - gate) * poolSafetyFactor ?c n"
  have rho: "unit_interval ?rho" using c s by (intro posteriorRho_unit) (simp_all add: item_ok_def)
  have "0 \<le> ?n / ?tau" using c s by (simp add: weightedSampleMass_def item_ok_def config_sane_def)
  then have alpha: "unit_interval alpha" using exp_unit [of "?n / ?tau"] by (simp add: alpha_def)
  have prior: "unit_interval (prior_success_rate ?c)" using c by (simp add: config_sane_def)
  have shrink: "unit_interval shrink" unfolding shrink_def by (rule convex_unit [OF alpha prior rho])
  have gate: "unit_interval gate" unfolding gate_def by (rule probeGate_unit)
  have "unit_interval ((1 - gate) * poolSafetyFactor ?c n + gate * 1)"
    by (rule convex_unit [OF gate poolSafetyFactor_unit]) simp
  then have g: "unit_interval g" by (simp add: g_def)
  have mg: "unit_interval (min_probe_rate ?c * g)" using c g by (simp add: config_sane_def mult_le_one)
  have "unit_interval ((1 - shrink) * (min_probe_rate ?c * g) + shrink * 1)"
    by (rule convex_unit [OF shrink mg]) simp
  moreover have "unit_interval (min_probe_rate ?c * g * (1 - shrink))"
    using mg shrink by (simp add: mult_le_one)
  ultimately show ?thesis
    unfolding effectiveRate_def Let_def alpha_def [symmetric] shrink_def [symmetric] gate_def [symmetric] g_def [symmetric]
    by (simp add: mult.commute add.commute)
qed

lemma go_round_bounds:
  assumes "0 \<le> x" "x \<le> real_of_int m"
  shows "0 \<le> go_round x \<and> go_round x \<le> m"
proof -
  have "0 \<le> \<lfloor>x + 1 / 2\<rfloor>" "\<lfloor>x + 1 / 2\<rfloor> \<le> m" using assms by linarith+
  with assms(1) show ?thesis by (simp add: go_round_def)
qed

lemma selectionWeight_bounds:
  assumes "config_sane (pl_cfg p)" "item_ok s"
  shows "0 \<le> selectionWeight p now s \<and> selectionWeight p now s \<le> 1000 * base_weight s"
proof -
  let ?r = "effectiveRate p s (sinceLastOutcome s now) (length (pl_items p))"
  have r: "unit_interval ?r" by (rule effectiveRate_unit [OF assms])
  have b: "0 < real_of_int (base_weight s)" using assms(2) by (simp add: item_ok_def)
  have "real_of_int (base_weight s) * ?r \<le> real_of_int (base_weight s)" using b r by (simp add: mult_left_le)
  then have "real_of_int (base_weight s) * ?r * 1000 \<le> real_of_int (1000 * base_weight s)" by simp
  moreover have "0 \<le> real_of_int (base_weight s) * ?r * 1000" using b r by simp
  ultimately show ?thesis unfolding selectionWeight_def Let_def by (intro go_round_bounds)
qed

text \<open>
  C34: with the priors and rates of a configuration in their ranges, the effective rate of a key in
  any reachable pool is between 0 and 1, and the weight of a key for the round-robin is between 0
  and a thousand times its base weight.
\<close>

theorem rates_bounded:
  assumes "pool_reach cfg p" "s \<in> set (pl_items p)"
    and "0 \<le> prior_success_rate cfg" "prior_success_rate cfg \<le> 1" "0 \<le> min_probe_rate cfg" "min_probe_rate cfg \<le> 1"
    and "0 \<le> beta_prior_a cfg" "0 \<le> beta_prior_b cfg" "0 < beta_prior_a cfg + beta_prior_b cfg" "0 \<le> failure_soft_weight cfg"
  shows "0 \<le> effectiveRate p s d n \<and> effectiveRate p s d n \<le> 1 \<and>
    0 \<le> selectionWeight p now s \<and> selectionWeight p now s \<le> 1000 * base_weight s"
proof -
  have "config_sane (pl_cfg p)" "item_ok s"
    using reach_ok [OF assms(1)] assms(2-) by (auto simp: config_sane_def pool_ok_def)
  then show ?thesis using effectiveRate_unit selectionWeight_bounds by blast
qed

theorem rates_bounded_witness:
  "\<exists>p s. p = RecordFailure 7 ''k'' (pool_Add ''k'' 2 (NewPool 0 0)) \<and> pl_items p = [s] \<and>
     0 \<le> selectionWeight p 9 s \<and> selectionWeight p 9 s \<le> 2000"
proof -
  let ?p = "RecordFailure 7 ''k'' (pool_Add ''k'' 2 (NewPool 0 0))"
  have reach: "pool_reach DefaultSchedulerConfig ?p" unfolding NewPool_def by (intro pool_reach.intros)
  obtain s where s: "pl_items ?p = [s]" "base_weight s = 2"
    by (simp add: RecordFailure_def pool_upd_def pool_Add_def NewPool_def NewPoolWithConfig_def note_failure_def applyDecay_def)
  then have "0 \<le> selectionWeight ?p 9 s \<and> selectionWeight ?p 9 s \<le> 2000"
    using rates_bounded [OF reach, of s, where now = 9] by (simp add: DefaultSchedulerConfig_def)
  with s(1) show ?thesis by blast
qed

section \<open>Hard failures\<close>

lemma decay_now: "last_event_at s = Some now \<Longrightarrow> applyDecay h now s = s"
  by (simp add: applyDecay_def)

lemma hard_fail_rate:
  assumes "probe_only_hard_fail (pl_cfg p)" "\<not> multi_key_epsilon (pl_cfg p)" "1 < n" "0 < probe_base_interval p"
    and "successes s \<le> 1 / 10 ^ 9" "1 \<le> failures_hard s"
  shows "effectiveRate p s 0 n = 0"
proof -
  have "0 < seconds (probe_base_interval p) * exp x" for x using assms(4) by (simp add: seconds_def)
  then have "probeGate 0 fb (probe_base_interval p) phi = 0" for fb phi
    using assms(4) by (simp add: probeGate_def Let_def seconds_def not_le)
  moreover have "poolSafetyFactor (pl_cfg p) n = 0" using assms(2,3) by (simp add: poolSafetyFactor_def)
  ultimately show ?thesis using assms by (simp add: effectiveRate_def Let_def)
qed

text \<open>
  C35: a key that fails with no success on record is not handed out again at that instant, as long
  as the pool has another key and probing is limited to the defaults (hard failures only, no
  safety share for pools of several keys).
\<close>

theorem failed_key_is_passed_over:
  assumes "pool_reach cfg p" "distinct (map pi_item (pl_items p))" "1 < length (pl_items p)"
    and "probe_only_hard_fail cfg" "\<not> multi_key_epsilon cfg" "0 < probe_base_interval p"
    and "s \<in> set (pl_items p)" "successes (applyDecay (recovery_half_life p) now s) \<le> 1 / 10 ^ 9"
  shows "fst (pool_Next now (RecordFailure now (pi_item s) p)) \<noteq> Some (pi_item s)"
proof
  let ?k = "pi_item s" and ?h = "recovery_half_life p"
  let ?q = "RecordFailure now ?k p"
  assume picked: "fst (pool_Next now ?q) = Some ?k"
  have ok: "pool_ok p" "pl_cfg p = cfg" using reach_ok [OF assms(1)] by simp_all
  have "?k \<in> dom (pl_by_key p)" using ok(1) assms(7) by (simp add: pool_ok_def index_ok_def pool_keys_def)
  then obtain i where i: "pl_by_key p ?k = Some i" "i < length (pl_items p)" "pi_item (pl_items p ! i) = ?k"
    using pool_ok_index [OF ok(1)] by blast
  have s: "s = pl_items p ! i" using assms(2,7) i(2,3) by (simp add: distinct_map inj_on_def)
  have items: "pl_items ?q = (pl_items p)[i := note_failure ?h now s]" and len: "length (pl_items ?q) = length (pl_items p)"
    and fields: "recovery_half_life ?q = ?h" "pl_cfg ?q = cfg" "probe_base_interval ?q = probe_base_interval p"
    using i(1) s ok(2) by (simp_all add: RecordFailure_def pool_upd_def)
  let ?w = "\<lambda>t. selectionWeight ?q now (applyDecay (recovery_half_life ?q) now t)"
  obtain t where t: "t \<in> set (pl_items ?q)" "pi_item t = ?k" "0 < ?w t"
    using Next_greatest [of ?w ?q now, OF refl] picked by auto
  obtain j where j: "j < length (pl_items p)" "t = pl_items ?q ! j"
    using t(1) len unfolding in_set_conv_nth by auto
  have "j = i"
  proof (rule ccontr)
    assume "j \<noteq> i"
    then have "pi_item (pl_items p ! j) = pi_item (pl_items p ! i)" using j(2) items i(3) t(2) by simp
    with nth_eq_iff_index_eq [OF assms(2), of j i] j(1) i(2) \<open>j \<noteq> i\<close> show False by simp
  qed
  then have tf: "t = note_failure ?h now s" using j i(2) items by simp
  have "0 \<le> failures_hard (applyDecay ?h now s)"
    using ok(1) assms(7) item_ok_decay [of s ?h now] by (auto simp: pool_ok_def item_ok_def)
  then have hard: "successes t \<le> 1 / 10 ^ 9" "1 \<le> failures_hard t" "last_outcome_at t = Some now" "applyDecay ?h now t = t"
    unfolding tf using assms(8) by (simp_all add: note_failure_def decay_now Let_def not_less)
  have "effectiveRate ?q t 0 (length (pl_items ?q)) = 0"
    using assms(3-6) hard len fields by (intro hard_fail_rate) simp_all
  then have "?w t = 0"
    using hard fields by (simp add: selectionWeight_def sinceLastOutcome_def go_round_def)
  with t(3) show False by simp
qed

theorem failed_key_is_passed_over_witness:
  "fst (pool_Next 5 (RecordFailure 5 ''a'' (pool_Add ''b'' 1 (pool_Add ''a'' 1 (NewPool 0 second))))) \<noteq> Some ''a''"
proof -
  let ?p = "pool_Add ''b'' 1 (pool_Add ''a'' 1 (NewPool 0 second)) :: string pool"
  have reach: "pool_reach DefaultSchedulerConfig ?p" unfolding NewPool_def by (intro pool_reach.intros)
  obtain s t where st: "pl_items ?p = [s, t]" "pi_item s = ''a''" "pi_item t = ''b''" "successes s = 0" "last_event_at s = None"
    by (simp add: pool_Add_def NewPool_def NewPoolWithConfig_def)
  have "0 < probe_base_interval ?p" by (simp add: pool_Add_def NewPool_def NewPoolWithConfig_def second_def)
  with failed_key_is_passed_over [OF reach, of s 5] st show ?thesis
    by (simp add: DefaultSchedulerConfig_def applyDecay_def)
qed

end
