(* ===== verification/Amap_Provider.thy ===== *)
theory Amap_Provider
  imports Route_Types Key_Attempts Key_Pool_Rates
begin

text \<open>
  \<open>internal/provider/amap.go\<close>: the driving provider. Outside the program and parameters here:
  the HTTP exchange (\<open>'w amap_http\<close>, from base URL and query to a transport error or a status code
  with the decoded body or a decoding error), the clock \<open>now\<close>, and the conversion
  \<open>cast.To[float32]\<close> of the decimal strings in a response. The textual form of the URL is not
  modelled: the query is a record of its parameters. HTTP timeouts are transport errors.
\<close>

section \<open>Configuration\<close>

record amap_config =
  ac_enabled :: bool
  ac_keys :: string
  ac_base_url :: string
  ac_batch_size :: int
  ac_timeout_sec :: int
  ac_key_recovery_sec :: int
  ac_key_probe_sec :: int
  ac_confidence_tau :: real
  ac_beta_prior_a :: real
  ac_beta_prior_b :: real
  ac_failure_soft_weight :: real
  ac_epsilon_scale :: real
  ac_min_probe_rate :: real

definition schedulerConfigFromAmap :: "amap_config \<Rightarrow> scheduler_config" where
  "schedulerConfigFromAmap cfg =
     (let c0 = DefaultSchedulerConfig;
          c1 = (if ac_confidence_tau cfg > 0 then c0\<lparr>confidence_tau := ac_confidence_tau cfg\<rparr> else c0);
          c2 = (if ac_beta_prior_a cfg > 0 then c1\<lparr>beta_prior_a := ac_beta_prior_a cfg\<rparr> else c1);
          c3 = (if ac_beta_prior_b cfg > 0 then c2\<lparr>beta_prior_b := ac_beta_prior_b cfg\<rparr> else c2);
          c4 = (if ac_failure_soft_weight cfg > 0 then c3\<lparr>failure_soft_weight := ac_failure_soft_weight cfg\<rparr> else c3);
          c5 = (if ac_epsilon_scale cfg > 0 then c4\<lparr>epsilon_scale := ac_epsilon_scale cfg\<rparr> else c4)
      in if ac_min_probe_rate cfg > 0 then c5\<lparr>min_probe_rate := ac_min_probe_rate cfg\<rparr> else c5)"

record amap_provider =
  am_cfg :: amap_config
  am_pool :: "string pool"

definition reloadKeys :: "amap_provider \<Rightarrow> amap_provider" where
  "reloadKeys p =
     p\<lparr>am_pool := fold (\<lambda>k0 lb. let k = TrimSpace k0 in if k \<noteq> '''' then pool_Add k 1 lb else lb)
        (Split CHR '','' (ac_keys (am_cfg p))) (pool_RemoveAll (am_pool p))\<rparr>"

definition NewAmapProvider :: "amap_config \<Rightarrow> amap_provider" where
  "NewAmapProvider cfg0 =
     (let cfg1 = (if ac_base_url cfg0 = '''' then cfg0\<lparr>ac_base_url := ''http://restapi.amap.com''\<rparr> else cfg0);
          cfg = (if ac_timeout_sec cfg1 \<le> 0 then cfg1\<lparr>ac_timeout_sec := 2\<rparr> else cfg1)
      in reloadKeys \<lparr>am_cfg = cfg,
           am_pool = NewPoolWithConfig (ac_key_recovery_sec cfg * second) (ac_key_probe_sec cfg * second)
             (schedulerConfigFromAmap cfg)\<rparr>)"

definition amap_Name :: string where "amap_Name = ''amap''"

text \<open>\<open>len(p.lb.All())\<close> is the number of distinct keys.\<close>

definition amap_Ready :: "amap_provider \<Rightarrow> bool" where
  "amap_Ready p \<longleftrightarrow> ac_enabled (am_cfg p) \<and> length (remdups (map pi_item (pl_items (am_pool p)))) > 0"

definition strategyCode :: "int \<Rightarrow> string" where
  "strategyCode s =
     (case map_of [(Strategy_Default, ''11''), (ShortestDistance, ''12''), (AvoidCongestion, ''1''), (UnWalkFastRoute, ''2'')] s of
        Some v \<Rightarrow> v
      | None \<Rightarrow> ''11'')"

definition allKeys :: "int \<Rightarrow> amap_provider \<Rightarrow> string list \<times> amap_provider" where
  "allKeys now p = (let (items, lb) = ActiveItems now (am_pool p) in (items, p\<lparr>am_pool := lb\<rparr>))"

section \<open>Responses\<close>

text \<open>\<open>assistant_action\<close> is any JSON value; \<open>None\<close> when it is not a string.\<close>

record amap_step =
  as_distance :: string
  as_duration :: string
  as_polyline :: string
  assistant_action :: "string option"

record amap_path =
  ap_distance :: string
  ap_duration :: string
  ap_steps :: "amap_step list"

record amap_response =
  ar_status :: string
  ar_info :: string
  ar_infocode :: string
  ar_paths :: "amap_path list"

text \<open>The two literals of \<open>toResult\<close> ("reached a waypoint", "reached the destination") in UTF-8.\<close>

definition reached_waypoint :: string where
  "reached_waypoint = map char_of [0xE5, 0x88, 0xB0, 0xE8, 0xBE, 0xBE, 0xE9, 0x80, 0x94, 0xE7, 0xBB, 0x8F, 0xE5, 0x9C, 0xB0 :: nat]"

definition reached_destination :: string where
  "reached_destination = map char_of [0xE5, 0x88, 0xB0, 0xE8, 0xBE, 0xBE, 0xE7, 0x9B, 0xAE, 0xE7, 0x9A, 0x84, 0xE5, 0x9C, 0xB0 :: nat]"

definition arrival :: "amap_step \<Rightarrow> bool" where
  "arrival k \<longleftrightarrow> (case assistant_action k of
      Some v \<Rightarrow> geo_In v [reached_waypoint, reached_destination] | None \<Rightarrow> False)"

definition result_step :: "(string \<Rightarrow> real) \<Rightarrow> coord list \<Rightarrow> amap_step \<Rightarrow> int \<times> step list \<Rightarrow> int \<times> step list" where
  "result_step cast waypoints k = (\<lambda>(checkPoint, steps).
     let cur = (if arrival k then 1 else 0);
         steps' = (if checkPoint * (checkPoint OR cur) = 0 \<and> length steps > 0
                   then steps[length steps - 1 := (steps ! (length steps - 1))\<lparr>
                       st_distance := st_distance (steps ! (length steps - 1)) + cast (as_distance k),
                       st_duration := st_duration (steps ! (length steps - 1)) + cast (as_duration k)\<rparr>]
                   else if length steps + 1 < length waypoints
                   then steps @ [\<lparr>st_origin = waypoints ! length steps, st_destination = waypoints ! (length steps + 1),
                       st_distance = cast (as_distance k), st_duration = cast (as_duration k),
                       st_polyline = as_polyline k, st_source = SourceProvider\<rparr>]
                   else steps)
     in (cur, steps'))"

definition toResult :: "(string \<Rightarrow> real) \<Rightarrow> amap_response \<Rightarrow> coord list \<Rightarrow> route_result option" where
  "toResult cast r waypoints = do {
     path \<leftarrow> slice_get (ar_paths r) 0;
     let steps = snd (fold (result_step cast waypoints) (ap_steps path) (1, []));
     Some \<lparr>rr_steps = steps, rr_distance = cast (ap_distance path), rr_duration = cast (ap_duration path),
       rr_source = SourceProvider, rr_degraded = False\<rparr> }"

section \<open>One request\<close>

record amap_query =
  q_key :: string
  q_origin :: coord
  q_destination :: coord
  q_waypoints :: "coord list"
  q_strategy :: string
  q_output :: string

datatype amap_error =
    TransportError string
  | HttpStatus nat
  | DecodeError string
  | ApiError string string
  | RouteCancelled

type_synonym 'w amap_http = "string \<Rightarrow> amap_query \<Rightarrow> 'w \<Rightarrow> (string + nat \<times> (string + amap_response)) \<times> 'w"

text \<open>The slice expressions need two waypoints, which \<open>Route\<close> has checked.\<close>

definition amap_query_of :: "string \<Rightarrow> route_request \<Rightarrow> amap_query" where
  "amap_query_of key req =
     (let wps = rq_waypoints req in
      \<lparr>q_key = key, q_origin = wps ! 0, q_destination = wps ! (length wps - 1),
       q_waypoints = take (length wps - 2) (drop 1 wps), q_strategy = strategyCode (rq_strategy req), q_output = ''json''\<rparr>)"

definition doRequest :: "'w amap_http \<Rightarrow> (string \<Rightarrow> real) \<Rightarrow> amap_config \<Rightarrow> string \<Rightarrow> route_request \<Rightarrow> 'w \<Rightarrow>
    (amap_error + route_result) \<times> 'w" where
  "doRequest http cast cfg key req w =
     (case http (ac_base_url cfg) (amap_query_of key req) w of
        (Inl e, w') \<Rightarrow> (Inl (TransportError e), w')
      | (Inr (status, body), w') \<Rightarrow>
          if status \<noteq> 200 then (Inl (HttpStatus status), w')
          else (case body of
             Inl e \<Rightarrow> (Inl (DecodeError e), w')
           | Inr v \<Rightarrow>
               if ar_status v \<noteq> ''1'' \<or> length (ar_paths v) = 0 then (Inl (ApiError (ar_infocode v) (ar_info v)), w')
               else (case toResult cast v (rq_waypoints req) of
                  Some res \<Rightarrow> (Inr res, w')
                | None \<Rightarrow> (Inl (ApiError (ar_infocode v) (ar_info v)), w'))))"

section \<open>Fallback\<close>

definition fallback_step :: "(real \<Rightarrow> real) \<Rightarrow> real \<Rightarrow> coord \<Rightarrow> coord \<Rightarrow> step" where
  "fallback_step f32 speed a b =
     (let d = geo_Distance f32 (fst a) (snd a) (fst b) (snd b) * 1.5
      in \<lparr>st_origin = a, st_destination = b, st_distance = d, st_duration = d / speed,
          st_polyline = '''', st_source = SourceFallback\<rparr>)"

definition fallbackRoute :: "(real \<Rightarrow> real) \<Rightarrow> route_request \<Rightarrow> route_result" where
  "fallbackRoute f32 req =
     (let speed = real_of_int (geo_Max (rq_speed req) 7);
          steps = map (\<lambda>(a, b). fallback_step f32 speed a b) (legs_of (rq_waypoints req))
      in \<lparr>rr_steps = steps, rr_distance = sum_list (map st_distance steps), rr_duration = sum_list (map st_duration steps),
          rr_source = SourceFallback, rr_degraded = True\<rparr>)"

section \<open>Route\<close>

text \<open>The operations of the retry loop on a state of a pool and the outside world.\<close>

definition pool_nxt :: "('w \<Rightarrow> int) \<Rightarrow> string pool \<times> 'w \<Rightarrow> string \<times> (string pool \<times> 'w)" where
  "pool_nxt now = (\<lambda>(lb, w). case pool_Next (now w) lb of
     (k, lb') \<Rightarrow> (case k of Some key \<Rightarrow> key | None \<Rightarrow> '''', (lb', w)))"

definition pool_good :: "('w \<Rightarrow> int) \<Rightarrow> string \<Rightarrow> string pool \<times> 'w \<Rightarrow> string pool \<times> 'w" where
  "pool_good now key = (\<lambda>(lb, w). (RecordSuccess (now w) key lb, w))"

definition pool_bad :: "('w \<Rightarrow> int) \<Rightarrow> string \<Rightarrow> string pool \<times> 'w \<Rightarrow> string pool \<times> 'w" where
  "pool_bad now key = (\<lambda>(lb, w). (RecordFailure (now w) key lb, w))"

definition pool_request :: "'w amap_http \<Rightarrow> (string \<Rightarrow> real) \<Rightarrow> amap_config \<Rightarrow> route_request \<Rightarrow> string \<Rightarrow>
    string pool \<times> 'w \<Rightarrow> (amap_error + route_result) \<times> (string pool \<times> 'w)" where
  "pool_request http cast cfg req key = (\<lambda>(lb, w). case doRequest http cast cfg key req w of (r, w') \<Rightarrow> (r, (lb, w')))"

definition amap_Route :: "'w amap_http \<Rightarrow> (string \<Rightarrow> real) \<Rightarrow> (real \<Rightarrow> real) \<Rightarrow> ('w \<Rightarrow> int) \<Rightarrow> route_request \<Rightarrow>
    amap_provider \<times> 'w \<Rightarrow> (amap_error + route_result) \<times> (amap_provider \<times> 'w)" where
  "amap_Route http cast f32 now req = (\<lambda>(p, w).
     if length (rq_waypoints req) < 2 then (Inr empty_result, (p, w))
     else if \<not> amap_Ready p then (Inr (fallbackRoute f32 req), (p, w))
     else let attempts = pool_Len (am_pool p) in
       if attempts = 0 then (Inr (fallbackRoute f32 req), (p, w))
       else (case try_keys (pool_nxt now) (pool_request http cast (am_cfg p) req) (pool_good now) (pool_bad now)
                    attempts [] (am_pool p, w) of
               (Some res, (lb, w')) \<Rightarrow> (Inr res, (p\<lparr>am_pool := lb\<rparr>, w'))
             | (None, (lb, w')) \<Rightarrow> (Inr (fallbackRoute f32 req), (p\<lparr>am_pool := lb\<rparr>, w'))))"

section \<open>Steps of a response\<close>

text \<open>The raw steps of a response up to and including each arrival belong to one leg of the route.\<close>

fun segments :: "('a \<Rightarrow> bool) \<Rightarrow> 'a list \<Rightarrow> 'a list list" where
  "segments P [] = []"
| "segments P (x # xs) =
     (if P x then [x] # segments P xs
      else case segments P xs of [] \<Rightarrow> [[x]] | g # gs \<Rightarrow> (x # g) # gs)"

lemma segments_eq_Nil [simp]: "segments P xs = [] \<longleftrightarrow> xs = []"
  by (cases xs) (auto split: list.split)

lemma segments_snoc:
  "segments P (xs @ [x]) =
    (if xs = [] \<or> P (last xs) then segments P xs @ [[x]]
     else butlast (segments P xs) @ [last (segments P xs) @ [x]])"
proof (induction xs)
  case (Cons y xs)
  then show ?case by (cases "segments P xs") (auto split: list.split)
qed simp

definition leg_step :: "(string \<Rightarrow> real) \<Rightarrow> coord list \<Rightarrow> nat \<Rightarrow> amap_step list \<Rightarrow> step" where
  "leg_step cast wps i g =
     \<lparr>st_origin = wps ! i, st_destination = wps ! Suc i, st_distance = (\<Sum>k \<leftarrow> g. cast (as_distance k)),
      st_duration = (\<Sum>k \<leftarrow> g. cast (as_duration k)), st_polyline = as_polyline (hd g), st_source = SourceProvider\<rparr>"

definition leg_steps :: "(string \<Rightarrow> real) \<Rightarrow> coord list \<Rightarrow> amap_step list list \<Rightarrow> step list" where
  "leg_steps cast wps gs = map (\<lambda>i. leg_step cast wps i (gs ! i)) [0..<length gs]"

lemma leg_steps_snoc: "leg_steps cast wps (gs @ [g]) = leg_steps cast wps gs @ [leg_step cast wps (length gs) g]"
  by (simp add: leg_steps_def nth_append)

lemma leg_step_snoc: "g \<noteq> [] \<Longrightarrow> leg_step cast wps i (g @ [k]) = (leg_step cast wps i g)\<lparr>
    st_distance := st_distance (leg_step cast wps i g) + cast (as_distance k),
    st_duration := st_duration (leg_step cast wps i g) + cast (as_duration k)\<rparr>"
  by (simp add: leg_step_def)

abbreviation raw_steps :: "(string \<Rightarrow> real) \<Rightarrow> coord list \<Rightarrow> amap_step list \<Rightarrow> int \<times> step list" where
  "raw_steps cast wps ks \<equiv> fold (result_step cast wps) ks (1, [])"

lemma segments_nonempty: "g \<in> set (segments P xs) \<Longrightarrow> g \<noteq> []"
  by (induction P xs arbitrary: g rule: segments.induct) (auto split: if_splits list.splits)

lemma result_step_opens:
  "length steps + 1 < length wps \<Longrightarrow> result_step cast wps k (1, steps) =
     (if arrival k then 1 else 0, steps @ [leg_step cast wps (length steps) [k]])"
  by (simp add: result_step_def leg_step_def)

lemma result_step_adds:
  "result_step cast wps k (0, steps @ [s]) = (if arrival k then 1 else 0, steps @ [s\<lparr>
     st_distance := st_distance s + cast (as_distance k), st_duration := st_duration s + cast (as_duration k)\<rparr>])"
  by (simp add: result_step_def)

lemma length_leg_steps [simp]: "length (leg_steps cast wps gs) = length gs"
  by (simp add: leg_steps_def)

lemma raw_steps_segments:
  "length (segments arrival ks) < length wps \<or> ks = [] \<Longrightarrow>
   raw_steps cast wps ks = (if ks = [] \<or> arrival (last ks) then 1 else 0, leg_steps cast wps (segments arrival ks))"
proof (induction ks rule: rev_induct)
  case Nil
  then show ?case by (simp add: leg_steps_def)
next
  case (snoc k ks)
  let ?gs = "segments arrival ks"
  have "length ?gs \<le> length (segments arrival (ks @ [k]))" by (auto simp: segments_snoc)
  then have IH: "raw_steps cast wps ks = (if ks = [] \<or> arrival (last ks) then 1 else 0, leg_steps cast wps ?gs)"
    using snoc by auto
  show ?case
  proof (cases "ks = [] \<or> arrival (last ks)")
    case True
    then have "raw_steps cast wps ks = (1, leg_steps cast wps ?gs)" using IH by simp
    moreover have "length ?gs + 1 < length wps" using snoc.prems True by (auto simp: segments_snoc)
    ultimately show ?thesis using True by (simp add: result_step_opens segments_snoc leg_steps_snoc)
  next
    case False
    then have "?gs \<noteq> []" by simp
    then obtain fs g where gs: "?gs = fs @ [g]" by (metis rev_exhaust)
    then have "g \<noteq> []" using segments_nonempty [of g arrival ks] by simp
    moreover have "raw_steps cast wps ks = (0, leg_steps cast wps fs @ [leg_step cast wps (length fs) g])"
      using IH False gs by (simp add: leg_steps_snoc)
    ultimately show ?thesis using False gs
      by (simp add: result_step_adds segments_snoc leg_steps_snoc leg_step_snoc)
  qed
qed

lemma result_step_follows:
  assumes "follows_legs wps (snd st)"
  shows "follows_legs wps (snd (result_step cast wps k st))"
proof -
  obtain c steps where st: "st = (c, steps)" by force
  let ?s = "steps ! (length steps - 1)"
  have "follows_legs wps (steps[length steps - 1 := ?s\<lparr>st_distance := d, st_duration := t\<rparr>])" for d t
    using assms st by (intro follows_legs_upd) (simp_all add: step_ends_def)
  moreover have "follows_legs wps (steps @ [\<lparr>st_origin = wps ! length steps, st_destination = wps ! (length steps + 1),
      st_distance = d, st_duration = t, st_polyline = p, st_source = SourceProvider\<rparr>])"
    if "length steps + 1 < length wps" for d t p
    using assms st that by (intro follows_legs_snoc) (simp_all add: step_ends_def)
  ultimately show ?thesis using assms by (cases "steps = []") (simp_all add: st result_step_def Let_def)
qed

lemma raw_steps_follow: "follows_legs wps (snd (fold (result_step cast wps) ks st))" if "follows_legs wps (snd st)"
  using that by (induction ks arbitrary: st) (simp_all add: result_step_follows)

lemma toResult_follows: "toResult cast r wps = Some res \<Longrightarrow> follows_legs wps (rr_steps res)"
  using raw_steps_follow [of wps "(1, [])"] by (auto simp: toResult_def follows_legs_def bind_eq_Some_conv Let_def)

lemma doRequest_follows: "doRequest http cast cfg key req w = (Inr res, w') \<Longrightarrow> follows_legs (rq_waypoints req) (rr_steps res)"
  by (auto simp: doRequest_def toResult_follows split: prod.splits sum.splits if_splits option.splits)

lemma fallback_follows: "follows_legs (rq_waypoints req) (rr_steps (fallbackRoute f32 req))"
  and fallback_length: "length (rr_steps (fallbackRoute f32 req)) = length (rq_waypoints req) - 1"
  and fallback_source: "s \<in> set (rr_steps (fallbackRoute f32 req)) \<Longrightarrow> st_source s = SourceFallback"
  by (auto simp: follows_legs_def fallbackRoute_def fallback_step_def step_ends_def Let_def comp_def split_def)

section \<open>The key pool as a key source\<close>

text \<open>An observer of the HTTP exchange: the keys of the requests in order, beside the world.\<close>

definition logged :: "'w amap_http \<Rightarrow> (string list \<times> 'w) amap_http" where
  "logged http base q = (\<lambda>(ks, w). case http base q w of (r, w') \<Rightarrow> (r, (ks @ [q_key q], w')))"

lemma RecordSuccess_items: "map pi_item (pl_items (RecordSuccess t k p)) = map pi_item (pl_items p)"
  and RecordFailure_items: "map pi_item (pl_items (RecordFailure t k p)) = map pi_item (pl_items p)"
proof -
  have "map pi_item ((pl_items p)[i := f (pl_items p ! i)]) = map pi_item (pl_items p)"
    if "\<And>s. pi_item (f s) = pi_item s" for i :: nat and f
    by (cases "i < length (pl_items p)") (simp_all add: map_update that list_update_beyond list_update_same_conv)
  then show "map pi_item (pl_items (RecordSuccess t k p)) = map pi_item (pl_items p)"
    "map pi_item (pl_items (RecordFailure t k p)) = map pi_item (pl_items p)"
    by (simp_all add: RecordSuccess_def RecordFailure_def pool_upd_def split: option.split)
qed

lemma Next_items: "map pi_item (pl_items (snd (pool_Next t p))) = map pi_item (pl_items p)"
  using Next_cases [of t p] by (auto simp: turn_items(1) comp_def)

lemma Next_member: "fst (pool_Next t p) = Some k \<Longrightarrow> k \<in> set (map pi_item (pl_items p))"
  using Next_greatest [of _ p t, OF refl] by force

definition loop_keys :: "string pool \<times> 'w \<Rightarrow> string set" where
  "loop_keys s = set (map pi_item (pl_items (fst s)))"

lemma pool_nxt_state:
  "fst (snd (pool_nxt now s)) = snd (pool_Next (now (snd s)) (fst s))" "snd (snd (pool_nxt now s)) = snd s"
  "fst (pool_nxt now s) = (case fst (pool_Next (now (snd s)) (fst s)) of Some k \<Rightarrow> k | None \<Rightarrow> '''')"
  by (simp_all add: pool_nxt_def split_def)

lemma pool_report_state:
  "fst (pool_good now k s) = RecordSuccess (now (snd s)) k (fst s)" "snd (pool_good now k s) = snd s"
  "fst (pool_bad now k s) = RecordFailure (now (snd s)) k (fst s)" "snd (pool_bad now k s) = snd s"
  by (simp_all add: pool_good_def pool_bad_def split_def)

lemma doRequest_log: "fst (snd (doRequest (logged http) cast cfg key req w)) = fst w @ [key]"
  by (simp add: doRequest_def logged_def amap_query_of_def Let_def split_def split: sum.split option.split)

lemma pool_request_state:
  "fst (snd (pool_request http cast cfg req k s)) = fst s"
  "snd (snd (pool_request http cast cfg req k s)) = snd (doRequest http cast cfg k req (snd s))"
  by (simp_all add: pool_request_def split_def)

interpretation amap_keys: key_source
  "pool_nxt now" "pool_request (logged http) cast cfg req" "pool_good now" "pool_bad now"
  loop_keys "\<lambda>s. fst (snd s)" "\<lambda>s. pool_ok (fst s)"
  for now http cast cfg req
  by unfold_locales
    (auto simp: loop_keys_def pool_nxt_state pool_report_state pool_request_state doRequest_log Next_items
      RecordSuccess_items RecordFailure_items Next_ok RecordSuccess_ok RecordFailure_ok
      simp del: set_map list.set_map dest: Next_member split: option.splits)

section \<open>Route\<close>

lemma doRequest_result:
  "doRequest http cast cfg key req w = (Inr res, w') \<Longrightarrow> follows_legs (rq_waypoints req) (rr_steps res) \<and> \<not> rr_degraded res"
  using doRequest_follows [of http cast cfg key req w res w']
  by (auto simp: doRequest_def toResult_def bind_eq_Some_conv Let_def split: prod.splits sum.splits if_splits option.splits)

lemma pool_request_result:
  "pool_request http cast cfg req k s = (Inr res, s') \<Longrightarrow> follows_legs (rq_waypoints req) (rr_steps res) \<and> \<not> rr_degraded res"
  by (auto simp: pool_request_def split: prod.splits dest: doRequest_result)

abbreviation route_loop where
  "route_loop http cast now req p w \<equiv> try_keys (pool_nxt now) (pool_request http cast (am_cfg p) req) (pool_good now) (pool_bad now)
     (pool_Len (am_pool p)) [] (am_pool p, w)"

lemma Route_cases:
  obtains (short) "length (rq_waypoints req) < 2" "amap_Route http cast f32 now req (p, w) = (Inr empty_result, (p, w))"
  | (closed) "amap_Route http cast f32 now req (p, w) = (Inr (fallbackRoute f32 req), (p, w))"
  | (served) res lb w' where "route_loop http cast now req p w = (Some res, (lb, w'))"
      "amap_Route http cast f32 now req (p, w) = (Inr res, (p\<lparr>am_pool := lb\<rparr>, w'))"
  | (failed) lb w' where "route_loop http cast now req p w = (None, (lb, w'))"
      "amap_Route http cast f32 now req (p, w) = (Inr (fallbackRoute f32 req), (p\<lparr>am_pool := lb\<rparr>, w'))"
proof -
  obtain out lb w' where loop: "route_loop http cast now req p w = (out, (lb, w'))" by (metis surj_pair)
  show thesis
  proof (cases "length (rq_waypoints req) < 2")
    case True
    then show thesis using short by (simp add: amap_Route_def)
  next
    case long: False
    show thesis
    proof (cases "amap_Ready p \<and> pool_Len (am_pool p) \<noteq> 0")
      case False
      then show thesis using closed long by (auto simp: amap_Route_def)
    next
      case True
      then show thesis using served failed loop long by (cases out) (simp_all add: amap_Route_def)
    qed
  qed
qed

text \<open>\<open>Route\<close> returns no error, and what it returns follows the legs of the request.\<close>

lemma Route_returns:
  obtains res where "fst (amap_Route http cast f32 now req s) = Inr res"
    "follows_legs (rq_waypoints req) (rr_steps res)"
    "rr_degraded res \<Longrightarrow> res = fallbackRoute f32 req"
proof -
  obtain p w where s: "s = (p, w)" by force
  from Route_cases [of req http cast f32 now p w] show thesis
  proof cases
    case short
    then show thesis using that [of empty_result] by (simp add: s empty_result_def follows_legs_def)
  next
    case closed
    then show thesis using that [of "fallbackRoute f32 req"] fallback_follows by (simp add: s)
  next
    case (served res lb w')
    have loop: "fst (route_loop http cast now req p w) = Some res" by (simp add: served(1))
    have "follows_legs (rq_waypoints req) (rr_steps res) \<and> \<not> rr_degraded res"
      by (rule try_keys_result [OF pool_request_result loop])
    then show thesis using that [of res] served(2) by (simp add: s)
  next
    case (failed lb w')
    then show thesis using that [of "fallbackRoute f32 req"] fallback_follows by (simp add: s)
  qed
qed

lemma Route_log:
  assumes "pool_ok (am_pool p)"
  obtains ks p' w' where "snd (amap_Route (logged http) cast f32 now req (p, (ks0, w))) = (p', (ks0 @ ks, w'))"
    "distinct ks" "set ks \<subseteq> set (map pi_item (pl_items (am_pool p)))" "length ks \<le> pool_Len (am_pool p)" "pool_ok (am_pool p')"
proof -
  let ?L = "route_loop (logged http) cast now req p (ks0, w)"
  obtain out lb w' where loop: "?L = (out, (lb, w'))" by (metis surj_pair)
  obtain ks where ks: "amap_keys.attempts_done (pool_Len (am_pool p)) [] (am_pool p, (ks0, w)) ks ?L"
    using amap_keys.attempt_trace [where s = "(am_pool p, (ks0, w))" and n = "pool_Len (am_pool p)" and tried = "[]"
        and now = now and http = http and cast = cast and cfg = "am_cfg p" and req = req] assms by auto
  then have fin: "fst w' = ks0 @ ks" "distinct ks" "set ks \<subseteq> set (map pi_item (pl_items (am_pool p)))"
    "length ks \<le> pool_Len (am_pool p)" "pool_ok lb"
    unfolding loop amap_keys.attempts_done_def by (simp_all add: loop_keys_def)
  obtain v where w': "w' = (ks0 @ ks, v)" using fin(1) by (cases w') simp
  from Route_cases [of req "logged http" cast f32 now p "(ks0, w)"] show thesis
  proof cases
    case (served res lb' w'')
    then show thesis using that [of "p\<lparr>am_pool := lb\<rparr>" ks v] fin loop w' by simp
  next
    case (failed lb' w'')
    then show thesis using that [of "p\<lparr>am_pool := lb\<rparr>" ks v] fin loop w' by simp
  qed (use that [of p "[]" w] assms in simp_all)
qed

interpretation amap: route_provider "amap_Route http cast f32 now" for http cast f32 now
proof
  fix rq s res
  assume "fst (amap_Route http cast f32 now rq s) = Inr res"
  then show "follows_legs (rq_waypoints rq) (rr_steps res)"
    using Route_returns [of http cast f32 now rq s] by (metis sum.inject(2))
qed

definition amap_interface :: "'w amap_http \<Rightarrow> (string \<Rightarrow> real) \<Rightarrow> (real \<Rightarrow> real) \<Rightarrow> ('w \<Rightarrow> int) \<Rightarrow> (amap_error, amap_provider \<times> 'w) provider" where
  "amap_interface http cast f32 now =
     \<lparr>prov_Name = amap_Name, prov_Route = amap_Route http cast f32 now, prov_Ready = (\<lambda>(p, w). amap_Ready p)\<rparr>"

section \<open>Properties\<close>

text \<open>
  C36: \<open>toResult\<close> returns at most one step per leg of the route, in order, and each joins the ends
  of its leg. When the response announces no more arrivals than the route has legs, step \<open>i\<close> is
  the sum of the raw steps between two arrivals: no raw distance or duration is lost.
\<close>

theorem toResult_sums_legs:
  assumes "ar_paths r = path # rest" "2 \<le> length wps"
  shows "\<exists>res. toResult cast r wps = Some res \<and>
    map step_ends (rr_steps res) = take (length (rr_steps res)) (legs_of wps) \<and>
    (length (segments arrival (ap_steps path)) < length wps \<longrightarrow>
       map st_distance (rr_steps res) = map (\<lambda>g. \<Sum>k \<leftarrow> g. cast (as_distance k)) (segments arrival (ap_steps path)) \<and>
       map st_duration (rr_steps res) = map (\<lambda>g. \<Sum>k \<leftarrow> g. cast (as_duration k)) (segments arrival (ap_steps path)))"
proof -
  obtain res where res: "toResult cast r wps = Some res" "rr_steps res = snd (raw_steps cast wps (ap_steps path))"
    using assms(1) by (simp add: toResult_def slice_simps Let_def)
  have "map st_distance (leg_steps cast wps gs) = map (\<lambda>g. \<Sum>k \<leftarrow> g. cast (as_distance k)) gs"
    "map st_duration (leg_steps cast wps gs) = map (\<lambda>g. \<Sum>k \<leftarrow> g. cast (as_duration k)) gs" for gs
    by (rule nth_equalityI; simp add: leg_steps_def leg_step_def)+
  then show ?thesis
    using res toResult_follows [OF res(1)] raw_steps_segments [of "ap_steps path" wps cast]
    by (auto simp: follows_legs_def)
qed


lemma NewAmapProvider_reach:
  "pool_reach (schedulerConfigFromAmap cfg) (am_pool (NewAmapProvider cfg))"
proof -
  have "pool_reach c (fold (\<lambda>k0 lb. let k = TrimSpace k0 in if k \<noteq> '''' then pool_Add k 1 lb else lb) ks lb)"
    if "pool_reach c lb" for c ks lb
    using that by (induction ks arbitrary: lb) (simp_all add: Let_def pool_reach.reach_add)
  moreover have "schedulerConfigFromAmap (cfg\<lparr>ac_base_url := u, ac_timeout_sec := t\<rparr>) = schedulerConfigFromAmap cfg"
    "schedulerConfigFromAmap (cfg\<lparr>ac_base_url := u\<rparr>) = schedulerConfigFromAmap cfg"
    "schedulerConfigFromAmap (cfg\<lparr>ac_timeout_sec := t\<rparr>) = schedulerConfigFromAmap cfg" for u t
    by (simp_all add: schedulerConfigFromAmap_def Let_def)
  ultimately show ?thesis
    by (simp add: NewAmapProvider_def reloadKeys_def Let_def pool_reach.reach_new pool_reach.reach_remove)
qed

definition example_config :: amap_config where
  "example_config = \<lparr>ac_enabled = True, ac_keys = ''a, b,,'', ac_base_url = '''', ac_batch_size = 12, ac_timeout_sec = 0,
     ac_key_recovery_sec = 300, ac_key_probe_sec = 30, ac_confidence_tau = 2, ac_beta_prior_a = 2, ac_beta_prior_b = 1,
     ac_failure_soft_weight = 0.3, ac_epsilon_scale = 4, ac_min_probe_rate = 0.02\<rparr>"

lemma example_keys: "map pi_item (pl_items (am_pool (NewAmapProvider example_config))) = [''a'', ''b'']"
  by (simp add: NewAmapProvider_def example_config_def reloadKeys_def TrimSpace_def is_space_def pool_Add_def pool_RemoveAll_def Let_def)


definition example_response :: amap_response where
  "example_response = \<lparr>ar_status = ''1'', ar_info = '''', ar_infocode = '''', ar_paths = [\<lparr>ap_distance = ''6'', ap_duration = ''6'',
     ap_steps = [\<lparr>as_distance = ''1'', as_duration = ''1'', as_polyline = ''p'', assistant_action = None\<rparr>,
       \<lparr>as_distance = ''2'', as_duration = ''2'', as_polyline = ''q'', assistant_action = Some reached_waypoint\<rparr>,
       \<lparr>as_distance = ''3'', as_duration = ''3'', as_polyline = ''r'', assistant_action = Some reached_destination\<rparr>]\<rparr>]\<rparr>"

theorem toResult_sums_legs_witness:
  "\<exists>res. toResult (\<lambda>s. if s = ''1'' then 1 else if s = ''2'' then 2 else 3) example_response [(0, 0), (1, 1), (2, 2)] = Some res \<and>
     map st_distance (rr_steps res) = [3, 3]"
proof -
  have seg: "segments arrival (ap_steps (hd (ar_paths example_response))) =
      [take 2 (ap_steps (hd (ar_paths example_response))), drop 2 (ap_steps (hd (ar_paths example_response)))]"
    by (simp add: example_response_def arrival_def geo_In_def)
  have "ar_paths example_response = [hd (ar_paths example_response)]" by (simp add: example_response_def)
  from toResult_sums_legs [OF this, of "[(0, 0), (1, 1), (2, 2)]" "\<lambda>s. if s = ''1'' then 1 else if s = ''2'' then 2 else 3"] seg
  obtain res where "toResult (\<lambda>s. if s = ''1'' then 1 else if s = ''2'' then 2 else 3) example_response [(0, 0), (1, 1), (2, 2)] = Some res"
    "map st_distance (rr_steps res) = map (\<lambda>g. \<Sum>k \<leftarrow> g. if as_distance k = ''1'' then 1 else if as_distance k = ''2'' then 2 else 3)
      [take 2 (ap_steps (hd (ar_paths example_response))), drop 2 (ap_steps (hd (ar_paths example_response)))]" by auto
  then show ?thesis by (simp add: example_response_def)
qed

text \<open>
  A response with more arrivals than the route has legs: the first raw step of the surplus segment
  is dropped, but its further raw steps are added to the last leg.
\<close>

lemma toResult_surplus:
  "map_option (\<lambda>res. map st_distance (rr_steps res)) (toResult (\<lambda>s. of_nat (length s)) \<lparr>ar_status = ''1'', ar_info = '''',
     ar_infocode = '''', ar_paths = [\<lparr>ap_distance = '''', ap_duration = '''', ap_steps =
       [\<lparr>as_distance = ''x'', as_duration = '''', as_polyline = '''', assistant_action = Some reached_destination\<rparr>,
        \<lparr>as_distance = ''xx'', as_duration = '''', as_polyline = '''', assistant_action = None\<rparr>,
        \<lparr>as_distance = ''xxxx'', as_duration = '''', as_polyline = '''', assistant_action = None\<rparr>]\<rparr>]\<rparr> [(0, 0), (1, 1)]) = Some [5]"
  by (simp add: toResult_def slice_get_def result_step_def arrival_def geo_In_def)

end
