(* ===== verification/Matrix_Calls.thy ===== *)
theory Matrix_Calls
  imports Matrix_Entries Amap_Provider
begin

text \<open>
  Totality of \<open>Compute\<close> and the number of its provider calls. The engine relies on two contracts:
  the arc-cover planner's (\<open>arc_cover_planner\<close>, interpreted for \<open>DensePlanner\<close>) and that of a
  provider that answers every leg (\<open>full_provider\<close>, interpreted for the Amap fallback).
\<close>

section \<open>Engines whose components do not panic\<close>

definition engine_safe :: "('e, 'w) engine \<Rightarrow> lookup_opts \<Rightarrow> bool" where
  "engine_safe e opts \<longleftrightarrow> small_context opts \<and> (\<forall>enqueue o' ed w. en_async e = Some enqueue \<longrightarrow> enqueue o' ed w \<noteq> None)"

lemma cache_write_total: "engine_safe e opts \<Longrightarrow> \<exists>w'. cache_write e opts ed w = Some w'"
  using store_Put_total [of opts "fst (the (en_cache e))" "snd (the (en_cache e))" ed w]
  by (auto simp: cache_write_def engine_safe_def split: option.split)

lemma cache_hit_total: "engine_safe e opts \<Longrightarrow> \<exists>q w'. cache_hit e opts p d w = Some (q, w')"
proof (cases "en_cache e")
  case (Some es)
  assume "engine_safe e opts"
  then obtain q w' where "store_Get (fst es) (snd es) opts p d w = Some (q, w')"
    using store_Get_total [of opts "fst es" "snd es" p d w] by (auto simp: engine_safe_def)
  then show ?thesis by (cases es) (simp add: cache_hit_def Some)
qed (simp add: cache_hit_def)

lemma lookupEdge_total: "engine_safe e opts \<Longrightarrow> \<exists>q w'. lookupEdge e opts p d w = Some (q, w')"
proof -
  assume safe: "engine_safe e opts"
  obtain q w1 where q: "cache_hit e opts p d w = Some (q, w1)" using cache_hit_total [OF safe] by blast
  show ?thesis
  proof (cases "q = Inr None \<and> en_archive e \<noteq> None")
    case True
    then obtain ar where ar: "en_archive e = Some ar" by blast
    obtain a w2 where a: "ar_Get ar opts p d w1 = (a, w2)" by (metis surj_pair)
    obtain w3 where "cache_write e opts (the (projr a)) w2 = Some w3" using cache_write_total [OF safe] by blast
    with q True ar a show ?thesis by (auto simp: lookupEdge_def split: sum.split option.split)
  next
    case False
    then show ?thesis using q by (auto simp: lookupEdge_def split: sum.split option.split)
  qed
qed

lemma persistEdge_total: "engine_safe e opts \<Longrightarrow> \<exists>w'. persistEdge e opts ed w = Some w'"
proof -
  assume safe: "engine_safe e opts"
  obtain w1 where w1: "cache_write e opts ed w = Some w1" using cache_write_total [OF safe] by blast
  have "\<exists>w'. enqueue opts ed w1 = Some w'" if "en_async e = Some enqueue" for enqueue
    using safe that unfolding engine_safe_def by (metis not_None_eq)
  then show ?thesis using w1 by (auto simp: persistEdge_def split: option.split)
qed

lemma fillPair_total: "engine_safe e opts \<Longrightarrow> \<exists>q c w'. fillPair e prov opts req p d wmt w = Some (q, c, w')"
proof -
  assume safe: "engine_safe e opts"
  obtain q w1 where q: "lookupEdge e opts p d w = Some (q, w1)" using lookupEdge_total [OF safe] by blast
  obtain a c w2 where a: "RoutePair (prov_Route prov) req p d w1 = ((a, c), w2)" by (metis surj_pair)
  obtain w3 where "persistEdge e opts (StepToEdge (projr a) wmt (prov_Name prov)) w2 = Some w3"
    using persistEdge_total [OF safe] by blast
  with q a show ?thesis by (auto simp: fillPair_def split: sum.split option.split)
qed

lemma record_step_total: "engine_safe e opts \<Longrightarrow> \<exists>s'. record_step e prov opts wmt st s = Some s'"
proof -
  assume safe: "engine_safe e opts"
  obtain w' where "persistEdge e opts (StepToEdge st wmt (prov_Name prov)) (cp_world s) = Some w'"
    using persistEdge_total [OF safe] by blast
  then show ?thesis by (simp add: record_step_def Let_def)
qed

section \<open>The loop bodies return\<close>

lemma probe_pair_total:
  assumes safe: "engine_safe e opts"
  shows "\<exists>r. probe_pair cx e opts strict wps ij s = Some r"
proof -
  obtain i j where ij: "ij = (i, j)" by (cases ij)
  obtain stop w1 where stop: "cx_done cx (cp_world s) = (stop, w1)" by (metis surj_pair)
  obtain q w2 where q: "lookupEdge e opts (wps ! i) (wps ! j) w1 = Some (q, w2)" using lookupEdge_total [OF safe] by blast
  obtain q' w3 where q': "lookupEdge e opts (wps ! j) (wps ! i) w2 = Some (q', w3)" using lookupEdge_total [OF safe] by blast
  show ?thesis
    unfolding probe_pair_def Let_def ij prod.case stop
    by (auto simp: q q' split: sum.split option.split)
qed

lemma fill_entry_total:
  assumes safe: "engine_safe e opts"
  shows "\<exists>r. fill_entry cx e prov opts strict req wmt wps ij s = Some r"
proof -
  obtain i j where ij: "ij = (i, j)" by (cases ij)
  obtain stop w1 where stop: "cx_done cx (cp_world s) = (stop, w1)" by (metis surj_pair)
  obtain q c w2 where q: "fillPair e prov opts req (wps ! i) (wps ! j) wmt w1 = Some (q, c, w2)"
    using fillPair_total [OF safe] by blast
  show ?thesis
    unfolding fill_entry_def Let_def ij prod.case stop
    by (auto simp: q split: sum.split option.split)
qed

text \<open>A route whose indices are in range has one point more than legs, and the pairs of its legs.\<close>

lemma those_slices:
  "\<forall>l \<in> set ls. unat (leg_to l) < length points \<Longrightarrow>
   those (map (\<lambda>leg. slice_get points (unat (leg_to leg))) ls) = Some (map (\<lambda>l. points ! unat (leg_to l)) ls)"
  by (induction ls) (simp_all add: slice_get_def)

lemma routeWaypoints_in_range:
  assumes "\<forall>l \<in> set (legs rt). unat (leg_from l) < length points \<and> unat (leg_to l) < length points" "legs rt \<noteq> []"
  shows "routeWaypoints points rt = Some (points ! unat (leg_from (hd (legs rt))) # map (\<lambda>l. points ! unat (leg_to l)) (legs rt))"
  using assms those_slices [of "legs rt" points] by (cases "legs rt") (simp_all add: routeWaypoints_def slice_get_def)

lemma legs_of_walk:
  "walk ls \<Longrightarrow> ls \<noteq> [] \<Longrightarrow>
   legs_of (points ! unat (leg_from (hd ls)) # map (\<lambda>l. points ! unat (leg_to l)) ls) =
     map (\<lambda>l. (points ! unat (leg_from l), points ! unat (leg_to l))) ls"
proof (induction ls rule: walk.induct)
  case (1 l m ls)
  then show ?case by (simp add: legs_of_def)
qed (simp_all add: legs_of_def)

lemma walk_route_total:
  assumes safe: "engine_safe e opts" and p: "en_planner e = Some p"
    and rt: "\<forall>l \<in> set (legs rt). unat (leg_from l) < length wps \<and> unat (leg_to l) < length wps"
  shows "\<exists>r. walk_route cx e prov opts req wmt wps rt s = Some r"
proof -
  obtain stop w1 where stop: "cx_done cx (cp_world s) = (stop, w1)" by (metis surj_pair)
  obtain ws where ws: "routeWaypoints wps rt = Some ws"
    using routeWaypoints_in_range [OF rt] by (cases "legs rt = []") (auto simp: routeWaypoints_def)
  obtain q c w2 where q: "RouteWaypoints (cx_sched cx) (prov_Route prov) (cx_done cx) p req ws w1 = ((q, c), w2)"
    by (metis surj_pair)
  obtain t where "fold_opt (record_step e prov opts wmt) (projr q) (add_calls c (s\<lparr>cp_world := w1, cp_world := w2\<rparr>)) = Some t"
    using fold_opt_total [of "record_step e prov opts wmt"] record_step_total [OF safe] by metis
  with stop ws p q show ?thesis by (cases q) (auto simp: walk_route_def Let_def)
qed

section \<open>The misses\<close>

definition pair_arcs :: "(nat \<times> nat) list \<Rightarrow> arc list" where
  "pair_arcs ps = map (\<lambda>(i, j). Arc 0 (of_nat i) (of_nat j)) (filter (\<lambda>(i, j). i \<noteq> j) ps)"

lemma pair_arcs_simps [simp]:
  "pair_arcs [] = []" "pair_arcs (ps @ [(i, j)]) = (if i = j then pair_arcs ps else pair_arcs ps @ [Arc 0 (of_nat i) (of_nat j)])"
  by (simp_all add: pair_arcs_def)

lemma unat_index: "i < 2 ^ 32 \<Longrightarrow> unat (of_nat i :: 32 word) = i"
  by (simp add: unat_of_nat take_bit_nat_eq_self)

lemma length_index_pairs: "length (index_pairs n) = n * n"
  by (simp add: index_pairs_def)

definition misses_ok :: "nat \<Rightarrow> (nat \<times> nat) list \<Rightarrow> 'w compute_state \<Rightarrow> bool" where
  "misses_ok n seen s \<longleftrightarrow> (\<forall>a \<in> set (cp_miss s). valid_arc n a) \<and> length (cp_miss s) \<le> length seen"

lemma probe_pair_misses:
  assumes "misses_ok n seen s" "i < n" "j < n" "n < 2 ^ 32" "probe_pair cx e opts strict wps (i, j) s = Some r"
  shows "flow_ok (misses_ok n (seen @ [(i, j)])) (\<lambda>_. True) r"
  using assms(5)
proof (cases rule: probe_pair_cases)
  case 5
  show ?thesis unfolding 5(1) using assms(1) by (simp add: misses_ok_def note_hit_def)
next
  case 6
  show ?thesis unfolding 6(1) using assms(1-4) by (simp add: misses_ok_def note_miss_def valid_arc_def unat_index)
qed (use assms(1) in \<open>simp_all add: misses_ok_def\<close>)

lemma engine_maxLegs_pos: "0 < engine_maxLegs e"
  by (simp add: engine_maxLegs_def split: option.split)

lemma probe_cover_request:
  fixes e :: "('e, 'w) engine"
  assumes "run_loop (probe_pair cx e opts strict wps) (index_pairs (length wps)) (start_state n w) = Some (Go s)" "length wps \<le> 2 ^ 16"
  shows "cover_request (length wps) (cp_miss s) (engine_maxLegs e)"
proof -
  let ?n = "length wps"
  have n: "?n < 2 ^ 32" using assms(2) by simp
  have "flow_ok (misses_ok ?n (index_pairs ?n)) (\<lambda>_. True) (Go s :: ('e, 'w) flow)"
  proof (rule run_loop_rule [OF assms(1), where I = "misses_ok ?n"])
    show "misses_ok ?n [] (start_state n w)" by (simp add: misses_ok_def start_state_def)
    fix ys x zs t r'
    assume xs: "index_pairs ?n = ys @ x # zs" and t: "misses_ok ?n ys t" and r': "probe_pair cx e opts strict wps x t = Some r'"
    obtain i j where x: "x = (i, j)" by (cases x)
    have "(i, j) \<in> set (index_pairs ?n)" using xs x by simp
    then have "i < ?n" "j < ?n" by (simp_all add: index_pairs_range)
    from probe_pair_misses [OF t this n r' [unfolded x]] show "flow_ok (misses_ok ?n (ys @ [x])) (\<lambda>_. True) r'" by (simp only: x)
  qed
  then have ok: "\<forall>a \<in> set (cp_miss s). valid_arc ?n a" "length (cp_miss s) \<le> ?n * ?n"
    by (simp_all add: misses_ok_def length_index_pairs)
  have "?n * ?n \<le> 2 ^ 16 * 2 ^ 16" using assms(2) by (intro mult_le_mono)
  with ok n show ?thesis by (simp add: cover_request_def engine_maxLegs_pos)
qed

lemma walk_misses_total:
  assumes safe: "engine_safe e opts" and p: "en_planner e = Some p" and cover: "engine_arcCover e = dense_cover cfg"
    and req: "cover_request (length wps) (cp_miss s) (engine_maxLegs e)"
  shows "\<exists>r. walk_misses cx e prov opts rq wmt wps s = Some r"
proof -
  obtain stop w1 where stop: "cx_done cx (cp_world s) = (stop, w1)" by (metis surj_pair)
  obtain pl where pl: "Plan cfg (cx_polls cx (cp_world s)) (length wps) (cp_miss s) (engine_maxLegs e) = Some pl"
    using dense.plan_returns [OF req] by blast
  have "\<exists>r. run_loop (walk_route cx e prov opts rq wmt wps) (routes pl) t = Some r" for t
    using run_loop_total [of "\<lambda>_. True" t "routes pl" "walk_route cx e prov opts rq wmt wps"]
      walk_route_total [OF safe p] dense.plan_indices [OF req pl] by blast
  then show ?thesis
    unfolding walk_misses_def cover dense_cover_def pl stop Let_def by simp
qed

lemma compute_phases_total:
  assumes safe: "engine_safe e opts" and p: "en_planner e = Some p" and cover: "engine_arcCover e = dense_cover cfg"
    and n: "length wps \<le> 2 ^ 16"
  shows "\<exists>r. compute_phases cx e prov opts strict rq wmt wps (start_state (length wps) w) = Some r"
proof -
  obtain r1 where r1: "run_loop (probe_pair cx e opts strict wps) (index_pairs (length wps)) (start_state (length wps) w) = Some r1"
    using run_loop_total [of "\<lambda>_. True"] probe_pair_total [OF safe] by metis
  show ?thesis
  proof (cases r1)
    case (Go s1)
    obtain r2 where r2: "walk_misses cx e prov opts rq wmt wps s1 = Some r2"
      using walk_misses_total [OF safe p cover probe_cover_request [OF r1 [unfolded Go] n]] by blast
    show ?thesis
    proof (cases r2)
      case Go2: (Go s2)
      obtain r3 where "run_loop (fill_entry cx e prov opts strict rq wmt wps) (index_pairs (length wps)) s2 = Some r3"
        using run_loop_total [of "\<lambda>_. True"] fill_entry_total [OF safe] by metis
      then show ?thesis using r1 Go r2 Go2 by (simp add: compute_phases_def)
    qed (use r1 Go r2 in \<open>simp_all add: compute_phases_def\<close>)
  qed (use r1 in \<open>simp_all add: compute_phases_def\<close>)
qed

lemma Compute_total:
  assumes "engine_safe e (compute_opts rq)" "en_planner e = Some p" "engine_arcCover e = dense_cover cfg"
    and "length (mr_points rq) \<le> 2 ^ 16"
  shows "\<exists>res w'. Compute cx e rq w = Some (res, w') \<and>
    ((\<exists>mx. res = (Some mx, None)) \<or> (\<exists>mx. res = (Some mx, Some MatrixDeadline)) \<or> (\<exists>err. res = (None, Some err)))"
proof -
  obtain wps where wps: "CoordConvertToGCJ02 (cx_f32 cx) (toSlice (mr_points rq)) (mr_coordinate rq) = Some wps"
      "length wps = length (mr_points rq)"
    using CoordConvert_length [of "toSlice (mr_points rq)" "cx_f32 cx" "mr_coordinate rq"] by (auto simp: toSlice_def)
  let ?wmt = "if mr_time_slot rq = '''' then TimeSlotWMH (cx_now cx w) (Some (cx_now cx w)) else mr_time_slot rq"
  consider "en_max_points e > 0 \<and> int (length (mr_points rq)) > en_max_points e" | "length (mr_points rq) < 2"
    | "\<not> (en_max_points e > 0 \<and> int (length (mr_points rq)) > en_max_points e)" "\<not> length (mr_points rq) < 2" by blast
  then show ?thesis
  proof cases
    case 3
    show ?thesis
    proof (cases "registry_Get (mr_provider rq) (en_registry e)")
      case None
      then show ?thesis unfolding Compute_def if_not_P [OF 3(1)] if_not_P [OF 3(2)] wps Let_def by simp
    next
      case (Some prov)
      obtain r where r: "compute_phases cx e prov (compute_opts rq) (mr_strict rq) (compute_route_request rq) ?wmt wps
          (start_state (length wps) w) = Some r"
        using compute_phases_total [OF assms(1,2,3)] assms(4) wps(2) by metis
      have "Compute cx e rq w = Some (finish r)"
        unfolding Compute_def if_not_P [OF 3(1)] if_not_P [OF 3(2)] wps(1) Let_def Some by (simp add: r)
      then show ?thesis by (cases r) (simp_all add: finish_def)
    qed
  qed (simp_all add: Compute_def)
qed

section \<open>Providers that answer every leg\<close>

locale full_provider = route_provider route
  for route :: "route_request \<Rightarrow> 'w \<Rightarrow> ('e + route_result) \<times> 'w" +
  assumes route_full: "2 \<le> length (rq_waypoints rq) \<Longrightarrow>
    \<exists>res w'. route rq w = (Inr res, w') \<and> length (rr_steps res) = length (rq_waypoints rq) - 1"
begin

lemma route_legs:
  assumes "2 \<le> length (rq_waypoints rq)"
  shows "\<exists>res w'. route rq w = (Inr res, w') \<and> map step_ends (rr_steps res) = legs_of (rq_waypoints rq)"
  using route_full [OF assms, of w] route_follows [of rq w] follows_legs_all by fastforce

text \<open>A walk that fits into one packet takes one call and returns a step for each of its legs.\<close>

lemma one_call:
  assumes "schedule_ok sched" "2 \<le> length wps" "int (length wps) \<le> batch_size p" "\<And>v. \<exists>v'. halt v = (False, v')"
  shows "\<exists>steps w'. RouteWaypoints sched route halt p req wps w = ((Inr steps, 1), w') \<and> map step_ends steps = legs_of wps"
proof -
  obtain w1 where w1: "halt w = (False, w1)" using assms(4) by blast
  obtain res w2 where "route (req\<lparr>rq_waypoints := wps\<rparr>) w1 = (Inr res, w2)" "map step_ends (rr_steps res) = legs_of wps"
    using route_legs [of "req\<lparr>rq_waypoints := wps\<rparr>" w1] assms(2) by auto
  then show ?thesis using RouteWaypoints_single [OF assms(1-3), of route halt req w] w1 by simp
qed

end

interpretation fallback: full_provider "\<lambda>rq w. (Inr (fallbackRoute f32 rq), w)" for f32
  by unfold_locales (auto simp: fallback_follows fallback_length)

section \<open>Cold runs\<close>

lemma run_loop_exact:
  assumes "I [] s" and "\<And>ys x zs t. xs = ys @ x # zs \<Longrightarrow> I ys t \<Longrightarrow> \<exists>t'. body x t = Some (Go t') \<and> I (ys @ [x]) t'"
  shows "\<exists>t. run_loop body xs s = Some (Go t) \<and> I xs t"
proof -
  have "\<exists>t. run_loop body ys s = Some (Go t) \<and> I ys t" if "xs = ys @ zs" for ys zs
    using that
  proof (induction ys arbitrary: zs rule: rev_induct)
    case Nil
    then show ?case using assms(1) by simp
  next
    case (snoc y ys)
    then obtain t where t: "run_loop body ys s = Some (Go t)" "I ys t" by fastforce
    from assms(2) [of ys y zs t] snoc.prems t obtain t' where "body y t = Some (Go t')" "I (ys @ [y]) t'" by auto
    then show ?case using t by (simp add: run_loop_append)
  qed
  from this [of xs "[]"] show ?thesis by simp
qed

definition lookups_miss :: "('e, 'w) engine \<Rightarrow> lookup_opts \<Rightarrow> bool" where
  "lookups_miss e opts \<longleftrightarrow> (\<forall>p d w. \<exists>w'. lookupEdge e opts p d w = Some (Inr None, w'))"

lemma no_cache_lookups_miss: "en_cache e = None \<Longrightarrow> en_archive e = None \<Longrightarrow> lookups_miss e opts"
  by (simp add: lookups_miss_def lookupEdge_def cache_hit_def)

definition never_done :: "'w call_env \<Rightarrow> bool" where
  "never_done cx \<longleftrightarrow> (\<forall>w. \<exists>w'. cx_done cx w = (False, w'))"

definition counts :: "'w compute_state \<Rightarrow> nat \<times> nat \<times> nat \<times> nat \<times> nat" where
  "counts s = (es_cache_hits (cp_stats s), es_cold_hits (cp_stats s), es_cache_misses (cp_stats s),
     es_provider_calls (cp_stats s), es_arc_cover_calls (cp_stats s))"

lemma counts_world [simp]: "counts (s\<lparr>cp_world := w\<rparr>) = counts s"
  by (simp add: counts_def)

lemma probe_cold:
  fixes e :: "('e, 'w) engine" and cx :: "'w call_env"
  assumes miss: "lookups_miss e opts" and go: "never_done cx"
  shows "\<exists>s. run_loop (probe_pair cx e opts strict wps) (index_pairs n) (start_state n w) = Some (Go s) \<and>
    cp_miss s = pair_arcs (index_pairs n) \<and> counts s = (0, 0, length (cp_miss s), 0, 0)"
proof -
  let ?I = "\<lambda>seen (s :: 'w compute_state). cp_segments s = Map.empty \<and> cp_miss s = pair_arcs seen \<and> counts s = (0, 0, length (cp_miss s), 0, 0)"
  have "\<exists>t. run_loop (probe_pair cx e opts strict wps) (index_pairs n) (start_state n w) = Some (Go t) \<and> ?I (index_pairs n) t"
  proof (rule run_loop_exact [where I = ?I])
    show "?I [] (start_state n w)" by (simp add: start_state_def counts_def)
    fix seen rest :: "(nat \<times> nat) list" and x :: "nat \<times> nat" and s
    assume s: "?I seen s"
    obtain i j :: nat where x: "x = (i, j)" by (cases x)
    obtain w1 where w1: "cx_done cx (cp_world s) = (False, w1)" using go by (auto simp: never_done_def)
    obtain w2 where w2: "lookupEdge e opts (wps ! i) (wps ! j) w1 = Some (Inr None, w2)" using miss unfolding lookups_miss_def by blast
    obtain w3 where w3: "lookupEdge e opts (wps ! j) (wps ! i) w2 = Some (Inr None, w3)" using miss unfolding lookups_miss_def by blast
    have "probe_pair cx e opts strict wps x s = Some (Go (if i = j then s else note_miss i j (s\<lparr>cp_world := if strict then w2 else w3\<rparr>)))"
      using s w1 w2 w3 by (simp add: probe_pair_def x)
    moreover have "?I (seen @ [x]) (if i = j then s else note_miss i j (s\<lparr>cp_world := if strict then w2 else w3\<rparr>))"
      using s by (simp add: x note_miss_def counts_def)
    ultimately show "\<exists>t'. probe_pair cx e opts strict wps x s = Some (Go t') \<and> ?I (seen @ [x]) t'" by blast
  qed
  then show ?thesis by blast
qed

text \<open>Recording steps only adds keys to the table.\<close>

lemma record_step_keys:
  assumes "record_step e prov opts wmt st s = Some t"
  shows "counts t = counts s \<and> cp_miss t = cp_miss s \<and> dom (cp_segments t) = insert (pairKey (st_origin st) (st_destination st)) (dom (cp_segments s))"
  using assms by (auto simp: record_step_def Let_def counts_def bind_eq_Some_conv split: if_splits)

lemma record_steps_keys:
  "fold_opt (record_step e prov opts wmt) steps s = Some t \<Longrightarrow>
   counts t = counts s \<and> cp_miss t = cp_miss s \<and>
   dom (cp_segments t) = (\<lambda>st. pairKey (st_origin st) (st_destination st)) ` set steps \<union> dom (cp_segments s)"
proof (induction steps arbitrary: s)
  case (Cons st steps)
  then obtain s1 where s1: "record_step e prov opts wmt st s = Some s1" "fold_opt (record_step e prov opts wmt) steps s1 = Some t"
    by (auto simp: bind_eq_Some_conv)
  from Cons.IH [OF s1(2)] record_step_keys [OF s1(1)] show ?case by auto
qed simp

definition leg_key :: "coord list \<Rightarrow> leg \<Rightarrow> string" where
  "leg_key wps l = pairKey (wps ! unat (leg_from l)) (wps ! unat (leg_to l))"

context full_provider
begin

lemma walk_route_one_call:
  assumes safe: "engine_safe e opts" and p: "en_planner e = Some p" "2 \<le> batch_size p"
    and cx: "never_done cx" "schedule_ok (cx_sched cx)" and prov: "prov_Route prov = route"
    and rt: "route_ok (engine_maxLegs e) rt" "\<forall>l \<in> set (legs rt). unat (leg_from l) < length wps \<and> unat (leg_to l) < length wps"
  shows "\<exists>t. walk_route cx e prov opts req wmt wps rt s = Some (Go t) \<and> cp_miss t = cp_miss s \<and>
    (\<exists>h c m k a. counts s = (h, c, m, k, a) \<and> counts t = (h, c, m, k + 1, a)) \<and>
    dom (cp_segments t) = leg_key wps ` set (legs rt) \<union> dom (cp_segments s)"
proof -
  obtain w1 where w1: "cx_done cx (cp_world s) = (False, w1)" using cx(1) by (auto simp: never_done_def)
  have ne: "legs rt \<noteq> []" "walk (legs rt)" "int (length (legs rt)) \<le> engine_maxLegs e" using rt(1) by (simp_all add: route_ok_def)
  let ?ws = "wps ! unat (leg_from (hd (legs rt))) # map (\<lambda>l. wps ! unat (leg_to l)) (legs rt)"
  have ws: "routeWaypoints wps rt = Some ?ws" by (rule routeWaypoints_in_range [OF rt(2) ne(1)])
  have long: "2 \<le> length ?ws" using ne(1) by (cases "legs rt") auto
  have fits: "int (length ?ws) \<le> batch_size p" using ne(3) p by (simp add: engine_maxLegs_def)
  have go: "\<exists>v'. cx_done cx v = (False, v')" for v using cx(1) by (simp add: never_done_def)
  obtain steps w2 where run: "RouteWaypoints (cx_sched cx) (prov_Route prov) (cx_done cx) p req ?ws w1 = ((Inr steps, 1), w2)"
    and ends: "map step_ends steps = legs_of ?ws"
    using one_call [OF cx(2) long fits, where halt = "cx_done cx" and req = req and w = w1] go prov by auto
  let ?s2 = "add_calls 1 (s\<lparr>cp_world := w1, cp_world := w2\<rparr>)"
  obtain t where t: "fold_opt (record_step e prov opts wmt) steps ?s2 = Some t"
    using fold_opt_total [of "record_step e prov opts wmt"] record_step_total [OF safe] by metis
  have "walk_route cx e prov opts req wmt wps rt s = Some (Go t)"
    using w1 ws ne(1) p(1) run t by (simp add: walk_route_def Let_def)
  moreover have "(\<lambda>st. pairKey (st_origin st) (st_destination st)) ` set steps = leg_key wps ` set (legs rt)"
  proof -
    have "(\<lambda>st. pairKey (st_origin st) (st_destination st)) ` set steps = (\<lambda>(a, b). pairKey a b) ` set (map step_ends steps)"
      by (auto simp: step_ends_def image_image)
    also have "\<dots> = leg_key wps ` set (legs rt)"
      unfolding ends legs_of_walk [OF ne(2,1)] by (simp add: leg_key_def image_image)
    finally show ?thesis .
  qed
  ultimately show ?thesis using record_steps_keys [OF t] by (simp add: add_calls_def counts_def)
qed

end

lemma length_pair_arcs: "length (pair_arcs (index_pairs n)) = n * (n - 1)"
proof -
  let ?D = "(\<lambda>i. (i, i)) ` {..<n}"
  have "distinct (index_pairs n)" by (simp add: index_pairs_def distinct_product)
  then have "length (filter (\<lambda>(i, j). i \<noteq> j) (index_pairs n)) = card (set (filter (\<lambda>(i, j). i \<noteq> j) (index_pairs n)))"
    by (intro distinct_card [symmetric] distinct_filter)
  also have "set (filter (\<lambda>(i, j). i \<noteq> j) (index_pairs n)) = {..<n} \<times> {..<n} - ?D"
    by (auto simp: index_pairs_range)
  also have "card \<dots> = n * n - n"
    by (subst card_Diff_subset) (auto simp: card_image inj_on_def)
  finally show ?thesis by (simp add: pair_arcs_def diff_mult_distrib2)
qed

lemma pair_arcs_mem: "i < n \<Longrightarrow> j < n \<Longrightarrow> i \<noteq> j \<Longrightarrow> Arc 0 (of_nat i) (of_nat j) \<in> set (pair_arcs (index_pairs n))"
  using index_pairs_range [of i j n] by (force simp: pair_arcs_def)

lemma fill_known:
  fixes e :: "('e, 'w) engine" and cx :: "'w call_env" and s :: "'w compute_state"
  assumes go: "never_done cx"
    and known: "\<And>i j. i < length wps \<Longrightarrow> j < length wps \<Longrightarrow> i \<noteq> j \<Longrightarrow> pairKey (wps ! i) (wps ! j) \<in> dom (cp_segments s)"
  shows "\<exists>t. run_loop (fill_entry cx e prov opts strict req wmt wps) (index_pairs (length wps)) s = Some (Go t) \<and>
    counts t = counts s \<and> cp_stats t = cp_stats s"
proof -
  let ?I = "\<lambda>seen (t :: 'w compute_state). cp_segments t = cp_segments s \<and> counts t = counts s \<and> cp_stats t = cp_stats s"
  have "\<exists>t. run_loop (fill_entry cx e prov opts strict req wmt wps) (index_pairs (length wps)) s = Some (Go t) \<and> ?I (index_pairs (length wps)) t"
  proof (rule run_loop_exact [where I = ?I])
    fix seen rest :: "(nat \<times> nat) list" and x :: "nat \<times> nat" and t
    assume xs: "index_pairs (length wps) = seen @ x # rest" and t: "?I seen t"
    obtain i j where x: "x = (i, j)" by (cases x)
    have "(i, j) \<in> set (index_pairs (length wps))" using xs x by simp
    then have ij: "i < length wps" "j < length wps" by (simp_all add: index_pairs_range)
    obtain w1 where w1: "cx_done cx (cp_world t) = (False, w1)" using go by (auto simp: never_done_def)
    show "\<exists>t'. fill_entry cx e prov opts strict req wmt wps x t = Some (Go t') \<and> ?I (seen @ [x]) t'"
    proof (cases "i = j")
      case True
      then show ?thesis using t w1 by (simp add: fill_entry_def x)
    next
      case False
      from known [OF ij False] t obtain st where "known_step strict (wps ! i) (wps ! j) (cp_segments t) = Some st"
        by (auto simp: known_step_def)
      then have "fill_entry cx e prov opts strict req wmt wps x t = Some (Go (set_entry i j st (t\<lparr>cp_world := w1\<rparr>)))"
        using w1 False by (simp add: fill_entry_def x)
      then show ?thesis using t by (simp add: set_entry_def counts_def)
    qed
  qed simp
  then show ?thesis by blast
qed

context full_provider
begin

lemma walks_cold:
  assumes safe: "engine_safe e opts" and p: "en_planner e = Some p" "2 \<le> batch_size p"
    and cx: "never_done cx" "schedule_ok (cx_sched cx)" and prov: "prov_Route prov = route"
    and rts: "\<And>rt. rt \<in> set rts \<Longrightarrow> route_ok (engine_maxLegs e) rt"
      "\<And>rt l. rt \<in> set rts \<Longrightarrow> l \<in> set (legs rt) \<Longrightarrow> unat (leg_from l) < length wps \<and> unat (leg_to l) < length wps"
    and s: "counts s = (h, c, m, k, a)"
  shows "\<exists>t. run_loop (walk_route cx e prov opts req wmt wps) rts s = Some (Go t) \<and>
    counts t = (h, c, m, k + length rts, a) \<and> (\<forall>rt \<in> set rts. leg_key wps ` set (legs rt) \<subseteq> dom (cp_segments t))"
proof (rule run_loop_exact [where I = "\<lambda>seen (t :: 'w compute_state). counts t = (h, c, m, k + length seen, a) \<and>
      (\<forall>rt \<in> set seen. leg_key wps ` set (legs rt) \<subseteq> dom (cp_segments t))"])
  fix seen rest :: "route list" and rt and t :: "'w compute_state"
  assume xs: "rts = seen @ rt # rest" and t: "counts t = (h, c, m, k + length seen, a) \<and>
      (\<forall>rt \<in> set seen. leg_key wps ` set (legs rt) \<subseteq> dom (cp_segments t))"
  have "rt \<in> set rts" using xs by simp
  have idx: "\<forall>l \<in> set (legs rt). unat (leg_from l) < length wps \<and> unat (leg_to l) < length wps"
    using rts(2) [OF \<open>rt \<in> set rts\<close>] by blast
  note one = walk_route_one_call [OF safe p cx prov rts(1) [OF \<open>rt \<in> set rts\<close>] idx, of req wmt t]
  obtain t' where t': "walk_route cx e prov opts req wmt wps rt t = Some (Go t')"
    "\<exists>h c m k a. counts t = (h, c, m, k, a) \<and> counts t' = (h, c, m, k + 1, a)"
    "dom (cp_segments t') = leg_key wps ` set (legs rt) \<union> dom (cp_segments t)"
    using one by (elim exE conjE) (rule that, assumption, intro exI conjI, assumption+)
  have "counts t' = (h, c, m, k + length (seen @ [rt]), a)" using t t'(2) by auto
  moreover have "leg_key wps ` set (legs q) \<subseteq> dom (cp_segments t')" if "q \<in> set (seen @ [rt])" for q
  proof (cases "q = rt")
    case False
    with that t have "leg_key wps ` set (legs q) \<subseteq> dom (cp_segments t)" by simp
    then show ?thesis unfolding t'(3) by blast
  qed (simp add: t'(3))
  ultimately show "\<exists>t'. walk_route cx e prov opts req wmt wps rt t = Some (Go t') \<and> counts t' = (h, c, m, k + length (seen @ [rt]), a) \<and>
      (\<forall>rt \<in> set (seen @ [rt]). leg_key wps ` set (legs rt) \<subseteq> dom (cp_segments t'))"
    using t'(1) by blast
qed (use s in simp)

lemma phases_cold:
  assumes safe: "engine_safe e opts" and p: "en_planner e = Some p" "2 \<le> batch_size p"
    and cover: "engine_arcCover e = dense_cover cfg" and n: "2 \<le> length wps" "length wps \<le> 2 ^ 16"
    and cx: "never_done cx" "schedule_ok (cx_sched cx)" and prov: "prov_Route prov = route" and miss: "lookups_miss e opts"
  obtains t ctx pl where "compute_phases cx e prov opts strict req wmt wps (start_state (length wps) w) = Some (Go t)"
    "Plan cfg ctx (length wps) (pair_arcs (index_pairs (length wps))) (batch_size p - 1) = Some pl"
    "counts t = (0, 0, length wps * (length wps - 1), length (routes pl), length (routes pl))"
    "int (length wps * (length wps - 1)) \<le> int (length (routes pl)) * (batch_size p - 1)"
proof -
  let ?n = "length wps" and ?as = "pair_arcs (index_pairs (length wps))"
  obtain s1 where s1: "run_loop (probe_pair cx e opts strict wps) (index_pairs ?n) (start_state ?n w) = Some (Go s1)"
      "cp_miss s1 = ?as" "counts s1 = (0, 0, ?n * (?n - 1), 0, 0)"
    using probe_cold [OF miss cx(1), of strict wps ?n w] length_pair_arcs [of ?n] by auto
  have legs: "engine_maxLegs e = batch_size p - 1" using p by (simp add: engine_maxLegs_def)
  have req: "cover_request ?n ?as (engine_maxLegs e)" using probe_cover_request [OF s1(1) n(2)] s1(2) by simp
  let ?ctx = "cx_polls cx (cp_world s1)"
  obtain pl where pl: "Plan cfg ?ctx ?n ?as (engine_maxLegs e) = Some pl" using dense.plan_returns [OF req] by blast
  obtain w1 where w1: "cx_done cx (cp_world s1) = (False, w1)" using cx(1) by (auto simp: never_done_def)
  let ?s = "s1\<lparr>cp_world := w1, cp_stats := (cp_stats s1)\<lparr>es_arc_cover_calls := length (routes pl)\<rparr>\<rparr>"
  have "counts ?s = (0, 0, ?n * (?n - 1), 0, length (routes pl))" using s1(3) by (simp add: counts_def)
  from walks_cold [OF safe p cx prov _ _ this, of "routes pl" wps req wmt] dense.plan_walks [OF req pl] dense.plan_indices [OF req pl]
  obtain s2 where s2: "run_loop (walk_route cx e prov opts req wmt wps) (routes pl) ?s = Some (Go s2)"
      "counts s2 = (0, 0, ?n * (?n - 1), length (routes pl), length (routes pl))"
      "\<forall>rt \<in> set (routes pl). leg_key wps ` set (legs rt) \<subseteq> dom (cp_segments s2)" by auto
  have "?as \<noteq> []" using length_pair_arcs [of ?n] n(1) by (intro notI) simp
  then have walks: "walk_misses cx e prov opts req wmt wps s1 = Some (Go s2)"
    using pl w1 s2(1) by (simp add: walk_misses_def cover dense_cover_def s1(2))
  have "pairKey (wps ! i) (wps ! j) \<in> dom (cp_segments s2)" if "i < ?n" "j < ?n" "i \<noteq> j" for i j
  proof -
    from dense.leg_for_pair [OF req pl pair_arcs_mem [OF that]] obtain rt l where
      "rt \<in> set (routes pl)" "l \<in> set (legs rt)" "leg_from l = of_nat i" "leg_to l = of_nat j" by auto
    moreover have "unat (of_nat i :: 32 word) = i" "unat (of_nat j :: 32 word) = j"
      using that n(2) by (simp_all add: unat_index)
    ultimately show ?thesis using s2(3) by (force simp: leg_key_def)
  qed
  from fill_known [OF cx(1) this] obtain t where
    t: "run_loop (fill_entry cx e prov opts strict req wmt wps) (index_pairs ?n) s2 = Some (Go t)" "counts t = counts s2" by blast
  show thesis
  proof (rule that)
    show "compute_phases cx e prov opts strict req wmt wps (start_state (length wps) w) = Some (Go t)"
      using s1(1) walks t(1) by (simp add: compute_phases_def)
    show "Plan cfg ?ctx ?n ?as (batch_size p - 1) = Some pl" using pl legs by simp
    show "counts t = (0, 0, ?n * (?n - 1), length (routes pl), length (routes pl))" using t(2) s2(2) by simp
    show "int (?n * (?n - 1)) \<le> int (length (routes pl)) * (batch_size p - 1)"
      using dense.enough_routes [OF req pl] length_pair_arcs [of ?n] legs by simp
  qed
qed

end

section \<open>Properties\<close>

lemma Compute_cold:
  assumes full: "full_provider (prov_Route prov)" and prov: "registry_Get (mr_provider rq) (en_registry e) = Some prov"
    and n: "2 \<le> length (mr_points rq)" "length (mr_points rq) \<le> 2 ^ 16" "\<not> (en_max_points e > 0 \<and> int (length (mr_points rq)) > en_max_points e)"
    and safe: "engine_safe e (compute_opts rq)" and p: "en_planner e = Some p" "2 \<le> batch_size p"
    and cover: "engine_arcCover e = dense_cover cfg"
    and cx: "never_done cx" "schedule_ok (cx_sched cx)" and miss: "lookups_miss e (compute_opts rq)"
  obtains mx w' ctx pl where "Compute cx e rq w = Some ((Some mx, None), w')"
    "Plan cfg ctx (length (mr_points rq)) (pair_arcs (index_pairs (length (mr_points rq)))) (batch_size p - 1) = Some pl"
    "es_cache_hits (mx_stats mx) = 0" "es_cold_hits (mx_stats mx) = 0"
    "es_cache_misses (mx_stats mx) = length (mr_points rq) * (length (mr_points rq) - 1)"
    "es_provider_calls (mx_stats mx) = length (routes pl)" "es_arc_cover_calls (mx_stats mx) = length (routes pl)"
    "int (length (mr_points rq) * (length (mr_points rq) - 1)) \<le> int (length (routes pl)) * (batch_size p - 1)"
proof -
  obtain wps where wps: "CoordConvertToGCJ02 (cx_f32 cx) (toSlice (mr_points rq)) (mr_coordinate rq) = Some wps"
      "length wps = length (mr_points rq)"
    using CoordConvert_length [of "toSlice (mr_points rq)" "cx_f32 cx" "mr_coordinate rq"] by (auto simp: toSlice_def)
  let ?wmt = "if mr_time_slot rq = '''' then TimeSlotWMH (cx_now cx w) (Some (cx_now cx w)) else mr_time_slot rq"
  obtain t ctx pl where t: "compute_phases cx e prov (compute_opts rq) (mr_strict rq) (compute_route_request rq) ?wmt wps
        (start_state (length wps) w) = Some (Go t)"
    and pl: "Plan cfg ctx (length wps) (pair_arcs (index_pairs (length wps))) (batch_size p - 1) = Some pl"
    and counts: "counts t = (0, 0, length wps * (length wps - 1), length (routes pl), length (routes pl))"
    and bound: "int (length wps * (length wps - 1)) \<le> int (length (routes pl)) * (batch_size p - 1)"
    by (rule full_provider.phases_cold [OF full safe p cover _ _ cx refl miss, where strict = "mr_strict rq" and wps = wps
          and req = "compute_route_request rq" and wmt = ?wmt and w = w]) (use n wps(2) in simp_all)
  let ?mx = "packResult (cp_distances t) (cp_durations t) (cp_stats t)"
  have n2: "\<not> length (mr_points rq) < 2" using n(1) by simp
  have "Compute cx e rq w = Some (finish (Go t))"
    unfolding Compute_def if_not_P [OF n(3)] if_not_P [OF n2] wps(1) Let_def prov by (simp add: t)
  then have run: "Compute cx e rq w = Some ((Some ?mx, None), cp_world t)" by (simp add: finish_def)
  show thesis
    by (rule that [OF run]) (use pl counts bound in \<open>simp_all add: wps(2) packResult_def counts_def Let_def\<close>)
qed

text \<open>
  C2: every matrix that \<open>Compute\<close> returns, also the partial one at the deadline, is square with a zero
  diagonal, and every other entry was answered by the cache, the archive or the provider for its
  origin and destination (outside strict mode possibly for the reverse pair), or the deadline was
  hit and it is zero.
\<close>

theorem Compute_entries:
  assumes "Compute cx e rq w = Some ((Some mx, err), w')"
  shows "\<exists>prov wps. registry_Get (mr_provider rq) (en_registry e) = Some prov \<and>
    CoordConvertToGCJ02 (cx_f32 cx) (toSlice (mr_points rq)) (mr_coordinate rq) = Some wps \<and>
    length wps = length (mr_points rq) \<and> square (length wps) (mx_distances mx) \<and> square (length wps) (mx_durations mx) \<and>
    (err = None \<or> err = Some MatrixDeadline) \<and>
    (\<forall>i < length wps. \<forall>j < length wps. entry (mx_distances mx) (mx_durations mx) i j = (0, 0) \<and> (i = j \<or> err \<noteq> None) \<or>
       i \<noteq> j \<and> answered e prov (compute_opts rq) (compute_route_request rq) (mr_strict rq) (wps ! i) (wps ! j)
         (entry (mx_distances mx) (mx_durations mx) i j))"
  by (rule Compute_entries_answered [OF assms]) (intro exI conjI allI impI; assumption)

text \<open>An engine without cache and archive, whose only provider answers by the straight-line fallback.\<close>

definition example_provider :: "(unit, unit) provider" where
  "example_provider = \<lparr>prov_Name = ''fallback'', prov_Route = (\<lambda>rq w. (Inr (fallbackRoute (\<lambda>x. x) rq), w)), prov_Ready = (\<lambda>w. True)\<rparr>"

definition example_engine :: "(unit, unit) engine" where
  "example_engine = \<lparr>en_cache = None, en_archive = None, en_async = None, en_planner = Some (NewPlanner 3),
     en_registry = registry_Register example_provider NewRegistry, en_arc_cover = None, en_max_points = 100\<rparr>"

definition matrix_env :: "unit call_env" where
  "matrix_env = \<lparr>cx_done = (\<lambda>w. (False, w)), cx_polls = (\<lambda>w k. False),
     cx_now = (\<lambda>w. \<lparr>ct_weekday = 1, ct_month = 1, ct_hour = 1\<rparr>), cx_sched = (\<lambda>n. [0..<n]), cx_f32 = (\<lambda>x. x)\<rparr>"

definition example_request :: matrix_request where
  "example_request = \<lparr>mr_points = [(0, 0), (1, 1), (2, 2)], mr_coordinate = '''', mr_strategy = 0, mr_method = 0, mr_time_slot = '''',
     mr_strict = True, mr_geo_wide = 0, mr_provider = '''', mr_speed = 0, mr_tenant = ''''\<rparr>"

lemma example_ok:
  "full_provider (prov_Route example_provider)" "registry_Get (mr_provider example_request) (en_registry example_engine) = Some example_provider"
  "engine_safe example_engine (compute_opts example_request)" "en_planner example_engine = Some (NewPlanner 3)"
  "engine_arcCover example_engine = dense_cover (NewDensePlanner DefaultConfig)" "never_done matrix_env" "schedule_ok (cx_sched matrix_env)"
  "lookups_miss example_engine opts"
  using fallback.full_provider_axioms [of "\<lambda>x. x"]
  by (simp_all add: example_provider_def example_engine_def matrix_env_def example_request_def engine_safe_def small_context_def
      compute_opts_def registry_Get_def registry_Register_def NewRegistry_def NewPlanner_def engine_arcCover_def
      never_done_def schedule_ok_def no_cache_lookups_miss)

lemma example_fields:
  "length (mr_points example_request) = 3" "mr_strict example_request" "batch_size (NewPlanner 3) = 3"
  "\<not> (en_max_points example_engine > 0 \<and> int (length (mr_points example_request)) > en_max_points example_engine)"
  by (simp_all add: example_request_def example_engine_def NewPlanner_def)

lemma example_run:
  obtains mx where "Compute matrix_env example_engine example_request () = Some ((Some mx, None), ())"
proof -
  obtain mx w' ctx pl where "Compute matrix_env example_engine example_request () = Some ((Some mx, None), w')"
    by (rule Compute_cold [OF example_ok(1,2) _ _ _ example_ok(3,4) _ example_ok(5-8), where w = "()"])
      (simp_all add: example_request_def example_engine_def NewPlanner_def)
  then show thesis using that by simp
qed

theorem Compute_entries_witness:
  "\<exists>mx. Compute matrix_env example_engine example_request () = Some ((Some mx, None), ()) \<and>
     square 3 (mx_distances mx) \<and>
     answered example_engine example_provider (compute_opts example_request) (compute_route_request example_request) True (0, 0) (2, 2)
       (mx_distances mx ! 0 ! 2, mx_durations mx ! 0 ! 2)"
proof -
  obtain mx where run: "Compute matrix_env example_engine example_request () = Some ((Some mx, None), ())"
    by (rule example_run)
  have wps: "CoordConvertToGCJ02 (cx_f32 matrix_env) (toSlice (mr_points example_request)) (mr_coordinate example_request) =
      Some [(0, 0), (1, 1), (2, 2)]"
    by (simp add: CoordConvertToGCJ02_def CoordListCast_points toSlice_def example_request_def ToLower_def)
  from Compute_entries [OF run] obtain prov ws where p: "registry_Get (mr_provider example_request) (en_registry example_engine) = Some prov"
    and w: "CoordConvertToGCJ02 (cx_f32 matrix_env) (toSlice (mr_points example_request)) (mr_coordinate example_request) = Some ws"
    and sq: "square (length ws) (mx_distances mx)"
    and ents: "\<forall>i < length ws. \<forall>j < length ws. entry (mx_distances mx) (mx_durations mx) i j = (0, 0) \<and> (i = j \<or> (None :: unit engine_error option) \<noteq> None) \<or>
       i \<noteq> j \<and> answered example_engine prov (compute_opts example_request) (compute_route_request example_request) (mr_strict example_request)
         (ws ! i) (ws ! j) (entry (mx_distances mx) (mx_durations mx) i j)" by (elim exE conjE) (rule that)
  have eqs: "prov = example_provider" "ws = [(0, 0), (1, 1), (2, 2)]" using p w wps example_ok(2) by simp_all
  from ents [rule_format, of 0 2] sq have "square 3 (mx_distances mx) \<and>
      answered example_engine example_provider (compute_opts example_request) (compute_route_request example_request) True (0, 0) (2, 2)
        (mx_distances mx ! 0 ! 2, mx_durations mx ! 0 ! 2)"
    unfolding eqs using example_fields(2) by (simp add: entry_def numeral_2_eq_2 numeral_3_eq_3)
  with run show ?thesis by blast
qed

text \<open>
  C7: \<open>Compute\<close> returns: for methods and strategies of at most twelve digits, an asynchronous
  writer that is not closed, a batch planner, at most 65536 points and the dense arc-cover planner
  it never panics, whatever the provider, the cache, the archive and the context do. It returns a
  matrix, a matrix with the deadline error, or an error without a matrix.
\<close>

theorem Compute_returns:
  assumes "mr_method rq < 10 ^ 12" "mr_strategy rq < 10 ^ 12" "length (mr_points rq) \<le> 2 ^ 16"
    and "\<forall>enqueue opts ed v. en_async e = Some enqueue \<longrightarrow> enqueue opts ed v \<noteq> None"
    and "en_planner e \<noteq> None" "engine_arcCover e = dense_cover cfg"
  shows "\<exists>res w'. Compute cx e rq w = Some (res, w') \<and>
    ((\<exists>mx. res = (Some mx, None)) \<or> (\<exists>mx. res = (Some mx, Some MatrixDeadline)) \<or> (\<exists>err. res = (None, Some err)))"
proof -
  have "engine_safe e (compute_opts rq)"
    using assms(1,2,4) by (simp add: engine_safe_def small_context_def compute_opts_def)
  then show ?thesis using Compute_total [OF _ _ assms(6,3)] assms(5) by blast
qed

theorem Compute_returns_witness:
  "\<exists>res w'. Compute (matrix_env\<lparr>cx_done := \<lambda>w. (True, w)\<rparr>) example_engine example_request () = Some (res, w')"
  using Compute_returns [of example_request example_engine "NewDensePlanner DefaultConfig" "matrix_env\<lparr>cx_done := \<lambda>w. (True, w)\<rparr>" "()"]
    example_ok(5) by (auto simp: example_request_def example_engine_def)



end
