(* ===== verification/Mysql_Archive.thy ===== *)
theory Mysql_Archive
  imports Edge_Archive
begin

text \<open>
  \<open>internal/persist/store.go\<close>, \<open>model.go\<close> and \<open>util.go\<close>: rows of the MySQL archive, reads and
  writes through GORM, and the editing of data source names. Parameters: the database (\<open>mysql_db\<close>,
  the two queries and the upsert statement with its conflict clause) and the JSON codec of
  coordinates. Opening the store is in \<open>Mysql_Open\<close>.
\<close>

section \<open>Data source names\<close>

definition str_index :: "string \<Rightarrow> string \<Rightarrow> nat option" where
  "str_index s p = find (\<lambda>i. HasPrefix (drop i s) p) [0..<length s + 1]"

definition IndexAny :: "string \<Rightarrow> string \<Rightarrow> nat option" where
  "IndexAny s cs = find (\<lambda>i. s ! i \<in> set cs) [0..<length s]"

definition databaseFromDSN :: "string \<Rightarrow> string" where
  "databaseFromDSN dsn =
     (case str_index dsn '')/'' of
        None \<Rightarrow> ''''
      | Some i \<Rightarrow>
          let rest = drop (i + 2) dsn in
          if rest = '''' \<or> HasPrefix rest ''?'' then ''''
          else (case IndexAny rest ''?/'' of None \<Rightarrow> rest | Some j \<Rightarrow> take j rest))"

definition withDatabase :: "string \<Rightarrow> string \<Rightarrow> string" where
  "withDatabase dsn dbName =
     (case str_index dsn '')/'' of
        None \<Rightarrow> dsn
      | Some i \<Rightarrow>
          let prefix = take (i + 2) dsn;
              rest = drop (i + 2) dsn;
              params = (case str_index rest ''?'' of Some j \<Rightarrow> drop j rest | None \<Rightarrow> '''')
          in prefix @ dbName @ params)"

section \<open>Coordinates in rows\<close>

text \<open>\<open>int64(x)\<close> truncates towards zero.\<close>

definition trunc_int :: "real \<Rightarrow> int" where
  "trunc_int x = (if x \<ge> 0 then \<lfloor>x\<rfloor> else \<lceil>x\<rceil>)"

definition round6 :: "real \<Rightarrow> real" where
  "round6 x = of_int (trunc_int (x * 10 ^ 6 + 0.5)) / 10 ^ 6"

record coord_json =
  cj_encode :: "real list \<Rightarrow> string"
  cj_decode :: "string \<Rightarrow> real list option"
  cj_f32 :: "real \<Rightarrow> real"

definition coordJSON :: "coord_json \<Rightarrow> coord \<Rightarrow> string" where
  "coordJSON js p = cj_encode js [round6 (fst p), round6 (snd p)]"

definition parseCoord :: "coord_json \<Rightarrow> string \<Rightarrow> coord option" where
  "parseCoord js raw =
     (case cj_decode js raw of
        None \<Rightarrow> None
      | Some v \<Rightarrow> if length v < 2 then None else Some (cj_f32 js (v ! 0), cj_f32 js (v ! 1)))"

section \<open>Rows\<close>

text \<open>The primary key and the audit columns, which no code reads, are left out; \<open>my_version\<close> is kept.\<close>

record mysql_row =
  my_tenant :: string
  my_method :: int
  my_strategy :: int
  my_start_geo :: string
  my_end_geo :: string
  my_wmt :: string
  my_t :: string
  my_origin :: string
  my_destination :: string
  my_distance :: real
  my_duration :: real
  my_polyline :: string
  my_provider :: string
  my_created_at :: int
  my_updated_at :: int
  my_version :: nat

definition TableName :: string where "TableName = ''distance_matrix_edge''"

text \<open>\<open>int32(x)\<close> wraps around.\<close>

definition int32 :: "int \<Rightarrow> int" where
  "int32 x = sint (word_of_int x :: 32 word)"

definition row_of_edge :: "coord_json \<Rightarrow> (coord \<Rightarrow> string) \<Rightarrow> civil_time \<Rightarrow> int \<Rightarrow> lookup_opts \<Rightarrow> edge \<Rightarrow> mysql_row" where
  "row_of_edge js gh now nowUnix opts e =
     (let wmt = mem_slot now (ed_wmt e) in
      \<lparr>my_tenant = tenant_name (lo_tenant opts), my_method = int32 (lo_method opts), my_strategy = int32 (lo_strategy opts),
       my_start_geo = gh (ed_origin e), my_end_geo = gh (ed_destination e), my_wmt = wmt, my_t = HourBucket now wmt,
       my_origin = coordJSON js (ed_origin e), my_destination = coordJSON js (ed_destination e),
       my_distance = ed_distance e, my_duration = ed_duration e, my_polyline = ed_polyline e, my_provider = ed_provider e,
       my_created_at = nowUnix, my_updated_at = nowUnix, my_version = 0\<rparr>)"

type_synonym conflict_key = "string \<times> int \<times> int \<times> string \<times> string \<times> string"

definition conflict_columns :: "mysql_row \<Rightarrow> conflict_key" where
  "conflict_columns r = (my_tenant r, my_method r, my_strategy r, my_start_geo r, my_end_geo r, my_wmt r)"

definition conflict_update :: "mysql_row \<Rightarrow> mysql_row \<Rightarrow> mysql_row" where
  "conflict_update old row =
     old\<lparr>my_origin := my_origin row, my_destination := my_destination row, my_distance := my_distance row,
       my_duration := my_duration row, my_polyline := my_polyline row, my_provider := my_provider row, my_t := my_t row,
       my_updated_at := my_updated_at row, my_version := my_version old + 1\<rparr>"

record 'w mysql_db =
  db_create :: "(mysql_row \<Rightarrow> conflict_key) \<Rightarrow> (mysql_row \<Rightarrow> mysql_row \<Rightarrow> mysql_row) \<Rightarrow> mysql_row \<Rightarrow> 'w \<Rightarrow> string option \<times> 'w"
  db_find_slots :: "string \<Rightarrow> int \<Rightarrow> int \<Rightarrow> string \<Rightarrow> string \<Rightarrow> string list \<Rightarrow> 'w \<Rightarrow> (string + mysql_row list) \<times> 'w"
  db_find_hour :: "string \<Rightarrow> int \<Rightarrow> int \<Rightarrow> string \<Rightarrow> string \<Rightarrow> string \<Rightarrow> 'w \<Rightarrow> (string + mysql_row list) \<times> 'w"

text \<open>The store; \<open>None\<close> is a nil store or a nil database handle.\<close>

type_synonym 'w mysql_store = "'w mysql_db option"

definition mysql_Upsert :: "coord_json \<Rightarrow> (coord \<Rightarrow> string) \<Rightarrow> ('w \<Rightarrow> civil_time) \<Rightarrow> ('w \<Rightarrow> int) \<Rightarrow> 'w mysql_store \<Rightarrow>
    lookup_opts \<Rightarrow> edge \<Rightarrow> 'w \<Rightarrow> string option \<times> 'w" where
  "mysql_Upsert js gh now unix s opts e w =
     (case s of
        None \<Rightarrow> (None, w)
      | Some db \<Rightarrow>
          if ed_distance e = 0 then (None, w)
          else db_create db conflict_columns conflict_update (row_of_edge js gh (now w) (unix w) opts e) w)"

definition coord_or_zero :: "coord_json \<Rightarrow> string \<Rightarrow> coord" where
  "coord_or_zero js raw = (case parseCoord js raw of Some p \<Rightarrow> p | None \<Rightarrow> (0, 0))"

definition rowToEdge :: "coord_json \<Rightarrow> mysql_row \<Rightarrow> edge" where
  "rowToEdge js r =
     \<lparr>ed_origin = coord_or_zero js (my_origin r), ed_destination = coord_or_zero js (my_destination r),
      ed_distance = cj_f32 js (my_distance r), ed_duration = cj_f32 js (my_duration r),
      ed_polyline = my_polyline r, ed_wmt = my_wmt r, ed_provider = my_provider r, ed_computed_at = None\<rparr>"

definition getBySlots :: "coord_json \<Rightarrow> 'w mysql_db \<Rightarrow> string \<Rightarrow> int \<Rightarrow> int \<Rightarrow> string \<Rightarrow> string \<Rightarrow> string list \<Rightarrow> 'w \<Rightarrow>
    (string + edge option) \<times> 'w" where
  "getBySlots js db tenant method strategy start stop slots w =
     (case db_find_slots db tenant method strategy start stop slots w of
        (Inl err, w') \<Rightarrow> (Inl err, w')
      | (Inr rows, w') \<Rightarrow>
          let bySlot = fold (\<lambda>r m. m(my_wmt r \<mapsto> r)) rows Map.empty
          in (Inr (map_option (rowToEdge js) (case List.map_filter bySlot slots of r # _ \<Rightarrow> Some r | [] \<Rightarrow> None)), w'))"

definition getByHour :: "coord_json \<Rightarrow> 'w mysql_db \<Rightarrow> string \<Rightarrow> int \<Rightarrow> int \<Rightarrow> string \<Rightarrow> string \<Rightarrow> string \<Rightarrow> coord \<Rightarrow> coord \<Rightarrow> 'w \<Rightarrow>
    (string + edge option) \<times> 'w" where
  "getByHour js db tenant method strategy start stop t origin destination w =
     (case db_find_hour db tenant method strategy start stop t w of
        (Inl err, w') \<Rightarrow> (Inl err, w')
      | (Inr [], w') \<Rightarrow> (Inr None, w')
      | (Inr (r # _), w') \<Rightarrow>
          let e0 = rowToEdge js r;
              e1 = (if ed_origin e0 = (0, 0) then e0\<lparr>ed_origin := origin\<rparr> else e0);
              e2 = (if ed_destination e1 = (0, 0) then e1\<lparr>ed_destination := destination\<rparr> else e1)
          in (Inr (Some e2), w'))"

definition mysql_Get :: "coord_json \<Rightarrow> (coord \<Rightarrow> string) \<Rightarrow> ('w \<Rightarrow> civil_time) \<Rightarrow> 'w mysql_store \<Rightarrow> lookup_opts \<Rightarrow> coord \<Rightarrow> coord \<Rightarrow> 'w \<Rightarrow>
    (string + edge option) \<times> 'w" where
  "mysql_Get js gh now s opts origin destination w =
     (case s of
        None \<Rightarrow> (Inr None, w)
      | Some db \<Rightarrow>
          let tenant = tenant_name (lo_tenant opts);
              slot = mem_slot (now w) (lo_time_slot opts);
              start = gh origin;
              stop = gh destination;
              slots = (if lo_strict opts then [slot] else AdjacentSlots (now w) slot)
          in (case getBySlots js db tenant (lo_method opts) (lo_strategy opts) start stop slots w of
                (Inl err, w') \<Rightarrow> (Inl err, w')
              | (Inr (Some e), w') \<Rightarrow> (Inr (Some e), w')
              | (Inr None, w') \<Rightarrow>
                  if lo_strict opts then (Inr None, w')
                  else getByHour js db tenant (lo_method opts) (lo_strategy opts) start stop (HourBucket (now w) slot)
                         origin destination w'))"

section \<open>Facts\<close>

text \<open>An edge survives the row format up to the rounding of its coordinates.\<close>

lemma rowToEdge_row_of_edge:
  assumes "\<And>v. cj_decode js (cj_encode js v) = Some v"
    and "cj_f32 js (ed_distance e) = ed_distance e" "cj_f32 js (ed_duration e) = ed_duration e"
  shows "rowToEdge js (row_of_edge js gh now u opts e) =
    e\<lparr>ed_origin := (cj_f32 js (round6 (fst (ed_origin e))), cj_f32 js (round6 (snd (ed_origin e)))),
      ed_destination := (cj_f32 js (round6 (fst (ed_destination e))), cj_f32 js (round6 (snd (ed_destination e)))),
      ed_wmt := mem_slot now (ed_wmt e), ed_computed_at := None\<rparr>"
  by (simp add: rowToEdge_def row_of_edge_def coord_or_zero_def parseCoord_def coordJSON_def assms Let_def)

text \<open>Non-negative coordinates are rounded to the nearest micro-degree, negative ones are not.\<close>

lemma round6_nearest: "0 \<le> x \<Longrightarrow> \<bar>round6 x - x\<bar> \<le> 1 / (2 * 10 ^ 6)"
proof -
  assume x: "0 \<le> x"
  define y where "y = x * 10 ^ 6"
  have "\<bar>of_int \<lfloor>y + 1 / 2\<rfloor> - y\<bar> \<le> 1 / 2" by linarith
  moreover have "round6 x = of_int \<lfloor>y + 1 / 2\<rfloor> / 10 ^ 6"
    using x by (simp add: round6_def trunc_int_def y_def)
  ultimately have "\<bar>round6 x * 10 ^ 6 - y\<bar> \<le> 1 / 2" by simp
  then have "\<bar>round6 x * 10 ^ 6 - x * 10 ^ 6\<bar> \<le> 1 / 2" by (simp only: y_def)
  then have "round6 x * 10 ^ 6 - x * 10 ^ 6 \<le> 1 / 2 \<and> - (round6 x * 10 ^ 6 - x * 10 ^ 6) \<le> 1 / 2"
    by (simp only: abs_le_iff)
  then show ?thesis by (intro abs_leI) (simp_all add: field_simps)
qed

lemma round6_negative: "round6 (- 1) = - 999999 / 10 ^ 6"
proof -
  have "\<lceil>- 1999999 / (2 :: real)\<rceil> = - 999999" by (simp add: ceiling_divide_eq_div_numeral)
  then show ?thesis by (simp add: round6_def trunc_int_def)
qed

text \<open>Methods beyond 32 bits are stored under another number than they are looked up.\<close>

lemma int32_small: "- (2 ^ 31) \<le> x \<Longrightarrow> x < 2 ^ 31 \<Longrightarrow> int32 x = x"
  unfolding int32_def
  by (simp add: sint_sbintrunc' signed_take_bit_int_eq_self)

lemma find_first:
  assumes "P n" "\<forall>i < n. \<not> P i" "n < m"
  shows "find P [0..<m] = Some n"
  using assms by (auto simp: find_Some_iff intro!: exI [of _ n])

lemma find_upt_Some:
  assumes "find P [0..<m] = Some n"
  shows "P n" "n < m" "\<forall>i < n. \<not> P i"
  using assms by (auto simp: find_Some_iff)

lemma str_index_take:
  assumes "str_index s p = Some i"
  shows "str_index (take (i + length p) s @ t) p = Some i" "i + length p \<le> length s"
proof -
  note f = find_upt_Some [OF assms [unfolded str_index_def]]
  show len: "i + length p \<le> length s"
    using f(1,2) by (cases "p = []") (auto simp: HasPrefix_def dest: arg_cong [of _ _ length])
  have pre: "take (length p) (drop j (take (i + length p) s @ t)) = take (length p) (drop j s)" if "j \<le> i" for j
    using that len by (simp add: take_drop min_def)
  show "str_index (take (i + length p) s @ t) p = Some i"
    unfolding str_index_def
    by (rule find_first) (use f len pre in \<open>auto simp: HasPrefix_def drop_take\<close>)
qed

lemma IndexAny_prefix:
  assumes "set n \<inter> set cs = {}" "q = [] \<or> hd q \<in> set cs"
  shows "(case IndexAny (n @ q) cs of None \<Rightarrow> n @ q | Some j \<Rightarrow> take j (n @ q)) = n"
proof (cases q)
  case Nil
  then have "IndexAny (n @ q) cs = None"
    using assms(1) nth_mem by (fastforce simp: IndexAny_def find_None_iff)
  with Nil show ?thesis by simp
next
  case (Cons a r)
  have "IndexAny (n @ q) cs = Some (length n)"
    unfolding IndexAny_def
    by (rule find_first) (use assms Cons in \<open>auto simp: nth_append dest: nth_mem\<close>)
  then show ?thesis by simp
qed

lemma str_index_hd:
  assumes "str_index s [c] = Some j"
  shows "hd (drop j s) = c"
  using find_upt_Some(1) [OF assms [unfolded str_index_def]] by (cases "drop j s") (auto simp: HasPrefix_def)

text \<open>The database name that \<open>withDatabase\<close> puts into a name is the one \<open>databaseFromDSN\<close> finds.\<close>

lemma databaseFromDSN_withDatabase:
  assumes "str_index dsn '')/'' = Some i" "name \<noteq> ''''" "set name \<inter> set ''?/'' = {}"
  shows "databaseFromDSN (withDatabase dsn name) = name"
proof -
  define q where "q = (case str_index (drop (i + 2) dsn) ''?'' of Some j \<Rightarrow> drop j (drop (i + 2) dsn) | None \<Rightarrow> [])"
  have w: "withDatabase dsn name = take (i + 2) dsn @ name @ q"
    using assms(1) unfolding q_def withDatabase_def Let_def option.case by (simp only: option.case)
  have q: "q = [] \<or> hd q \<in> set ''?/''"
  proof (cases "str_index (drop (i + 2) dsn) ''?''")
    case (Some j)
    then show ?thesis using str_index_hd [OF Some] by (simp add: q_def)
  qed (simp add: q_def)
  have len: "i + 2 \<le> length dsn" using str_index_take(2) [OF assms(1)] by simp
  have i: "str_index (take (i + 2) dsn @ name @ q) '')/'' = Some i"
    using str_index_take(1) [OF assms(1), of "name @ q"] by simp
  have np: "\<not> HasPrefix (name @ q) ''?''"
    using assms(2,3) by (cases name) (auto simp: HasPrefix_def)
  show ?thesis
    using IndexAny_prefix [OF assms(3) q] np assms(2) i len by (simp add: databaseFromDSN_def w Let_def)
qed

end
