(* ===== verification/Mysql_Open.thy ===== *)
theory Mysql_Open
  imports Mysql_Archive
begin

text \<open>
  Opening, migrating and closing the MySQL store (\<open>internal/persist/store.go\<close>). GORM is the
  parameter: \<open>gorm_open\<close> connects to a data source name, and a connection is a record of the calls
  the code makes on it. The logger configuration is left out. The lemmas say what a store that
  \<open>Open\<close> returns can rely on.
\<close>

section \<open>GORM\<close>

record 'w gorm_db =
  gd_sql :: "string option"
  gd_pool :: "int \<Rightarrow> int \<Rightarrow> 'w \<Rightarrow> 'w"
  gd_ping :: "'w \<Rightarrow> string option \<times> 'w"
  gd_migrate :: "'w \<Rightarrow> string option \<times> 'w"
  gd_has_table :: "'w \<Rightarrow> bool \<times> 'w"
  gd_exec :: "string \<Rightarrow> 'w \<Rightarrow> string option \<times> 'w"
  gd_close :: "'w \<Rightarrow> string option \<times> 'w"
  gd_rows :: "'w mysql_db"

text \<open>\<open>gd_sql\<close> is the error of \<open>db.DB()\<close>, if there is one.\<close>

type_synonym 'w gorm_open = "string \<Rightarrow> 'w \<Rightarrow> (string + 'w gorm_db) \<times> 'w"

datatype open_error =
    EmptyDSN
  | CreateDatabaseFailed string
  | GormOpenFailed string
  | SqlHandleFailed string
  | PingFailed string
  | AutoMigrateFailed string
  | TableMissing string

section \<open>The code\<close>

record open_options =
  op_dsn :: string
  op_database :: string
  op_max_open :: int
  op_max_idle :: int
  op_auto_migrate :: bool

definition quote_backticks :: "string \<Rightarrow> string" where
  "quote_backticks s = concat (map (\<lambda>c. if c = CHR 0x60 then [CHR 0x60, CHR 0x60] else [c]) s)"

definition ensureDatabase :: "'w gorm_open \<Rightarrow> string \<Rightarrow> string \<Rightarrow> 'w \<Rightarrow> string option \<times> 'w" where
  "ensureDatabase gorm dsn dbName w =
     (let rootDSN = withDatabase dsn '''' in
      case gorm rootDSN w of
        (Inl err, w1) \<Rightarrow> (Some err, w1)
      | (Inr db, w1) \<Rightarrow>
          (case gd_sql db of
             Some err \<Rightarrow> (Some err, w1)
           | None \<Rightarrow>
               let (r, w2) = gd_exec db (''CREATE DATABASE IF NOT EXISTS '' @ [CHR 0x60] @ quote_backticks dbName @ [CHR 0x60]) w1;
                   (_, w3) = gd_close db w2
               in (r, w3)))"

text \<open>The connection part of \<open>Open\<close>, for the final data source name.\<close>

definition open_connection :: "'w gorm_open \<Rightarrow> open_options \<Rightarrow> string \<Rightarrow> 'w \<Rightarrow> (open_error + 'w gorm_db) \<times> 'w" where
  "open_connection gorm opts dsn w =
     (let maxOpen = (if op_max_open opts \<le> 0 then 10 else op_max_open opts);
          maxIdle = (if op_max_idle opts \<le> 0 then 5 else op_max_idle opts) in
      case gorm dsn w of
        (Inl err, w1) \<Rightarrow> (Inl (GormOpenFailed err), w1)
      | (Inr db, w1) \<Rightarrow>
          (case gd_sql db of
             Some err \<Rightarrow> (Inl (SqlHandleFailed err), w1)
           | None \<Rightarrow>
               (case gd_ping db (gd_pool db maxOpen maxIdle w1) of
                  (Some err, w2) \<Rightarrow> (Inl (PingFailed err), snd (gd_close db w2))
                | (None, w2) \<Rightarrow>
                    if op_auto_migrate opts
                    then (case gd_migrate db w2 of
                            (Some err, w3) \<Rightarrow> (Inl (AutoMigrateFailed err), snd (gd_close db w3))
                          | (None, w3) \<Rightarrow> (Inr db, w3))
                    else (case gd_has_table db w2 of
                            (False, w3) \<Rightarrow> (Inl (TableMissing TableName), snd (gd_close db w3))
                          | (True, w3) \<Rightarrow> (Inr db, w3)))))"

definition mysql_Open :: "'w gorm_open \<Rightarrow> open_options \<Rightarrow> 'w \<Rightarrow> (open_error + 'w gorm_db) \<times> 'w" where
  "mysql_Open gorm opts w =
     (let dsn = TrimSpace (op_dsn opts) in
      if dsn = '''' then (Inl EmptyDSN, w)
      else let db0 = TrimSpace (op_database opts);
               dbName = (if db0 = '''' then databaseFromDSN dsn else db0)
           in case (if op_auto_migrate opts \<and> dbName \<noteq> '''' then ensureDatabase gorm dsn dbName w else (None, w)) of
                (Some err, w1) \<Rightarrow> (Inl (CreateDatabaseFailed err), w1)
              | (None, w1) \<Rightarrow>
                  open_connection gorm opts (if dbName \<noteq> '''' then withDatabase dsn dbName else dsn) w1)"

text \<open>\<open>Migrate\<close> and \<open>Close\<close>; \<open>None\<close> is a nil store.\<close>

definition mysql_Migrate :: "'w gorm_db option \<Rightarrow> 'w \<Rightarrow> string option \<times> 'w" where
  "mysql_Migrate s w =
     (case s of None \<Rightarrow> (Some ''persist: nil store'', w) | Some db \<Rightarrow> gd_migrate db w)"

definition mysql_Close :: "'w gorm_db option \<Rightarrow> 'w \<Rightarrow> string option \<times> 'w" where
  "mysql_Close s w =
     (case s of
        None \<Rightarrow> (None, w)
      | Some db \<Rightarrow> (case gd_sql db of Some err \<Rightarrow> (Some err, w) | None \<Rightarrow> gd_close db w))"

section \<open>Facts\<close>

text \<open>A store that was opened has a live connection and its table: it was pinged, and the table was
  migrated or found.\<close>

lemma open_connection_ok:
  assumes "open_connection gorm opts dsn w = (Inr db, w')"
  obtains w1 w2 w3 where "gorm dsn w = (Inr db, w1)" "gd_sql db = None" "gd_ping db w2 = (None, w3)"
    "if op_auto_migrate opts then gd_migrate db w3 = (None, w') else gd_has_table db w3 = (True, w')"
proof -
  obtain r w1 where g: "gorm dsn w = (r, w1)" by (metis surj_pair)
  obtain q w3 where p: "gd_ping db (gd_pool db (if op_max_open opts \<le> 0 then 10 else op_max_open opts)
      (if op_max_idle opts \<le> 0 then 5 else op_max_idle opts) w1) = (q, w3)" by (metis surj_pair)
  have "r = Inr db" using assms g
    by (auto simp: open_connection_def Let_def split: sum.splits option.splits prod.splits if_splits bool.splits)
  moreover from this have "gd_sql db = None" using assms g by (auto simp: open_connection_def Let_def split: option.splits)
  moreover from calculation have "q = None" using assms g p by (auto simp: open_connection_def Let_def split: option.splits)
  moreover from calculation have "if op_auto_migrate opts then gd_migrate db w3 = (None, w') else gd_has_table db w3 = (True, w')"
    using assms g p by (auto simp: open_connection_def Let_def split: option.splits prod.splits if_splits bool.splits)
  ultimately show thesis using that g p by blast
qed

lemma Open_needs_dsn: "mysql_Open gorm opts w = (Inr db, w') \<Longrightarrow> TrimSpace (op_dsn opts) \<noteq> ''''"
  by (auto simp: mysql_Open_def Let_def)

text \<open>Quoting a name leaves no single backtick in it: every backtick comes in a pair.\<close>

fun paired :: "string \<Rightarrow> bool" where
  "paired [] \<longleftrightarrow> True"
| "paired [c] \<longleftrightarrow> c \<noteq> CHR 0x60"
| "paired (c # d # s) \<longleftrightarrow> (if c = CHR 0x60 then d = CHR 0x60 \<and> paired s else paired (d # s))"

lemma paired_Cons: "c \<noteq> CHR 0x60 \<Longrightarrow> paired (c # s) = paired s"
  by (cases s) auto

lemma quoted_name_paired: "paired (quote_backticks s)"
proof (induction s)
  case (Cons c s)
  then show ?case by (cases "c = CHR 0x60") (simp_all add: quote_backticks_def paired_Cons)
qed (simp add: quote_backticks_def)

end
