(* ===== verification/Rate_Limit.thy ===== *)
theory Rate_Limit
  imports Matrix_Prelude
begin

text \<open>
  \<open>internal/middleware/limit.go\<close>: a fixed-window limiter with one counter per tenant. Times are
  integer nanoseconds; the map of counters is a function into options. The mutex makes \<open>allow\<close>
  one atomic step, so a run of the limiter is a list of requests.
\<close>

section \<open>The code\<close>

record window_count =
  wc_start :: int
  wc_count :: int

record tenant_limiter =
  tl_limit :: int
  tl_window :: int
  tl_counters :: "string \<Rightarrow> window_count option"

definition TenantRateLimit :: "int \<Rightarrow> tenant_limiter" where
  "TenantRateLimit limit =
     \<lparr>tl_limit = (if limit \<le> 0 then 50 else limit), tl_window = 10 ^ 9, tl_counters = Map.empty\<rparr>"

definition allow :: "string \<Rightarrow> int \<Rightarrow> tenant_limiter \<Rightarrow> bool \<times> tenant_limiter" where
  "allow tenant now l =
     (case tl_counters l tenant of
        None \<Rightarrow> (True, l\<lparr>tl_counters := (tl_counters l)(tenant \<mapsto> \<lparr>wc_start = now, wc_count = 1\<rparr>)\<rparr>)
      | Some wc \<Rightarrow>
          if now - wc_start wc \<ge> tl_window l
          then (True, l\<lparr>tl_counters := (tl_counters l)(tenant \<mapsto> \<lparr>wc_start = now, wc_count = 1\<rparr>)\<rparr>)
          else if wc_count wc \<ge> tl_limit l then (False, l)
          else (True, l\<lparr>tl_counters := (tl_counters l)(tenant \<mapsto> wc\<lparr>wc_count := wc_count wc + 1\<rparr>)\<rparr>))"

section \<open>Runs\<close>

type_synonym timed_request = "string \<times> int"

fun after_requests :: "timed_request list \<Rightarrow> tenant_limiter \<Rightarrow> tenant_limiter" where
  "after_requests [] l = l"
| "after_requests ((u, t) # reqs) l = after_requests reqs (snd (allow u t l))"

fun granted :: "timed_request list \<Rightarrow> tenant_limiter \<Rightarrow> timed_request list" where
  "granted [] l = []"
| "granted ((u, t) # reqs) l = (if fst (allow u t l) then (u, t) # granted reqs (snd (allow u t l)) else granted reqs (snd (allow u t l)))"

lemma after_requests_append: "after_requests (xs @ ys) l = after_requests ys (after_requests xs l)"
  by (induction xs l rule: after_requests.induct) simp_all

lemma granted_append: "granted (xs @ ys) l = granted xs l @ granted ys (after_requests xs l)"
  by (induction xs l rule: granted.induct) simp_all

lemma granted_subset: "set (granted reqs l) \<subseteq> set reqs"
  by (induction reqs l rule: granted.induct) auto

text \<open>The grants of one tenant, by their times.\<close>

definition times_of :: "string \<Rightarrow> timed_request list \<Rightarrow> int list" where
  "times_of tenant reqs = map snd (filter (\<lambda>(u, t). u = tenant) reqs)"

lemma times_of_simps [simp]:
  "times_of tenant [] = []" "times_of tenant (xs @ ys) = times_of tenant xs @ times_of tenant ys"
  "times_of tenant [(u, t)] = (if u = tenant then [t] else [])"
  by (simp_all add: times_of_def)

definition count_in :: "int \<Rightarrow> int \<Rightarrow> int list \<Rightarrow> nat" where
  "count_in a b ts = length (filter (\<lambda>t. a \<le> t \<and> t < b) ts)"

definition count_from :: "int \<Rightarrow> int list \<Rightarrow> nat" where
  "count_from a ts = length (filter (\<lambda>t. a \<le> t) ts)"

lemma count_simps [simp]:
  "count_in a b [] = 0" "count_from a [] = 0"
  "count_in a b (ts @ [t]) = count_in a b ts + (if a \<le> t \<and> t < b then 1 else 0)"
  "count_from a (ts @ [t]) = count_from a ts + (if a \<le> t then 1 else 0)"
  by (simp_all add: count_in_def count_from_def)

lemma count_from_mono: "a \<le> b \<Longrightarrow> count_from b ts \<le> count_from a ts"
  unfolding count_from_def by (induction ts) auto

lemma count_from_split: "a \<le> b \<Longrightarrow> count_from a ts = count_in a b ts + count_from b ts"
  unfolding count_from_def count_in_def by (induction ts) auto

lemma count_in_le_from: "count_in a b ts \<le> count_from a ts"
  unfolding count_from_def count_in_def by (induction ts) auto

lemma count_in_shrink: "a \<le> a' \<Longrightarrow> count_in a' b ts \<le> count_in a b ts"
  unfolding count_in_def by (induction ts) auto

lemma count_from_none: "\<forall>t \<in> set ts. t < a \<Longrightarrow> count_from a ts = 0"
  unfolding count_from_def by (induction ts) auto

section \<open>The invariant of one counter\<close>

text \<open>
  \<open>ts\<close> are the times granted so far: the counter holds the number of grants since the start of its
  window, the windows before have left at most \<open>limit\<close> grants in the preceding window length, and
  no window length holds more than twice the limit.
\<close>

definition counter_ok :: "int \<Rightarrow> int \<Rightarrow> window_count option \<Rightarrow> int list \<Rightarrow> bool" where
  "counter_ok L W c ts \<longleftrightarrow>
     (\<forall>s. int (count_in s (s + W) ts) \<le> 2 * L) \<and>
     (case c of
        None \<Rightarrow> ts = []
      | Some wc \<Rightarrow> wc_count wc = int (count_from (wc_start wc) ts) \<and> wc_count wc \<le> L \<and>
          int (count_in (wc_start wc - W) (wc_start wc) ts) \<le> L \<and> (\<forall>t \<in> set ts. t < wc_start wc + W))"

lemma counter_ok_new:
  assumes "counter_ok L W (Some wc) ts" "wc_start wc + W \<le> now" "1 \<le> L" "0 < W"
  shows "counter_ok L W (Some \<lparr>wc_start = now, wc_count = 1\<rparr>) (ts @ [now])"
proof -
  have bound: "int (count_from s ts) \<le> L" if "wc_start wc \<le> s" for s
    using assms(1) count_from_mono [OF that, of ts] by (simp add: counter_ok_def)
  have "int (count_in s (s + W) (ts @ [now])) \<le> 2 * L" for s
  proof (cases "s \<le> now \<and> now < s + W")
    case True
    then have "wc_start wc \<le> s" using assms(2) by linarith
    from bound [OF this] count_in_le_from [of s "s + W" ts] True assms(3) show ?thesis by simp
  qed (use assms(1) in \<open>auto simp: counter_ok_def\<close>)
  moreover have "count_from now ts = 0"
    using assms(1,2) by (intro count_from_none) (fastforce simp: counter_ok_def)
  moreover have "int (count_in (now - W) now ts) \<le> L"
    using bound [of "now - W"] assms(2) count_in_le_from [of "now - W" now ts] by linarith
  ultimately show ?thesis using assms by (fastforce simp: counter_ok_def)
qed

lemma counter_ok_more:
  assumes "counter_ok L W (Some wc) ts" "now < wc_start wc + W" "wc_start wc \<le> now" "\<forall>t \<in> set ts. t \<le> now" "wc_count wc < L" "0 < W"
  shows "counter_ok L W (Some (wc\<lparr>wc_count := wc_count wc + 1\<rparr>)) (ts @ [now])"
proof -
  let ?a = "wc_start wc"
  have ok: "wc_count wc = int (count_from ?a ts)" "int (count_in (?a - W) ?a ts) \<le> L"
    using assms(1) by (simp_all add: counter_ok_def)
  have "int (count_in s (s + W) (ts @ [now])) \<le> 2 * L" for s
  proof (cases "s \<le> now \<and> now < s + W")
    case True
    have "int (count_from s ts) \<le> int (count_in (?a - W) ?a ts) + int (count_from ?a ts)"
    proof (cases "s \<le> ?a")
      case True
      then show ?thesis
        using count_from_split [OF True, of ts] count_in_shrink [of "?a - W" s ?a ts] \<open>s \<le> now \<and> now < s + W\<close> assms(3) by simp
    next
      case False
      then show ?thesis using count_from_mono [of ?a s ts] by simp
    qed
    with ok assms(5) count_in_le_from [of s "s + W" ts] True show ?thesis by simp
  qed (use assms(1) in \<open>auto simp: counter_ok_def\<close>)
  then show ?thesis using assms by (simp add: counter_ok_def)
qed

lemma counter_ok_first: "1 \<le> L \<Longrightarrow> 0 < W \<Longrightarrow> counter_ok L W (Some \<lparr>wc_start = now, wc_count = 1\<rparr>) [now]"
  by (auto simp: counter_ok_def count_in_def count_from_def)

section \<open>The invariant of a run\<close>

definition limiter_ok :: "timed_request list \<Rightarrow> tenant_limiter \<Rightarrow> bool" where
  "limiter_ok grants l \<longleftrightarrow> 1 \<le> tl_limit l \<and> 0 < tl_window l \<and>
     (\<forall>u. counter_ok (tl_limit l) (tl_window l) (tl_counters l u) (times_of u grants))"

text \<open>Counters never start in the future.\<close>

definition started :: "int \<Rightarrow> tenant_limiter \<Rightarrow> bool" where
  "started now l \<longleftrightarrow> (\<forall>u wc. tl_counters l u = Some wc \<longrightarrow> wc_start wc \<le> now)"

lemma limiter_ok_new: "limiter_ok [] (TenantRateLimit limit)"
  by (simp add: limiter_ok_def TenantRateLimit_def counter_ok_def)

lemma allow_config: "tl_limit (snd (allow u t l)) = tl_limit l \<and> tl_window (snd (allow u t l)) = tl_window l"
  by (simp add: allow_def split: option.split)

lemma allow_others: "u' \<noteq> u \<Longrightarrow> tl_counters (snd (allow u t l)) u' = tl_counters l u'"
  by (simp add: allow_def split: option.split)

lemma allow_started: "started s l \<Longrightarrow> s \<le> t \<Longrightarrow> started t (snd (allow u t l))"
  by (fastforce simp: started_def allow_def split: option.split)

lemma allow_ok:
  assumes ok: "limiter_ok grants l" and st: "started t l" and past: "\<forall>(v, s) \<in> set grants. s \<le> t"
  shows "limiter_ok (grants @ (if fst (allow u t l) then [(u, t)] else [])) (snd (allow u t l))"
proof -
  let ?L = "tl_limit l" and ?W = "tl_window l" and ?ts = "times_of u grants"
  have pos: "1 \<le> ?L" "0 < ?W" and c: "counter_ok ?L ?W (tl_counters l u) ?ts" using ok by (simp_all add: limiter_ok_def)
  have ts: "\<forall>s \<in> set ?ts. s \<le> t" using past by (auto simp: times_of_def)
  have "counter_ok ?L ?W (tl_counters (snd (allow u t l)) u) (?ts @ (if fst (allow u t l) then [t] else []))"
  proof (cases "tl_counters l u")
    case None
    then have "?ts = []" using c by (simp add: counter_ok_def)
    then show ?thesis using None pos by (simp add: allow_def counter_ok_first)
  next
    case (Some wc)
    have "wc_start wc \<le> t" using st Some by (simp add: started_def)
    then show ?thesis
      using c Some pos counter_ok_new [of ?L ?W wc ?ts t] counter_ok_more [of ?L ?W wc ?ts t, OF _ _ _ ts]
      by (simp add: allow_def)
  qed
  then have "counter_ok ?L ?W (tl_counters (snd (allow u t l)) v) (times_of v (grants @ (if fst (allow u t l) then [(u, t)] else [])))" for v
    using ok allow_others [of v u t l] by (cases "v = u") (auto simp: limiter_ok_def)
  then show ?thesis using pos allow_config [of u t l] by (simp add: limiter_ok_def)
qed

lemma run_ok:
  assumes "sorted (map snd reqs)" "\<forall>r \<in> set reqs. snd r \<le> now"
  shows "limiter_ok (granted reqs (TenantRateLimit limit)) (after_requests reqs (TenantRateLimit limit)) \<and>
    started now (after_requests reqs (TenantRateLimit limit))"
  using assms
proof (induction reqs arbitrary: now rule: rev_induct)
  case Nil
  show ?case using limiter_ok_new by (simp add: started_def TenantRateLimit_def)
next
  case (snoc r reqs)
  obtain u t where r: "r = (u, t)" by (cases r)
  let ?l = "after_requests reqs (TenantRateLimit limit)" and ?g = "granted reqs (TenantRateLimit limit)"
  have "sorted (map snd reqs)" "\<forall>r \<in> set reqs. snd r \<le> t" using snoc.prems r by (auto simp: sorted_append)
  from snoc.IH [OF this] have IH: "limiter_ok ?g ?l" "started t ?l" by auto
  have past: "\<forall>(v, s) \<in> set ?g. s \<le> t"
    using granted_subset [of reqs "TenantRateLimit limit"] \<open>\<forall>r \<in> set reqs. snd r \<le> t\<close> by fastforce
  have "t \<le> now" using snoc.prems r by simp
  with allow_started [OF IH(2) order_refl, of u] have "started now (snd (allow u t ?l))"
    unfolding started_def by force
  then show ?case
    using allow_ok [OF IH past, of u] by (simp add: r granted_append after_requests_append split: if_splits)
qed

lemma after_config: "tl_limit (after_requests reqs l) = tl_limit l \<and> tl_window (after_requests reqs l) = tl_window l"
  by (induction reqs l rule: after_requests.induct) (simp_all add: allow_config)

lemma refused_full:
  assumes "limiter_ok grants l" "\<not> fst (allow u t l)"
  shows "tl_limit l \<le> int (count_from (t - tl_window l + 1) (times_of u grants))"
proof -
  obtain wc where wc: "tl_counters l u = Some wc" "t - wc_start wc < tl_window l" "tl_limit l \<le> wc_count wc"
    using assms(2) by (auto simp: allow_def split: option.splits if_splits)
  have "counter_ok (tl_limit l) (tl_window l) (Some wc) (times_of u grants)" using assms(1) wc(1) by (metis limiter_ok_def)
  then have "wc_count wc = int (count_from (wc_start wc) (times_of u grants))" by (simp add: counter_ok_def)
  also have "\<dots> \<le> int (count_from (t - tl_window l + 1) (times_of u grants))"
    using wc(2) by (simp add: count_from_mono)
  finally show ?thesis using wc(3) by linarith
qed

section \<open>Properties\<close>

text \<open>
  C40: for requests in the order of time, the limiter grants every tenant at most twice its limit
  within any second, and refuses a request only if it has granted the tenant its full limit within
  the second before it, whatever the other tenants do.
\<close>

theorem limiter_bounds:
  assumes "sorted (map snd reqs)" "0 < limit"
  shows "int (length (filter (\<lambda>(u, t). u = tenant \<and> s \<le> t \<and> t < s + 10 ^ 9) (granted reqs (TenantRateLimit limit)))) \<le> 2 * limit \<and>
    (\<forall>ys t zs. reqs = ys @ (tenant, t) # zs \<longrightarrow> \<not> fst (allow tenant t (after_requests ys (TenantRateLimit limit))) \<longrightarrow>
       limit \<le> int (length (filter (\<lambda>(u, t'). u = tenant \<and> t - 10 ^ 9 < t') (granted ys (TenantRateLimit limit)))))"
proof -
  let ?l = "TenantRateLimit limit"
  have conf: "tl_limit ?l = limit" "tl_window ?l = 10 ^ 9" using assms(2) by (simp_all add: TenantRateLimit_def)
  have counts: "length (filter (\<lambda>(u, t). u = tenant \<and> P t) xs) = length (filter P (times_of tenant xs))" for P and xs :: "timed_request list"
    by (induction xs) (auto simp: times_of_def)
  have prefix: "limiter_ok (granted ys ?l) (after_requests ys ?l)" if "sorted (map snd ys)" for ys
  proof -
    have "\<forall>r \<in> set ys. snd r \<le> Max (insert 0 (snd ` set ys))" by simp
    from run_ok [OF that this] show ?thesis by blast
  qed
  have "int (count_in s (s + 10 ^ 9) (times_of tenant (granted reqs ?l))) \<le> 2 * limit"
    using prefix [OF assms(1)] conf after_config [of reqs ?l] by (simp add: limiter_ok_def counter_ok_def)
  moreover have "limit \<le> int (length (filter (\<lambda>t'. t - 10 ^ 9 < t') (times_of tenant (granted ys ?l))))"
    if reqs: "reqs = ys @ (tenant, t) # zs" "\<not> fst (allow tenant t (after_requests ys ?l))" for ys t zs
  proof -
    have "sorted (map snd ys)" using assms(1) reqs(1) by (simp add: sorted_append)
    from refused_full [OF prefix [OF this] reqs(2)] conf after_config [of ys ?l]
    have "limit \<le> int (count_from (t - 10 ^ 9 + 1) (times_of tenant (granted ys ?l)))" by simp
    moreover have "(\<lambda>t'. t - 10 ^ 9 + 1 \<le> t') = (\<lambda>t'. t - 10 ^ 9 < t')" by (rule ext) auto
    ultimately show ?thesis by (simp only: count_from_def)
  qed
  ultimately show ?thesis by (simp add: counts count_in_def)
qed

theorem limiter_bounds_witness:
  "granted [(''a'', 0), (''a'', 1), (''b'', 2), (''a'', 3), (''a'', 1000000000)] (TenantRateLimit 2) =
     [(''a'', 0), (''a'', 1), (''b'', 2), (''a'', 1000000000)] \<and>
   int (length (filter (\<lambda>(u, t). u = ''a'' \<and> 1 \<le> t \<and> t < 1 + 10 ^ 9)
     (granted [(''a'', 0), (''a'', 1), (''b'', 2), (''a'', 3), (''a'', 1000000000)] (TenantRateLimit 2)))) \<le> 4"
proof -
  have "granted [(''a'', 0), (''a'', 1), (''b'', 2), (''a'', 3), (''a'', 1000000000)] (TenantRateLimit 2) =
     [(''a'', 0), (''a'', 1), (''b'', 2), (''a'', 1000000000)]"
    by (simp add: allow_def TenantRateLimit_def)
  with limiter_bounds [of "[(''a'', 0), (''a'', 1), (''b'', 2), (''a'', 3), (''a'', 1000000000)]" 2 "''a''" 1] show ?thesis
    by simp
qed

text \<open>The factor two is reached: a full limit at the end of one window and at the start of the next.\<close>

lemma limiter_burst:
  "granted [(''a'', 0), (''a'', 999999998), (''a'', 999999999), (''a'', 1000000000), (''a'', 1000000001), (''a'', 1000000002)] (TenantRateLimit 3) =
     [(''a'', 0), (''a'', 999999998), (''a'', 999999999), (''a'', 1000000000), (''a'', 1000000001), (''a'', 1000000002)]"
  by (simp add: allow_def TenantRateLimit_def)

end
