(* ===== verification/Service_Context.thy ===== *)
theory Service_Context
  imports Matrix_Calls Mysql_Open Rate_Limit
begin

text \<open>
  \<open>internal/config/config.go\<close> and \<open>internal/svc/servicecontext.go\<close>: the configuration and the wiring
  of the components at startup. This is where the parameters of the other theories are bound: the
  provider is the Amap model on the shared key pool, the cache is the store on a Redis client, the
  archive is the MySQL store with its writer, the arc-cover planner is the dense one.

  The state of the running service is a \<open>world\<close>: the Amap provider with its key pool, the queue of
  the asynchronous writer, and the outside. Calls that leave the program are functions on the
  whole world, because other requests and the worker run while a call waits.
\<close>

section \<open>Configuration\<close>

text \<open>Of go-zero's \<open>RestConf\<close> the code reads these fields only.\<close>

record rest_conf =
  rc_host :: string
  rc_port :: int
  rc_timeout :: int

record redis_conf =
  rd_addr :: string
  rd_prefix :: string
  rd_edge_ttl :: int
  rd_enabled :: bool

record persistence_conf =
  pc_dsn :: string
  pc_database :: string
  pc_max_open :: int
  pc_max_idle :: int
  pc_async_queue :: int
  pc_auto_migrate :: bool

record engine_conf =
  ec_default_geo_wide :: int
  ec_max_points :: int
  ec_tenant_qps :: int

record amap_provider_conf =
  ap_enabled :: bool
  ap_keys :: string
  ap_base_url :: string
  ap_batch_size :: int
  ap_timeout_sec :: int
  ap_key_recovery_sec :: int
  ap_key_probe_sec :: int
  ap_key_confidence_tau :: real
  ap_key_beta_prior_a :: real
  ap_key_beta_prior_b :: real
  ap_key_failure_soft_weight :: real
  ap_key_epsilon_scale :: real
  ap_key_min_probe_rate :: real

record providers_conf =
  pv_amap :: amap_provider_conf

record service_config =
  cf_rest :: rest_conf
  cf_redis :: redis_conf
  cf_persistence :: persistence_conf
  cf_engine :: engine_conf
  cf_providers :: providers_conf

definition ForServer :: "service_config \<Rightarrow> service_config \<times> rest_conf" where
  "ForServer c =
     (let svcCfg = (if rc_timeout (cf_rest c) \<le> 0 then c\<lparr>cf_rest := (cf_rest c)\<lparr>rc_timeout := 30000\<rparr>\<rparr> else c)
      in (svcCfg, (cf_rest c)\<lparr>rc_timeout := 0\<rparr>))"

section \<open>The world of the service\<close>

text \<open>
  The writer as it is while the server runs: its channel is open, \<open>Close\<close> comes after the server has
  stopped. Its inner archive is the outside.
\<close>

record 'v outside =
  out_jobs :: "upsert_job list"
  out_hand :: "upsert_job option"
  out_rest :: 'v

type_synonym 'v world = "amap_provider \<times> 'v outside"

definition running_writer :: "int \<Rightarrow> 'v world \<Rightarrow> 'v world async_writer" where
  "running_writer queueSize w =
     (NewAsyncWriter w queueSize)\<lparr>aw_queue := out_jobs (snd w), aw_hand := out_hand (snd w)\<rparr>"

definition world_of_writer :: "'v world async_writer \<Rightarrow> 'v world" where
  "world_of_writer a =
     (fst (aw_inner a), (snd (aw_inner a))\<lparr>out_jobs := aw_queue a, out_hand := aw_hand a\<rparr>)"

definition service_enqueue :: "int \<Rightarrow> lookup_opts \<Rightarrow> edge \<Rightarrow> 'v world \<Rightarrow> 'v world option" where
  "service_enqueue queueSize opts e w =
     map_option world_of_writer (EnqueueUpsert opts e (running_writer queueSize w))"

text \<open>What lies outside the program.\<close>

record 'v service_env =
  ex_http :: "'v outside amap_http"
  ex_cast :: "string \<Rightarrow> real"
  ex_f32 :: "real \<Rightarrow> real"
  ex_clock :: "'v outside \<Rightarrow> int"
  ex_redis :: "string \<Rightarrow> 'v world redis"
  ex_geohash :: "real \<Rightarrow> real \<Rightarrow> nat \<Rightarrow> string"
  ex_edge_json :: "edge \<Rightarrow> string"
  ex_edge_parse :: "string \<Rightarrow> edge option"
  ex_civil :: "'v world \<Rightarrow> civil_time"
  ex_instant :: "'v world \<Rightarrow> int"
  ex_unix :: "'v world \<Rightarrow> int"
  ex_gorm :: "'v world gorm_open"
  ex_coord_json :: coord_json
  ex_sched :: "nat \<Rightarrow> nat list"
  ex_polls :: "'v world \<Rightarrow> poll"

definition redis_env :: "'v service_env \<Rightarrow> string \<Rightarrow> 'v world store_env" where
  "redis_env env addr =
     \<lparr>se_redis = ex_redis env addr, se_geohash = ex_geohash env, se_json = ex_edge_json env, se_parse = ex_edge_parse env,
      se_now = ex_civil env, se_instant = ex_instant env, se_unix = ex_unix env\<rparr>"

definition archive_geohash :: "'v service_env \<Rightarrow> coord \<Rightarrow> string" where
  "archive_geohash env p = ex_geohash env (snd p) (fst p) defaultPrecision"

text \<open>The MySQL store behind the interface of the engine, and the write of the worker.\<close>

definition mysql_archive :: "'v service_env \<Rightarrow> 'v world gorm_db \<Rightarrow> 'v world archive_ops" where
  "mysql_archive env db =
     \<lparr>ar_Get = mysql_Get (ex_coord_json env) (archive_geohash env) (ex_civil env) (Some (gd_rows db)),
      ar_Upsert = mysql_Upsert (ex_coord_json env) (archive_geohash env) (ex_civil env) (ex_unix env) (Some (gd_rows db))\<rparr>"

definition mysql_write :: "'v service_env \<Rightarrow> 'v world gorm_db \<Rightarrow> lookup_opts \<Rightarrow> edge \<Rightarrow> 'v world \<Rightarrow> 'v world" where
  "mysql_write env db opts e w =
     snd (mysql_Upsert (ex_coord_json env) (archive_geohash env) (ex_civil env) (ex_unix env) (Some (gd_rows db)) opts e w)"

section \<open>Startup\<close>

record 'v service_context =
  sx_config :: service_config
  sx_redis :: "'v world redis option"
  sx_cache :: "('v world store_env \<times> cache_store) option"
  sx_archive :: "'v world gorm_db option"
  sx_async :: "int option"
  sx_registry :: "(amap_error, 'v world) registry"
  sx_matrix :: "(amap_error, 'v world) engine"
  sx_planner :: planner

text \<open>\<open>sx_async\<close> is the queue size of the running writer; the writer's state is in the world.\<close>

definition amap_config_of :: "service_config \<Rightarrow> amap_config" where
  "amap_config_of c =
     (let a = pv_amap (cf_providers c) in
      \<lparr>ac_enabled = ap_enabled a, ac_keys = ap_keys a, ac_base_url = ap_base_url a, ac_batch_size = ap_batch_size a,
       ac_timeout_sec = ap_timeout_sec a, ac_key_recovery_sec = ap_key_recovery_sec a, ac_key_probe_sec = ap_key_probe_sec a,
       ac_confidence_tau = ap_key_confidence_tau a, ac_beta_prior_a = ap_key_beta_prior_a a,
       ac_beta_prior_b = ap_key_beta_prior_b a, ac_failure_soft_weight = ap_key_failure_soft_weight a,
       ac_epsilon_scale = ap_key_epsilon_scale a, ac_min_probe_rate = ap_key_min_probe_rate a\<rparr>)"

definition service_registry :: "'v service_env \<Rightarrow> (amap_error, 'v world) registry" where
  "service_registry env =
     registry_SetDefault ''amap''
       (registry_Register (amap_interface (ex_http env) (ex_cast env) (ex_f32 env) (ex_clock env)) NewRegistry)"

definition connect_redis :: "'v service_env \<Rightarrow> service_config \<Rightarrow> 'v service_context \<Rightarrow> 'v world \<Rightarrow> 'v service_context \<times> 'v world" where
  "connect_redis env c ctx w =
     (if rd_enabled (cf_redis c)
      then let client = redis_env env (rd_addr (cf_redis c));
               ctx1 = ctx\<lparr>sx_redis := Some (se_redis client)\<rparr>
           in case store_Ping client w of
                (Some err, w1) \<Rightarrow> (ctx1, w1)
              | (None, w1) \<Rightarrow>
                  let cache = Some (client, NewStore (rd_prefix (cf_redis c)) (rd_edge_ttl (cf_redis c)))
                  in (ctx1\<lparr>sx_cache := cache, sx_matrix := (sx_matrix ctx1)\<lparr>en_cache := cache\<rparr>\<rparr>, w1)
      else (ctx, w))"

definition open_options_of :: "service_config \<Rightarrow> open_options" where
  "open_options_of c =
     (let p = cf_persistence c in
      \<lparr>op_dsn = TrimSpace (pc_dsn p), op_database = pc_database p, op_max_open = pc_max_open p,
       op_max_idle = pc_max_idle p, op_auto_migrate = pc_auto_migrate p\<rparr>)"

definition connect_archive :: "'v service_env \<Rightarrow> service_config \<Rightarrow> 'v service_context \<Rightarrow> 'v world \<Rightarrow> 'v service_context \<times> 'v world" where
  "connect_archive env c ctx w =
     (if TrimSpace (pc_dsn (cf_persistence c)) \<noteq> ''''
      then (case mysql_Open (ex_gorm env) (open_options_of c) w of
              (Inl err, w1) \<Rightarrow> (ctx, w1)
            | (Inr db, w1) \<Rightarrow>
                let queueSize = pc_async_queue (cf_persistence c)
                in (ctx\<lparr>sx_archive := Some db, sx_async := Some queueSize,
                      sx_matrix := (sx_matrix ctx)\<lparr>en_archive := Some (mysql_archive env db), en_async := Some (service_enqueue queueSize)\<rparr>\<rparr>, w1))
      else (ctx, w))"

definition NewServiceContext :: "'v service_env \<Rightarrow> service_config \<Rightarrow> 'v \<Rightarrow> 'v service_context \<times> 'v world" where
  "NewServiceContext env c v =
     (let reg = service_registry env;
          batch = (if ap_batch_size (pv_amap (cf_providers c)) \<le> 0 then 12 else ap_batch_size (pv_amap (cf_providers c)));
          plnr = NewPlanner batch;
          ctx = \<lparr>sx_config = c, sx_redis = None, sx_cache = None, sx_archive = None, sx_async = None, sx_registry = reg,
                 sx_matrix = \<lparr>en_cache = None, en_archive = None, en_async = None, en_planner = Some plnr, en_registry = reg,
                   en_arc_cover = Some (dense_cover (NewDensePlanner DefaultConfig)), en_max_points = ec_max_points (cf_engine c)\<rparr>,
                 sx_planner = plnr\<rparr>;
          w = (NewAmapProvider (amap_config_of c), \<lparr>out_jobs = [], out_hand = None, out_rest = v\<rparr>);
          (ctx1, w1) = connect_redis env c ctx w
      in connect_archive env c ctx1 w1)"

definition service_Ready :: "'v service_context \<Rightarrow> 'v world \<Rightarrow> bool" where
  "service_Ready s w =
     (if rd_enabled (cf_redis (sx_config s)) \<and> sx_cache s = None then False else registry_Ready (sx_registry s) w)"

text \<open>\<open>Close\<close> drains the writer, which then closes its store; without a writer it closes the store.\<close>

definition service_Close :: "'v service_env \<Rightarrow> 'v service_context \<Rightarrow> 'v world \<Rightarrow> 'v world option" where
  "service_Close env s w =
     (case sx_async s of
        Some queueSize \<Rightarrow>
          (case sx_archive s of
             Some db \<Rightarrow> map_option (\<lambda>a. snd (mysql_Close (Some db) (world_of_writer a)))
                          (async_Close (mysql_write env db) (running_writer queueSize w))
           | None \<Rightarrow> map_option world_of_writer (async_Close (\<lambda>opts e v. v) (running_writer queueSize w)))
      | None \<Rightarrow>
          (case sx_archive s of Some db \<Rightarrow> Some (snd (mysql_Close (Some db) w)) | None \<Rightarrow> Some w))"

section \<open>Facts\<close>

text \<open>The business deadline is positive, and go-zero's own timeout is off.\<close>

lemma ForServer_timeouts:
  "ForServer c = (svcCfg, restConf) \<Longrightarrow> 0 < rc_timeout (cf_rest svcCfg) \<and> rc_timeout restConf = 0 \<and>
   rc_host restConf = rc_host (cf_rest c) \<and> rc_port restConf = rc_port (cf_rest c)"
  by (auto simp: ForServer_def Let_def split: if_splits)

text \<open>The invariant of a context: the engine and the context hold the same components, the writer
  comes with an archive, and nothing else has been set.\<close>

definition context_wired :: "'v service_env \<Rightarrow> service_config \<Rightarrow> 'v service_context \<Rightarrow> bool" where
  "context_wired env c s \<longleftrightarrow>
     sx_config s = c \<and> sx_registry s = service_registry env \<and> 0 < batch_size (sx_planner s) \<and>
     en_planner (sx_matrix s) = Some (sx_planner s) \<and> en_registry (sx_matrix s) = sx_registry s \<and>
     en_arc_cover (sx_matrix s) = Some (dense_cover (NewDensePlanner DefaultConfig)) \<and>
     en_max_points (sx_matrix s) = ec_max_points (cf_engine c) \<and> en_cache (sx_matrix s) = sx_cache s \<and>
     en_archive (sx_matrix s) = map_option (mysql_archive env) (sx_archive s) \<and>
     en_async (sx_matrix s) = map_option service_enqueue (sx_async s) \<and>
     (sx_async s = None \<longleftrightarrow> sx_archive s = None)"

lemma connect_redis_wired: "context_wired env c s \<Longrightarrow> context_wired env c (fst (connect_redis env c s w))"
  by (auto simp: connect_redis_def context_wired_def Let_def split: prod.split option.split)

lemma connect_archive_wired: "context_wired env c s \<Longrightarrow> context_wired env c (fst (connect_archive env c s w))"
  by (auto simp: connect_archive_def context_wired_def Let_def split: prod.split sum.split)

lemma NewServiceContext_wired:
  assumes "NewServiceContext env c v = (s, w)"
  shows "context_wired env c s"
proof -
  let ?p = "NewPlanner (if ap_batch_size (pv_amap (cf_providers c)) \<le> 0 then 12 else ap_batch_size (pv_amap (cf_providers c)))"
  let ?s0 = "\<lparr>sx_config = c, sx_redis = None, sx_cache = None, sx_archive = None, sx_async = None, sx_registry = service_registry env,
     sx_matrix = \<lparr>en_cache = None, en_archive = None, en_async = None, en_planner = Some ?p, en_registry = service_registry env,
       en_arc_cover = Some (dense_cover (NewDensePlanner DefaultConfig)), en_max_points = ec_max_points (cf_engine c)\<rparr>, sx_planner = ?p\<rparr>"
  let ?w0 = "(NewAmapProvider (amap_config_of c), \<lparr>out_jobs = [], out_hand = None, out_rest = v\<rparr>)"
  have start: "context_wired env c ?s0" by (simp add: context_wired_def NewPlanner_def)
  obtain s1 w1 where redis: "connect_redis env c ?s0 ?w0 = (s1, w1)" by (metis surj_pair)
  have "s = fst (connect_archive env c s1 w1)"
    using assms by (simp add: NewServiceContext_def Let_def redis)
  with connect_archive_wired [of env c s1 w1] connect_redis_wired [OF start, of ?w0] redis show ?thesis by simp
qed

text \<open>A send to the running writer never panics, and what it does to the world.\<close>

lemma service_enqueue_total: "service_enqueue q opts e w \<noteq> None"
  by (simp add: service_enqueue_def EnqueueUpsert_def running_writer_def NewAsyncWriter_def)

lemma service_enqueue_provider: "service_enqueue q opts e w = Some w' \<Longrightarrow> fst w' = fst w"
  by (auto simp: service_enqueue_def EnqueueUpsert_def running_writer_def NewAsyncWriter_def world_of_writer_def split: if_splits)

lemma context_engine_safe:
  assumes "context_wired env c s" "lo_method opts < 10 ^ 12" "lo_strategy opts < 10 ^ 12"
  shows "engine_safe (sx_matrix s) opts"
  using assms service_enqueue_total by (auto simp: engine_safe_def small_context_def context_wired_def)

lemma context_cover: "context_wired env c s \<Longrightarrow> engine_arcCover (sx_matrix s) = dense_cover (NewDensePlanner DefaultConfig)"
  by (simp add: context_wired_def engine_arcCover_def)

lemma registry_default: "registry_Get '''' (service_registry env) =
    Some (amap_interface (ex_http env) (ex_cast env) (ex_f32 env) (ex_clock env))"
  by (simp add: service_registry_def registry_Get_def registry_SetDefault_def registry_Register_def NewRegistry_def amap_interface_def amap_Name_def)

lemma registry_only_amap:
  "registry_Get name (service_registry env) = Some prov \<Longrightarrow> name \<in> {'''', ''amap''} \<and>
   prov = amap_interface (ex_http env) (ex_cast env) (ex_f32 env) (ex_clock env)"
  by (auto simp: service_registry_def registry_Get_def registry_SetDefault_def registry_Register_def NewRegistry_def
      amap_interface_def amap_Name_def Let_def split: if_splits)

text \<open>The service is ready when the provider is enabled and has keys, and the cache that was asked for
  answered at startup.\<close>

lemma Ready_iff:
  assumes "context_wired env c s"
  shows "service_Ready s w \<longleftrightarrow> (rd_enabled (cf_redis c) \<longrightarrow> sx_cache s \<noteq> None) \<and> amap_Ready (fst w)"
  using assms by (auto simp: service_Ready_def context_wired_def service_registry_def registry_Ready_def registry_SetDefault_def
      registry_Register_def NewRegistry_def amap_interface_def)

text \<open>Closing returns; with a writer every job that is pending is written before the store closes.\<close>

lemma Close_writes_pending:
  assumes "sx_async s = Some q" "sx_archive s = Some db"
  obtains a where "async_Close (mysql_write env db) (running_writer q w) = Some a" "aw_queue a = []" "aw_hand a = None"
    "aw_inner a = apply_jobs (mysql_write env db) (pending (running_writer q w)) w"
    "service_Close env s w = Some (snd (mysql_Close (Some db) (world_of_writer a)))"
proof -
  have "\<not> aw_closed (running_writer q w)" by (simp add: running_writer_def NewAsyncWriter_def)
  then obtain a where a: "async_Close (mysql_write env db) (running_writer q w) = Some a" by (simp add: async_Close_def)
  have "aw_inner (running_writer q w) = w" by (simp add: running_writer_def NewAsyncWriter_def)
  then show thesis using that [OF a] Close_drains [OF a] assms a by (simp add: service_Close_def eventually_stored_def)
qed

end
