(* ===== verification/Matrix_Service.thy ===== *)
theory Matrix_Service
  imports Service_Context
begin

text \<open>
  The HTTP service: \<open>internal/types\<close>, \<open>internal/handler\<close>, \<open>internal/metrics\<close>, the limiter as the
  matrix handler uses it, and the route table. go-zero stays outside: a request comes with the
  outcome of \<open>httpx.Parse\<close> for the body of its endpoint, and a reply is the call that the handler
  makes (\<open>OkJson\<close>, \<open>HttpxError\<close>, or a status and a body of its own). \<open>None\<close> is a panic. Logging is
  left out.
\<close>

section \<open>Types\<close>

record matrix_api_request =
  ma_points :: "real list list"
  ma_coordinate :: string
  ma_strategy :: int
  ma_method :: int
  ma_time_slot :: string
  ma_strict :: bool
  ma_geo_wide :: int
  ma_provider :: string
  ma_speed :: int

record matrix_data =
  md_distances :: "real list list"
  md_durations :: "real list list"

record matrix_response =
  mp_code :: int
  mp_msg :: string
  mp_data :: "matrix_data option"

record route_api_request =
  ra_points :: "real list list"
  ra_coordinate :: string
  ra_strategy :: int
  ra_method :: int
  ra_provider :: string
  ra_speed :: int

record route_step =
  rs_origin :: "real list"
  rs_destination :: "real list"
  rs_distance :: real
  rs_duration :: real

record route_data =
  rt_distance :: real
  rt_duration :: real
  rt_steps :: "route_step list"

record route_response =
  rp_code :: int
  rp_msg :: string
  rp_data :: "route_data option"

record providers_response =
  pr_code :: int
  pr_msg :: string
  pr_data :: "string list"

datatype body = MatrixBody matrix_response | RouteBody route_response | ProvidersBody providers_response | TextBody string

datatype handler_error =
    ParseFailed string
  | InvalidPoint
  | NeedRoutePoints
  | NoProvider string
  | MatrixFailed "amap_error engine_error"
  | RouteFailed "amap_error plan_error"

datatype reply = OkJson body | HttpxError handler_error | Written int body

type_synonym 'w ctx = "'w \<Rightarrow> bool \<times> 'w"

record 'v http_request =
  hq_method :: string
  hq_path :: string
  hq_tenant :: string
  hq_matrix :: "string + matrix_api_request"
  hq_route :: "string + route_api_request"
  hq_ctx :: "'v world ctx"

section \<open>Metrics\<close>

text \<open>The four collectors as the list of observations made on them.\<close>

datatype metric_event =
    RequestsTotal string string
  | RequestDuration int string
  | FallbackEdges nat string
  | ProviderCalls nat string string

definition RecordMatrix :: "string \<Rightarrow> string \<Rightarrow> int \<Rightarrow> nat \<Rightarrow> nat \<Rightarrow> metric_event list \<Rightarrow> metric_event list" where
  "RecordMatrix tenant status elapsedMs fallbackEdges providerCalls ms =
     ms @ [RequestsTotal tenant status, RequestDuration elapsedMs tenant]
        @ (if fallbackEdges > 0 then [FallbackEdges fallbackEdges tenant] else [])
        @ (if providerCalls > 0 then [ProviderCalls providerCalls tenant ''amap''] else [])"

section \<open>Helpers\<close>

text \<open>The state of the server: the limiter of the matrix endpoint, the metrics, the world.\<close>

record 'v server =
  sr_limiter :: tenant_limiter
  sr_metrics :: "metric_event list"
  sr_world :: "'v world"

definition tenantID :: "'v http_request \<Rightarrow> string" where
  "tenantID r = (if hq_tenant r \<noteq> '''' then hq_tenant r else ''default'')"

definition clock :: "'v service_env \<Rightarrow> 'v world \<Rightarrow> int" where
  "clock env w = ex_clock env (snd w)"

definition parse_point :: "real list \<Rightarrow> coord option" where
  "parse_point p = (if length p < 2 then None else Some (p ! 0, p ! 1))"

definition parsePoints :: "real list list \<Rightarrow> coord list option" where
  "parsePoints raw = those (map parse_point raw)"

text \<open>\<open>context.WithTimeout\<close>: the context is done with its parent or after its deadline.\<close>

definition WithTimeout :: "('w \<Rightarrow> int) \<Rightarrow> int \<Rightarrow> int \<Rightarrow> 'w ctx \<Rightarrow> 'w ctx" where
  "WithTimeout now start d pctx = (\<lambda>w. case pctx w of (stop, w') \<Rightarrow> (stop \<or> now w' \<ge> start + d, w'))"

definition contextWithDeadline :: "('w \<Rightarrow> int) \<Rightarrow> 'w \<Rightarrow> 'w ctx \<Rightarrow> int \<Rightarrow> 'w ctx" where
  "contextWithDeadline now w pctx d = (if d \<le> 0 then pctx else WithTimeout now (now w) d pctx)"

text \<open>The middleware in front of a handler.\<close>

definition rate_limited :: "'v service_env \<Rightarrow> ('v http_request \<Rightarrow> 'v server \<Rightarrow> (reply \<times> 'v server) option) \<Rightarrow>
    'v http_request \<Rightarrow> 'v server \<Rightarrow> (reply \<times> 'v server) option" where
  "rate_limited env nxt r s =
     (let (ok, lim) = allow (tenantID r) (clock env (sr_world s)) (sr_limiter s); s1 = s\<lparr>sr_limiter := lim\<rparr>
      in if \<not> ok then Some (Written 429 (TextBody ''{\"code\":429,\"msg\":\"RATE_LIMIT\"}''), s1) else nxt r s1)"

section \<open>Handlers\<close>

definition geo_wide_of :: "service_config \<Rightarrow> matrix_api_request \<Rightarrow> int" where
  "geo_wide_of c req =
     (let g0 = ma_geo_wide req;
          g1 = (if g0 \<le> 0 then ec_default_geo_wide (cf_engine c) else g0)
      in if g1 \<le> 0 then 200 else g1)"

definition timeout_ms_of :: "service_config \<Rightarrow> int" where
  "timeout_ms_of c = (if rc_timeout (cf_rest c) \<le> 0 then 5000 else rc_timeout (cf_rest c))"

definition engine_request :: "service_config \<Rightarrow> string \<Rightarrow> matrix_api_request \<Rightarrow> coord list \<Rightarrow> matrix_request" where
  "engine_request c tenant req points =
     \<lparr>mr_points = points, mr_coordinate = ma_coordinate req, mr_strategy = ma_strategy req, mr_method = ma_method req,
      mr_time_slot = ma_time_slot req, mr_strict = ma_strict req, mr_geo_wide = geo_wide_of c req,
      mr_provider = ma_provider req, mr_speed = ma_speed req, mr_tenant = tenant\<rparr>"

definition matrix_call_env :: "'v service_env \<Rightarrow> 'v world ctx \<Rightarrow> 'v world call_env" where
  "matrix_call_env env ctx =
     \<lparr>cx_done = ctx, cx_polls = ex_polls env, cx_now = ex_civil env, cx_sched = ex_sched env, cx_f32 = ex_f32 env\<rparr>"

definition since_ms :: "'v service_env \<Rightarrow> 'v world \<Rightarrow> 'v world \<Rightarrow> int" where
  "since_ms env w0 w1 = (clock env w1 - clock env w0) div 10 ^ 6"

text \<open>The end of the handler: the reply to what \<open>Compute\<close> returned, and its metrics.\<close>

definition answer_matrix :: "'v service_env \<Rightarrow> string \<Rightarrow> 'v world \<Rightarrow> matrix_result option \<times> amap_error engine_error option \<Rightarrow>
    'v server \<Rightarrow> (reply \<times> 'v server) option" where
  "answer_matrix env tenant w0 = (\<lambda>(result, err) s.
     case err of
       Some MatrixDeadline \<Rightarrow>
         Some (Written 504 (MatrixBody \<lparr>mp_code = 504, mp_msg = ''MATRIX_DEADLINE'', mp_data = None\<rparr>),
           s\<lparr>sr_metrics := RecordMatrix tenant ''504'' (since_ms env w0 (sr_world s)) 0 0 (sr_metrics s)\<rparr>)
     | Some e \<Rightarrow> Some (HttpxError (MatrixFailed e), s)
     | None \<Rightarrow> do {
         mx \<leftarrow> result;
         Some (OkJson (MatrixBody \<lparr>mp_code = 200, mp_msg = ''OK'',
                 mp_data = Some \<lparr>md_distances = mx_distances mx, md_durations = mx_durations mx\<rparr>\<rparr>),
           s\<lparr>sr_metrics := RecordMatrix tenant ''200'' (since_ms env w0 (sr_world s)) (es_fallback_edges (mx_stats mx))
                (es_provider_calls (mx_stats mx)) (sr_metrics s)\<rparr>) })"

definition compute_matrix :: "'v service_env \<Rightarrow> 'v service_context \<Rightarrow> 'v http_request \<Rightarrow> 'v server \<Rightarrow> (reply \<times> 'v server) option" where
  "compute_matrix env svcCtx r s =
     (case hq_matrix r of
        Inl err \<Rightarrow> Some (HttpxError (ParseFailed err), s)
      | Inr req \<Rightarrow>
          (case parsePoints (ma_points req) of
             None \<Rightarrow> Some (HttpxError InvalidPoint, s)
           | Some points \<Rightarrow>
               let w0 = sr_world s;
                   ctx = contextWithDeadline (clock env) w0 (hq_ctx r) (timeout_ms_of (sx_config svcCtx) * 10 ^ 6)
               in do {
                 (res, w1) \<leftarrow> Compute (matrix_call_env env ctx) (sx_matrix svcCtx)
                                (engine_request (sx_config svcCtx) (tenantID r) req points) w0;
                 answer_matrix env (tenantID r) w0 res (s\<lparr>sr_world := w1\<rparr>) }))"

definition matrixHandler :: "'v service_env \<Rightarrow> 'v service_context \<Rightarrow> 'v http_request \<Rightarrow> 'v server \<Rightarrow> (reply \<times> 'v server) option" where
  "matrixHandler env svcCtx = rate_limited env (compute_matrix env svcCtx)"

definition route_step_of :: "step \<Rightarrow> route_step" where
  "route_step_of st =
     \<lparr>rs_origin = [fst (st_origin st), snd (st_origin st)], rs_destination = [fst (st_destination st), snd (st_destination st)],
      rs_distance = st_distance st, rs_duration = st_duration st\<rparr>"

definition add_route_step :: "step \<Rightarrow> route_data \<Rightarrow> route_data" where
  "add_route_step st d =
     d\<lparr>rt_steps := rt_steps d @ [route_step_of st], rt_distance := rt_distance d + st_distance st,
       rt_duration := rt_duration d + st_duration st\<rparr>"

definition routeHandler :: "'v service_env \<Rightarrow> 'v service_context \<Rightarrow> 'v http_request \<Rightarrow> 'v server \<Rightarrow> (reply \<times> 'v server) option" where
  "routeHandler env svcCtx r s =
     (case hq_route r of
        Inl err \<Rightarrow> Some (HttpxError (ParseFailed err), s)
      | Inr req \<Rightarrow>
          (case parsePoints (ra_points req) of
             None \<Rightarrow> Some (HttpxError InvalidPoint, s)
           | Some raw \<Rightarrow>
               if length raw < 2 then Some (HttpxError NeedRoutePoints, s)
               else do {
                 waypoints \<leftarrow> CoordConvertToGCJ02 (ex_f32 env) (toSlice raw) (ra_coordinate req);
                 case registry_Get (ra_provider req) (sx_registry svcCtx) of
                   None \<Rightarrow> Some (HttpxError (NoProvider (ra_provider req)), s)
                 | Some prov \<Rightarrow>
                     (case RouteWaypoints (ex_sched env) (prov_Route prov) (hq_ctx r) (sx_planner svcCtx)
                             \<lparr>rq_waypoints = [], rq_strategy = ra_strategy req, rq_method = ra_method req, rq_speed = ra_speed req\<rparr>
                             waypoints (sr_world s) of
                        ((Inl err, calls), w1) \<Rightarrow> Some (HttpxError (RouteFailed err), s\<lparr>sr_world := w1\<rparr>)
                      | ((Inr steps, calls), w1) \<Rightarrow>
                          Some (OkJson (RouteBody \<lparr>rp_code = 200, rp_msg = ''OK'',
                                  rp_data = Some (fold add_route_step steps \<lparr>rt_distance = 0, rt_duration = 0, rt_steps = []\<rparr>)\<rparr>),
                            s\<lparr>sr_world := w1\<rparr>)) }))"

definition providersHandler :: "'v service_context \<Rightarrow> 'v http_request \<Rightarrow> 'v server \<Rightarrow> (reply \<times> 'v server) option" where
  "providersHandler svcCtx r s =
     Some (OkJson (ProvidersBody \<lparr>pr_code = 200, pr_msg = ''OK'', pr_data = registry_List (sx_registry svcCtx)\<rparr>), s)"

definition healthLiveHandler :: "'v http_request \<Rightarrow> 'v server \<Rightarrow> (reply \<times> 'v server) option" where
  "healthLiveHandler r s = Some (Written 200 (TextBody ''ok''), s)"

definition healthReadyHandler :: "'v service_context \<Rightarrow> 'v http_request \<Rightarrow> 'v server \<Rightarrow> (reply \<times> 'v server) option" where
  "healthReadyHandler svcCtx r s =
     (if \<not> service_Ready svcCtx (sr_world s) then Some (Written 503 (TextBody ''not ready''), s)
      else Some (Written 200 (TextBody ''ready''), s))"

section \<open>The server\<close>

text \<open>The route table; a request that matches no entry is answered by the framework.\<close>

datatype endpoint = MatrixEndpoint | RouteEndpoint | ProvidersEndpoint | LiveEndpoint | ReadyEndpoint

definition RegisterHandlers :: "((string \<times> string) \<times> endpoint) list" where
  "RegisterHandlers =
     [((''POST'', ''/v1/matrix''), MatrixEndpoint), ((''POST'', ''/v1/route''), RouteEndpoint),
      ((''GET'', ''/v1/providers''), ProvidersEndpoint), ((''GET'', ''/health/live''), LiveEndpoint),
      ((''GET'', ''/health/ready''), ReadyEndpoint)]"

definition handle :: "'v service_env \<Rightarrow> 'v service_context \<Rightarrow> endpoint \<Rightarrow> 'v http_request \<Rightarrow> 'v server \<Rightarrow> (reply \<times> 'v server) option" where
  "handle env svcCtx ep =
     (case ep of
        MatrixEndpoint \<Rightarrow> matrixHandler env svcCtx
      | RouteEndpoint \<Rightarrow> routeHandler env svcCtx
      | ProvidersEndpoint \<Rightarrow> providersHandler svcCtx
      | LiveEndpoint \<Rightarrow> healthLiveHandler
      | ReadyEndpoint \<Rightarrow> healthReadyHandler svcCtx)"

text \<open>The worker of the asynchronous writer takes a step when there is one.\<close>

definition worker_turn :: "'v service_env \<Rightarrow> 'v service_context \<Rightarrow> 'v world \<Rightarrow> 'v world" where
  "worker_turn env svcCtx w =
     (case (sx_async svcCtx, sx_archive svcCtx) of
        (Some q, Some db) \<Rightarrow> world_of_writer (worker_step (mysql_write env db) (running_writer q w))
      | _ \<Rightarrow> w)"

datatype 'v event = Request "'v http_request" | WorkerTurn

text \<open>Serving a sequence of events: the replies with their endpoints, and the state after it.\<close>

fun serve :: "'v service_env \<Rightarrow> 'v service_context \<Rightarrow> 'v event list \<Rightarrow> 'v server \<Rightarrow>
    ((endpoint \<times> 'v http_request \<times> reply) list \<times> 'v server) option" where
  "serve env svcCtx [] s = Some ([], s)"
| "serve env svcCtx (WorkerTurn # evs) s = serve env svcCtx evs (s\<lparr>sr_world := worker_turn env svcCtx (sr_world s)\<rparr>)"
| "serve env svcCtx (Request r # evs) s =
     (case map_of RegisterHandlers (hq_method r, hq_path r) of
        None \<Rightarrow> serve env svcCtx evs s
      | Some ep \<Rightarrow> do {
          (rep, s1) \<leftarrow> handle env svcCtx ep r s;
          (reps, s2) \<leftarrow> serve env svcCtx evs s1;
          Some ((ep, r, rep) # reps, s2) })"

text \<open>\<open>main\<close> up to the moment the server accepts requests.\<close>

definition start_service :: "'v service_env \<Rightarrow> service_config \<Rightarrow> 'v \<Rightarrow> 'v service_context \<times> rest_conf \<times> 'v server" where
  "start_service env c v =
     (let (svcCfg, restConf) = ForServer c;
          (svcCtx, w) = NewServiceContext env svcCfg v
      in (svcCtx, restConf, \<lparr>sr_limiter = TenantRateLimit (ec_tenant_qps (cf_engine svcCfg)), sr_metrics = [], sr_world = w\<rparr>))"

section \<open>What the handlers promise\<close>

definition matrix_reply_ok :: "nat \<Rightarrow> reply \<Rightarrow> bool" where
  "matrix_reply_ok n rep \<longleftrightarrow>
     (case rep of
        HttpxError err \<Rightarrow> True
      | Written status b \<Rightarrow> status = 429 \<or> status = 504
      | OkJson b \<Rightarrow> (\<exists>d. b = MatrixBody \<lparr>mp_code = 200, mp_msg = ''OK'', mp_data = Some d\<rparr> \<and>
          square n (md_distances d) \<and> square n (md_durations d) \<and>
          (\<forall>i < n. md_distances d ! i ! i = 0 \<and> md_durations d ! i ! i = 0)))"

text \<open>The steps of a route reply join neighbouring points of the converted request, and the totals
  are their sums.\<close>

definition route_reply_ok :: "(real \<Rightarrow> real) \<Rightarrow> route_api_request \<Rightarrow> reply \<Rightarrow> bool" where
  "route_reply_ok f32 req rep \<longleftrightarrow>
     (case rep of
        HttpxError err \<Rightarrow> True
      | Written status b \<Rightarrow> False
      | OkJson b \<Rightarrow> (\<exists>d raw wps. b = RouteBody \<lparr>rp_code = 200, rp_msg = ''OK'', rp_data = Some d\<rparr> \<and>
          parsePoints (ra_points req) = Some raw \<and> CoordConvertToGCJ02 f32 (toSlice raw) (ra_coordinate req) = Some wps \<and>
          rt_distance d = (\<Sum>st \<leftarrow> rt_steps d. rs_distance st) \<and> rt_duration d = (\<Sum>st \<leftarrow> rt_steps d. rs_duration st) \<and>
          (\<forall>st \<in> set (rt_steps d). \<exists>(a, b) \<in> set (legs_of wps).
             rs_origin st = [fst a, snd a] \<and> rs_destination st = [fst b, snd b])))"

definition reply_ok :: "'v service_env \<Rightarrow> endpoint \<Rightarrow> 'v http_request \<Rightarrow> reply \<Rightarrow> bool" where
  "reply_ok env ep r rep \<longleftrightarrow>
     (case ep of
        MatrixEndpoint \<Rightarrow> (case hq_matrix r of
            Inl err \<Rightarrow> rep = HttpxError (ParseFailed err) \<or> (\<exists>b. rep = Written 429 b)
          | Inr req \<Rightarrow> matrix_reply_ok (length (ma_points req)) rep)
      | RouteEndpoint \<Rightarrow> (case hq_route r of
            Inl err \<Rightarrow> rep = HttpxError (ParseFailed err)
          | Inr req \<Rightarrow> route_reply_ok (ex_f32 env) req rep)
      | ProvidersEndpoint \<Rightarrow> rep = OkJson (ProvidersBody \<lparr>pr_code = 200, pr_msg = ''OK'', pr_data = [''amap'']\<rparr>)
      | LiveEndpoint \<Rightarrow> rep = Written 200 (TextBody ''ok'')
      | ReadyEndpoint \<Rightarrow> rep = Written 200 (TextBody ''ready'') \<or> rep = Written 503 (TextBody ''not ready''))"

text \<open>A request within the bounds of the key format and of vertex numbers.\<close>

definition bounded_request :: "'v http_request \<Rightarrow> bool" where
  "bounded_request r \<longleftrightarrow>
     (\<forall>req. hq_matrix r = Inr req \<longrightarrow> ma_method req < 10 ^ 12 \<and> ma_strategy req < 10 ^ 12 \<and> length (ma_points req) \<le> 2 ^ 16)"

lemma those_length: "those xs = Some ys \<Longrightarrow> length ys = length xs"
  by (induction xs arbitrary: ys) (auto split: option.splits)

lemma parsePoints_length: "parsePoints raw = Some pts \<Longrightarrow> length pts = length raw"
  by (drule those_length [of "map parse_point raw" pts, folded parsePoints_def]) simp

lemma compute_opts_engine_request:
  "lo_method (compute_opts (engine_request c t req pts)) = ma_method req"
  "lo_strategy (compute_opts (engine_request c t req pts)) = ma_strategy req"
  by (simp_all add: compute_opts_def engine_request_def)

lemma engine_request_points [simp]: "mr_points (engine_request c t req pts) = pts"
  by (simp add: engine_request_def)

text \<open>A matrix without an error is square with a zero diagonal.\<close>

lemma Compute_square:
  assumes "Compute cx e rq w = Some ((Some mx, None), w')"
  shows "square (length (mr_points rq)) (mx_distances mx) \<and> square (length (mr_points rq)) (mx_durations mx) \<and>
    (\<forall>i < length (mr_points rq). mx_distances mx ! i ! i = 0 \<and> mx_durations mx ! i ! i = 0)"
proof (rule Compute_entries_answered [OF assms])
  fix prov wps
  assume "length wps = length (mr_points rq)" "square (length wps) (mx_distances mx)" "square (length wps) (mx_durations mx)"
    and ent: "\<And>i j. i < length wps \<Longrightarrow> j < length wps \<Longrightarrow>
      entry (mx_distances mx) (mx_durations mx) i j = (0, 0) \<and> (i = j \<or> None \<noteq> None) \<or>
      i \<noteq> j \<and> answered e prov (compute_opts rq) (compute_route_request rq) (mr_strict rq) (wps ! i) (wps ! j)
        (entry (mx_distances mx) (mx_durations mx) i j)"
  then show ?thesis using ent [of i i for i] by (auto simp: entry_def)
qed

text \<open>The middleware: a refused request changes nothing but the limiter, another one is passed on.\<close>

lemma rate_limited_refuses:
  assumes "allow (tenantID r) (clock env (sr_world s)) (sr_limiter s) = (False, l1)"
  shows "\<exists>b. rate_limited env nxt r s = Some (Written 429 (TextBody b), s\<lparr>sr_limiter := l1\<rparr>)"
  using assms by (simp add: rate_limited_def)

lemma rate_limited_total:
  assumes "\<And>s1. \<exists>rep s'. nxt r s1 = Some (rep, s') \<and> P rep" "\<And>b. P (Written 429 b)"
  shows "\<exists>rep s'. rate_limited env nxt r s = Some (rep, s') \<and> P rep"
  using assms by (auto simp: rate_limited_def Let_def split: prod.split)

lemma compute_matrix_replies:
  assumes wired: "context_wired env c svcCtx" and small: "bounded_request r"
  shows "\<exists>rep s'. compute_matrix env svcCtx r s = Some (rep, s') \<and> reply_ok env MatrixEndpoint r rep"
proof (cases "hq_matrix r")
  case (Inr req)
  show ?thesis
  proof (cases "parsePoints (ma_points req)")
    case None
    then show ?thesis using Inr by (simp add: compute_matrix_def reply_ok_def matrix_reply_ok_def)
  next
    case (Some pts)
    let ?cx = "matrix_call_env env (contextWithDeadline (clock env) (sr_world s) (hq_ctx r) (timeout_ms_of (sx_config svcCtx) * 10 ^ 6))"
    let ?rq = "engine_request (sx_config svcCtx) (tenantID r) req pts"
    have bounds: "ma_method req < 10 ^ 12" "ma_strategy req < 10 ^ 12" "length pts \<le> 2 ^ 16" "length pts = length (ma_points req)"
      using small Inr parsePoints_length [OF Some] by (simp_all add: bounded_request_def)
    have safe: "engine_safe (sx_matrix svcCtx) (compute_opts ?rq)"
      using context_engine_safe [OF wired] bounds(1,2) by (simp add: compute_opts_engine_request)
    have plnr: "en_planner (sx_matrix svcCtx) = Some (sx_planner svcCtx)" using wired by (simp add: context_wired_def)
    from Compute_total [OF safe plnr context_cover [OF wired], of ?cx "sr_world s"] bounds(3)
    obtain res w1 where run: "Compute ?cx (sx_matrix svcCtx) ?rq (sr_world s) = Some (res, w1)"
      and res: "(\<exists>mx. res = (Some mx, None)) \<or> (\<exists>mx. res = (Some mx, Some MatrixDeadline)) \<or> (\<exists>err. res = (None, Some err))"
      by auto
    have body: "compute_matrix env svcCtx r s = answer_matrix env (tenantID r) (sr_world s) res (s\<lparr>sr_world := w1\<rparr>)"
      using Inr Some run by (simp add: compute_matrix_def Let_def)
    from res show ?thesis
    proof (elim disjE exE)
      fix mx assume ok: "res = (Some mx, None)"
      have "matrix_reply_ok (length (ma_points req)) (OkJson (MatrixBody \<lparr>mp_code = 200, mp_msg = ''OK'',
          mp_data = Some \<lparr>md_distances = mx_distances mx, md_durations = mx_durations mx\<rparr>\<rparr>))"
        using Compute_square [OF run [unfolded ok]] bounds(4) by (simp add: matrix_reply_ok_def)
      then show ?thesis using Inr by (simp add: body ok answer_matrix_def reply_ok_def)
    next
      fix mx assume "res = (Some mx, Some MatrixDeadline)"
      then show ?thesis using Inr by (simp add: body answer_matrix_def reply_ok_def matrix_reply_ok_def)
    next
      fix err assume "res = (None, Some err)"
      then show ?thesis using Inr
        by (cases err) (simp_all add: body answer_matrix_def reply_ok_def matrix_reply_ok_def)
    qed
  qed
qed (simp add: compute_matrix_def reply_ok_def)

lemma matrixHandler_replies:
  assumes "context_wired env c svcCtx" "bounded_request r"
  shows "\<exists>rep s'. matrixHandler env svcCtx r s = Some (rep, s') \<and> reply_ok env MatrixEndpoint r rep"
  unfolding matrixHandler_def
proof (rule rate_limited_total)
  show "\<exists>rep s'. compute_matrix env svcCtx r s1 = Some (rep, s') \<and> reply_ok env MatrixEndpoint r rep" for s1
    by (rule compute_matrix_replies [OF assms])
next
  show "reply_ok env MatrixEndpoint r (Written 429 b)" for b
    by (simp add: reply_ok_def matrix_reply_ok_def split: sum.split)
qed

lemma add_route_steps:
  "fold add_route_step steps \<lparr>rt_distance = x, rt_duration = y, rt_steps = zs\<rparr> =
   \<lparr>rt_distance = x + (\<Sum>st \<leftarrow> steps. st_distance st), rt_duration = y + (\<Sum>st \<leftarrow> steps. st_duration st),
    rt_steps = zs @ map route_step_of steps\<rparr>"
  by (induction steps arbitrary: x y zs) (simp_all add: add_route_step_def)

lemma route_step_of_values: "rs_distance \<circ> route_step_of = st_distance" "rs_duration \<circ> route_step_of = st_duration"
  by (simp_all add: fun_eq_iff route_step_of_def)

lemma amap_route_provider: "route_provider (prov_Route (amap_interface http cast f32 now))"
  using amap.route_provider_axioms by (simp add: amap_interface_def)

lemma routeHandler_replies:
  assumes wired: "context_wired env c svcCtx"
  shows "\<exists>rep s'. routeHandler env svcCtx r s = Some (rep, s') \<and> reply_ok env RouteEndpoint r rep"
proof (cases "hq_route r")
  case (Inr req)
  show ?thesis
  proof (cases "parsePoints (ra_points req)")
    case None
    then show ?thesis using Inr by (simp add: routeHandler_def reply_ok_def route_reply_ok_def)
  next
    case (Some raw)
    obtain wps where wps: "CoordConvertToGCJ02 (ex_f32 env) (toSlice raw) (ra_coordinate req) = Some wps"
      using CoordConvert_length [of "toSlice raw" "ex_f32 env" "ra_coordinate req"] by (auto simp: toSlice_def)
    let ?q = "\<lparr>rq_waypoints = [], rq_strategy = ra_strategy req, rq_method = ra_method req, rq_speed = ra_speed req\<rparr>"
    show ?thesis
    proof (cases "length raw < 2 \<or> registry_Get (ra_provider req) (sx_registry svcCtx) = None")
      case True
      then show ?thesis using Inr Some wps by (auto simp: routeHandler_def reply_ok_def route_reply_ok_def)
    next
      case False
      then obtain prov where prov: "registry_Get (ra_provider req) (sx_registry svcCtx) = Some prov" "\<not> length raw < 2" by auto
      then have rp: "route_provider (prov_Route prov)"
        using registry_only_amap [of "ra_provider req" env prov] amap_route_provider wired by (auto simp: context_wired_def)
      obtain res calls w1 where run: "RouteWaypoints (ex_sched env) (prov_Route prov) (hq_ctx r) (sx_planner svcCtx) ?q wps (sr_world s) =
          ((res, calls), w1)" by (metis surj_pair)
      show ?thesis
      proof (cases res)
        case (Inl err)
        then show ?thesis using Inr Some wps prov run by (simp add: routeHandler_def reply_ok_def route_reply_ok_def)
      next
        case steps: (Inr steps)
        have "set (map step_ends steps) \<subseteq> set (legs_of wps)"
          using route_provider.RouteWaypoints_legs [OF rp, of "ex_sched env" "hq_ctx r" "sx_planner svcCtx" ?q wps "sr_world s"] run steps by simp
        then have "\<forall>st \<in> set (map route_step_of steps). \<exists>(a, b) \<in> set (legs_of wps).
            rs_origin st = [fst a, snd a] \<and> rs_destination st = [fst b, snd b]"
          by (fastforce simp: step_ends_def route_step_of_def)
        then have "route_reply_ok (ex_f32 env) req (OkJson (RouteBody \<lparr>rp_code = 200, rp_msg = ''OK'',
            rp_data = Some (fold add_route_step steps \<lparr>rt_distance = 0, rt_duration = 0, rt_steps = []\<rparr>)\<rparr>))"
          using Some wps by (simp add: route_reply_ok_def add_route_steps route_step_of_values)
        then show ?thesis using Inr Some wps prov run steps by (simp add: routeHandler_def reply_ok_def)
      qed
    qed
  qed
qed (simp add: routeHandler_def reply_ok_def)

lemma handle_replies:
  assumes wired: "context_wired env c svcCtx" and small: "bounded_request r"
  shows "\<exists>rep s'. handle env svcCtx ep r s = Some (rep, s') \<and> reply_ok env ep r rep"
proof (cases ep)
  case MatrixEndpoint
  then show ?thesis using matrixHandler_replies [OF wired small] by (simp add: handle_def)
next
  case RouteEndpoint
  then show ?thesis using routeHandler_replies [OF wired] by (simp add: handle_def)
next
  case ProvidersEndpoint
  then show ?thesis using wired
    by (simp add: handle_def providersHandler_def reply_ok_def context_wired_def service_registry_def registry_List_def
        registry_SetDefault_def registry_Register_def NewRegistry_def amap_interface_def amap_Name_def Let_def)
qed (simp_all add: handle_def healthLiveHandler_def healthReadyHandler_def reply_ok_def)

definition requests :: "'v event list \<Rightarrow> (endpoint \<times> 'v http_request) list" where
  "requests evs = List.map_filter (\<lambda>ev. case ev of WorkerTurn \<Rightarrow> None
     | Request r \<Rightarrow> map_option (\<lambda>ep. (ep, r)) (map_of RegisterHandlers (hq_method r, hq_path r))) evs"

lemma serve_replies:
  assumes wired: "context_wired env c svcCtx" and small: "\<forall>r. Request r \<in> set evs \<longrightarrow> bounded_request r"
  shows "\<exists>reps s'. serve env svcCtx evs s = Some (reps, s') \<and> map (\<lambda>(ep, r, rep). (ep, r)) reps = requests evs \<and>
    (\<forall>(ep, r, rep) \<in> set reps. reply_ok env ep r rep)"
  using small
proof (induction evs arbitrary: s)
  case (Cons ev evs)
  then have small': "\<forall>r. Request r \<in> set evs \<longrightarrow> bounded_request r" by simp
  note IH = Cons.IH [OF small']
  show ?case
  proof (cases ev)
    case WorkerTurn
    then show ?thesis using IH [of "s\<lparr>sr_world := worker_turn env svcCtx (sr_world s)\<rparr>"] by (simp add: requests_def List.map_filter_def)
  next
    case (Request r)
    show ?thesis
    proof (cases "map_of RegisterHandlers (hq_method r, hq_path r)")
      case None
      then show ?thesis using IH [of s] Request by (simp add: requests_def List.map_filter_def)
    next
      case (Some ep)
      from Cons.prems Request have "bounded_request r" by simp
      then obtain rep s1 where one: "handle env svcCtx ep r s = Some (rep, s1)" "reply_ok env ep r rep"
        using handle_replies [OF wired] by blast
      obtain reps s2 where "serve env svcCtx evs s1 = Some (reps, s2)" "map (\<lambda>(ep, r, rep). (ep, r)) reps = requests evs"
          "\<forall>(ep, r, rep) \<in> set reps. reply_ok env ep r rep" using IH [of s1] by blast
      then show ?thesis using Request Some one by (simp add: requests_def List.map_filter_def)
    qed
  qed
qed (simp add: requests_def List.map_filter_def)

text \<open>The strategy numbers of the API reach Amap as these codes; unknown ones become the default.\<close>

lemma documented_strategy: "strategyCode 1 = ''12''" "strategyCode 12 = ''11''"
  by (simp_all add: strategyCode_def Strategy_Default_def ShortestDistance_def AvoidCongestion_def UnWalkFastRoute_def)

section \<open>Properties\<close>


text \<open>A service without archive whose Redis does not answer and whose provider has one key.\<close>

definition example_service_env :: "unit service_env" where
  "example_service_env =
     \<lparr>ex_http = (\<lambda>url q w. (Inl ''refused'', w)), ex_cast = (\<lambda>s. 0), ex_f32 = (\<lambda>x. x), ex_clock = (\<lambda>w. 0),
      ex_redis = (\<lambda>addr. \<lparr>rd_ping = (\<lambda>w. (Some ''refused'', w)), rd_exec = (\<lambda>cmds w. (Some ''refused'', w)),
        rd_hmget = (\<lambda>k fs w. (Inl ''refused'', w)), rd_georadius = (\<lambda>k p r n w. (Inl ''refused'', w))\<rparr>),
      ex_geohash = (\<lambda>lat lon n. ''''), ex_edge_json = (\<lambda>e. ''''), ex_edge_parse = (\<lambda>s. None),
      ex_civil = (\<lambda>w. \<lparr>ct_weekday = 1, ct_month = 1, ct_hour = 1\<rparr>), ex_instant = (\<lambda>w. 0), ex_unix = (\<lambda>w. 0),
      ex_gorm = (\<lambda>dsn w. (Inl ''refused'', w)),
      ex_coord_json = \<lparr>cj_encode = (\<lambda>v. ''''), cj_decode = (\<lambda>s. None), cj_f32 = (\<lambda>x. x)\<rparr>,
      ex_sched = (\<lambda>n. [0..<n]), ex_polls = (\<lambda>w k. False)\<rparr>"

definition example_config :: service_config where
  "example_config =
     \<lparr>cf_rest = \<lparr>rc_host = ''0.0.0.0'', rc_port = 8888, rc_timeout = 0\<rparr>,
      cf_redis = \<lparr>rd_addr = ''127.0.0.1:6379'', rd_prefix = '''', rd_edge_ttl = 0, rd_enabled = True\<rparr>,
      cf_persistence = \<lparr>pc_dsn = '''', pc_database = '''', pc_max_open = 0, pc_max_idle = 0, pc_async_queue = 0, pc_auto_migrate = False\<rparr>,
      cf_engine = \<lparr>ec_default_geo_wide = 200, ec_max_points = 100, ec_tenant_qps = 1\<rparr>,
      cf_providers = \<lparr>pv_amap = \<lparr>ap_enabled = True, ap_keys = ''k1'', ap_base_url = '''', ap_batch_size = 12, ap_timeout_sec = 2,
        ap_key_recovery_sec = 300, ap_key_probe_sec = 30, ap_key_confidence_tau = 2, ap_key_beta_prior_a = 2, ap_key_beta_prior_b = 1,
        ap_key_failure_soft_weight = 0.3, ap_key_epsilon_scale = 4, ap_key_min_probe_rate = 0.02\<rparr>\<rparr>\<rparr>"

definition example_call :: "unit http_request" where
  "example_call =
     \<lparr>hq_method = ''POST'', hq_path = ''/v1/matrix'', hq_tenant = ''acme'',
      hq_matrix = Inr \<lparr>ma_points = [[0, 0], [1, 1], [2, 2]], ma_coordinate = '''', ma_strategy = 0, ma_method = 0, ma_time_slot = '''',
        ma_strict = False, ma_geo_wide = 0, ma_provider = '''', ma_speed = 0\<rparr>,
      hq_route = Inl ''not a route'', hq_ctx = (\<lambda>w. (False, w))\<rparr>"

definition ready_call :: "unit http_request" where
  "ready_call = example_call\<lparr>hq_method := ''GET'', hq_path := ''/health/ready''\<rparr>"


end
