(* ===== verification/Stub_Provider.thy ===== *)
theory Stub_Provider
  imports Matrix_Calls
begin

text \<open>
  \<open>internal/testutil/fixtures.go\<close>: the provider that the integration tests run against, as a second
  model of the provider contracts. Its call counter is a 32-bit integer in the state;
  \<open>wait\<close> says whether the delay or the context ends first (the \<open>select\<close>). \<open>SetupRedis\<close> starts a
  third-party Redis server and is left out.
\<close>

section \<open>The code\<close>

record stub_provider =
  sp_name :: string
  sp_delay :: int

type_synonym 'w stub_state = "32 word \<times> 'w"

definition stub_Name :: "stub_provider \<Rightarrow> string" where
  "stub_Name p = (if sp_name p \<noteq> '''' then sp_name p else ''amap'')"

definition routeResultFromSteps :: "step list \<Rightarrow> route_result" where
  "routeResultFromSteps steps =
     (let (d, t) = fold (\<lambda>s (d, t). (d + st_distance s, t + st_duration s)) steps (0, 0)
      in \<lparr>rr_steps = steps, rr_distance = d, rr_duration = t, rr_source = SourceProvider, rr_degraded = False\<rparr>)"

definition stub_steps :: "coord list \<Rightarrow> step list" where
  "stub_steps wps =
     map (\<lambda>i. \<lparr>st_origin = wps ! i, st_destination = wps ! (i + 1), st_distance = 1000, st_duration = 120,
       st_polyline = '''', st_source = SourceProvider\<rparr>) [0..<length wps - 1]"

definition stub_Route :: "('w \<Rightarrow> 'e option \<times> 'w) \<Rightarrow> stub_provider \<Rightarrow> route_request \<Rightarrow> 'w stub_state \<Rightarrow> ('e + route_result) \<times> 'w stub_state" where
  "stub_Route wait p req = (\<lambda>(calls, w).
     let calls' = calls + 1;
         (stopped, w') = (if sp_delay p > 0 then wait w else (None, w))
     in (case stopped of
           Some err \<Rightarrow> Inl err
         | None \<Rightarrow> Inr (routeResultFromSteps (stub_steps (rq_waypoints req))), (calls', w')))"

definition stub_interface :: "('w \<Rightarrow> 'e option \<times> 'w) \<Rightarrow> stub_provider \<Rightarrow> ('e, 'w stub_state) provider" where
  "stub_interface wait p = \<lparr>prov_Name = stub_Name p, prov_Route = stub_Route wait p, prov_Ready = (\<lambda>w. True)\<rparr>"

definition stub_NewRegistry :: "('e, 'w) provider \<Rightarrow> ('e, 'w) registry" where
  "stub_NewRegistry p = registry_SetDefault (prov_Name p) (registry_Register p NewRegistry)"

definition SeedEdge :: "'w store_env \<Rightarrow> cache_store \<Rightarrow> string \<Rightarrow> coord \<Rightarrow> coord \<Rightarrow> real \<Rightarrow> real \<Rightarrow> 'w \<Rightarrow> (string option \<times> 'w) option" where
  "SeedEdge env store tenant org dst distance duration w =
     (let opts = \<lparr>lo_tenant = tenant, lo_method = 0, lo_strategy = 0, lo_time_slot = '''', lo_strict = False, lo_geo_wide = 0, lo_edge_ttl = 0\<rparr>;
          slot = TimeSlotWMH (se_now env w) (Some (se_now env w))
      in store_Put env store opts
           \<lparr>ed_origin = org, ed_destination = dst, ed_distance = distance, ed_duration = duration, ed_polyline = '''',
            ed_wmt = slot, ed_provider = ''amap'', ed_computed_at = None\<rparr> w)"

section \<open>The contracts\<close>

lemma stub_steps_ends: "map step_ends (stub_steps wps) = legs_of wps"
  by (rule nth_equalityI) (simp_all add: stub_steps_def step_ends_def nth_legs_of)

lemma length_stub_steps [simp]: "length (stub_steps wps) = length wps - 1"
  by (simp add: stub_steps_def)

lemma routeResult_totals:
  "rr_steps (routeResultFromSteps steps) = steps"
  "rr_distance (routeResultFromSteps steps) = (\<Sum>s \<leftarrow> steps. st_distance s)"
  "rr_duration (routeResultFromSteps steps) = (\<Sum>s \<leftarrow> steps. st_duration s)"
proof -
  have "fold (\<lambda>s (d, t). (d + st_distance s, t + st_duration s)) ss (d, t) =
      (d + (\<Sum>s \<leftarrow> ss. st_distance s), t + (\<Sum>s \<leftarrow> ss. st_duration s))" for ss :: "step list" and d t
    by (induction ss arbitrary: d t) simp_all
  then show "rr_steps (routeResultFromSteps steps) = steps"
    "rr_distance (routeResultFromSteps steps) = (\<Sum>s \<leftarrow> steps. st_distance s)"
    "rr_duration (routeResultFromSteps steps) = (\<Sum>s \<leftarrow> steps. st_duration s)"
    by (simp_all add: routeResultFromSteps_def)
qed

interpretation stub: route_provider "stub_Route wait p" for wait p
  by unfold_locales
    (auto simp: stub_Route_def follows_legs_def routeResult_totals stub_steps_ends split: prod.splits option.splits if_splits)

text \<open>Without a delay the stub answers every leg, whatever the context does.\<close>

interpretation quick_stub: full_provider "stub_Route wait \<lparr>sp_name = name, sp_delay = 0\<rparr>" for wait name
  by unfold_locales (auto simp: stub_Route_def routeResult_totals)

lemma stub_counts: "fst (snd (stub_Route wait p req (calls, w))) = calls + 1"
  by (simp add: stub_Route_def split_beta)

lemma stub_registry: "stub_Name p \<noteq> '''' \<and> registry_Get '''' (stub_NewRegistry (stub_interface wait p)) = Some (stub_interface wait p)"
  by (simp add: stub_NewRegistry_def stub_interface_def registry_Get_def registry_SetDefault_def registry_Register_def
      NewRegistry_def stub_Name_def Let_def)

end
