(* ===== verification/Edge_Memory.thy ===== *)
theory Edge_Memory
  imports Stub_Provider
begin

text \<open>
  What the engine needs of its cache to answer a request a second time: a memory for edges
  (\<open>edge_memory\<close>). After a strict run without fallback edges the memory holds every entry of the
  matrix; when it holds every pair, a strict run asks nobody else and returns what is held.
\<close>

section \<open>Runs that lose nothing\<close>

text \<open>
  \<open>held w p d\<close> is what a lookup of the pair will answer: \<open>None\<close> for a miss, else an abstraction of
  the distance and the duration. \<open>points\<close> are those of the request, \<open>ok\<close> an invariant of the world.
\<close>

definition keeps_edges :: "('w \<Rightarrow> bool) \<Rightarrow> ('w \<Rightarrow> coord \<Rightarrow> coord \<Rightarrow> 'v option) \<Rightarrow> coord set \<Rightarrow> 'w \<Rightarrow> 'w \<Rightarrow> bool" where
  "keeps_edges ok held points w w' \<longleftrightarrow>
     (ok w \<longrightarrow> ok w' \<and> (\<forall>p \<in> points. \<forall>d \<in> points. \<forall>v. held w p d = Some v \<longrightarrow> held w' p d = Some v))"

lemma keeps_edgesD:
  "keeps_edges ok held points w w' \<Longrightarrow> ok w \<Longrightarrow> p \<in> points \<Longrightarrow> d \<in> points \<Longrightarrow> held w p d = Some v \<Longrightarrow> held w' p d = Some v"
  unfolding keeps_edges_def by blast

lemma keeps_edges_ok: "keeps_edges ok held points w w' \<Longrightarrow> ok w \<Longrightarrow> ok w'"
  unfolding keeps_edges_def by blast

lemma keeps_edges_refl [simp]: "keeps_edges ok held points w w"
  unfolding keeps_edges_def by blast

lemma keeps_edges_trans: "keeps_edges ok held points u v \<Longrightarrow> keeps_edges ok held points v w \<Longrightarrow> keeps_edges ok held points u w"
  unfolding keeps_edges_def by blast

definition loses_nothing :: "('w \<Rightarrow> bool) \<Rightarrow> ('w \<Rightarrow> coord \<Rightarrow> coord \<Rightarrow> 'v option) \<Rightarrow> coord set \<Rightarrow> ('w \<Rightarrow> 'a \<times> 'w) \<Rightarrow> bool" where
  "loses_nothing ok held points f \<longleftrightarrow> (\<forall>w. keeps_edges ok held points w (snd (f w)))"

lemma loses_nothingD: "loses_nothing ok held points f \<Longrightarrow> f w = (x, w') \<Longrightarrow> keeps_edges ok held points w w'"
  unfolding loses_nothing_def by (metis snd_conv)

lemma run_packet_loses_nothing:
  assumes "\<And>rq. loses_nothing ok held points (route rq)" "loses_nothing ok held points halt"
    and "run_packet route halt req ps i (rs, c, err, w) = (rs', c', err', w')"
  shows "keeps_edges ok held points w w'"
proof -
  obtain stop w1 where stop: "halt w = (stop, w1)" by (metis surj_pair)
  obtain r w2 where r: "route (req\<lparr>rq_waypoints := ps ! i\<rparr>) w1 = (r, w2)" by (metis surj_pair)
  have w1: "keeps_edges ok held points w w1" by (rule loses_nothingD [OF assms(2) stop])
  then have "keeps_edges ok held points w w2" by (rule keeps_edges_trans) (rule loses_nothingD [OF assms(1) r])
  moreover have "w' \<in> {w, w1, w2}"
    using assms(3) stop r by (auto simp: run_packet_def split: if_splits bool.splits sum.splits)
  ultimately show ?thesis using w1 by auto
qed

lemma RouteWaypoints_loses_nothing:
  assumes "\<And>rq. loses_nothing ok held points (route rq)" "loses_nothing ok held points halt"
    and "RouteWaypoints sched route halt pl req wps w = (r, w')"
  shows "keeps_edges ok held points w w'"
proof -
  have fold: "keeps_edges ok held points w1 w2"
    if "fold (run_packet route halt req ps) is (rs, c, err, w1) = (rs', c', err', w2)" for ps "is" rs c err w1 rs' c' err' w2
    using that
  proof (induction "is" arbitrary: rs c err w1)
    case (Cons i "is")
    obtain rs1 c1 err1 w3 where one: "run_packet route halt req ps i (rs, c, err, w1) = (rs1, c1, err1, w3)" by (metis surj_pair)
    from run_packet_loses_nothing [OF assms(1,2) one] Cons.IH [of rs1 c1 err1 w3] Cons.prems one show ?case
      by (auto intro: keeps_edges_trans)
  qed simp
  obtain ps where ps: "WaypointsPacket (batch_size pl) wps = Some ps" using WaypointsPacket_returns by blast
  obtain rs c err w2 where run: "fold (run_packet route halt req ps) (sched (length ps)) (replicate (length ps) [], 0, None, w) =
      (rs, c, err, w2)" by (metis surj_pair)
  have "w' \<in> {w, w2}" using assms(3) ps run by (auto simp: RouteWaypoints_def split: if_splits option.splits)
  then show ?thesis using fold [OF run] by auto
qed

lemma RoutePair_loses_nothing:
  assumes "\<And>rq. loses_nothing ok held points (route rq)" "RoutePair route req a b w = (r, w')"
  shows "keeps_edges ok held points w w'"
proof -
  obtain r1 w1 where one: "route (req\<lparr>rq_waypoints := [a, b]\<rparr>) w = (r1, w1)" by (metis surj_pair)
  have "w' = w1" using assms(2) one by (auto simp: RoutePair_def split: sum.splits if_splits)
  then show ?thesis using loses_nothingD [OF assms(1) one] by simp
qed

section \<open>The table of segments\<close>

text \<open>As long as no fallback edge was recorded, the memory holds what the table says.\<close>

definition table_held :: "('w \<Rightarrow> bool) \<Rightarrow> ('w \<Rightarrow> coord \<Rightarrow> coord \<Rightarrow> 'v option) \<Rightarrow> (real \<times> real \<Rightarrow> 'v) \<Rightarrow> coord set \<Rightarrow> 'w compute_state \<Rightarrow> bool" where
  "table_held ok held f points s \<longleftrightarrow> ok (cp_world s) \<and> (es_fallback_edges (cp_stats s) = 0 \<longrightarrow>
     (\<forall>p \<in> points. \<forall>d \<in> points. \<forall>st. cp_segments s (pairKey p d) = Some st \<longrightarrow> held (cp_world s) p d = Some (f (step_value st))))"

lemma table_heldD:
  "table_held ok held f points s \<Longrightarrow> es_fallback_edges (cp_stats s) = 0 \<Longrightarrow> p \<in> points \<Longrightarrow> d \<in> points \<Longrightarrow>
   cp_segments s (pairKey p d) = Some st \<Longrightarrow> held (cp_world s) p d = Some (f (step_value st))"
  unfolding table_held_def by blast

lemma table_held_ok: "table_held ok held f points s \<Longrightarrow> ok (cp_world s)"
  unfolding table_held_def by blast

lemma pairKey_points: "inj_on micro_point points \<Longrightarrow> p \<in> points \<Longrightarrow> d \<in> points \<Longrightarrow> p' \<in> points \<Longrightarrow> d' \<in> points \<Longrightarrow>
    pairKey p d = pairKey p' d' \<Longrightarrow> p = p' \<and> d = d'"
  unfolding pairKey_eq_iff by (auto dest: inj_onD)

lemma table_held_mono:
  assumes "table_held ok held f points s" "cp_segments t = cp_segments s" "es_fallback_edges (cp_stats s) \<le> es_fallback_edges (cp_stats t)"
    and "keeps_edges ok held points (cp_world s) (cp_world t)"
  shows "table_held ok held f points t"
  unfolding table_held_def
proof (intro conjI impI ballI allI)
  note ok = table_held_ok [OF assms(1)]
  show "ok (cp_world t)" by (rule keeps_edges_ok [OF assms(4) ok])
  fix p d st assume "es_fallback_edges (cp_stats t) = 0" "p \<in> points" "d \<in> points" "cp_segments t (pairKey p d) = Some st"
  then show "held (cp_world t) p d = Some (f (step_value st))"
    using assms(2,3) by (intro keeps_edgesD [OF assms(4) ok] table_heldD [OF assms(1)]) simp_all
qed

lemma table_held_add:
  assumes held: "table_held ok held f points s" and keys: "inj_on micro_point points" "a \<in> points" "b \<in> points"
    and ok: "ok (cp_world t)"
    and t: "cp_segments t = (cp_segments s)(pairKey a b \<mapsto> st)" "es_fallback_edges (cp_stats s) \<le> es_fallback_edges (cp_stats t)"
      "es_fallback_edges (cp_stats t) = 0 \<Longrightarrow> held (cp_world t) a b = Some (f (step_value st))"
    and mono: "\<And>p d v. p \<in> points \<Longrightarrow> d \<in> points \<Longrightarrow> (p, d) \<noteq> (a, b) \<Longrightarrow> held (cp_world s) p d = Some v \<Longrightarrow> held (cp_world t) p d = Some v"
  shows "table_held ok held f points t"
  unfolding table_held_def
proof (intro conjI impI ballI allI)
  show "ok (cp_world t)" by (rule ok)
  fix p d st' assume none: "es_fallback_edges (cp_stats t) = 0" and pd: "p \<in> points" "d \<in> points" "cp_segments t (pairKey p d) = Some st'"
  show "held (cp_world t) p d = Some (f (step_value st'))"
  proof (cases "pairKey p d = pairKey a b")
    case True
    then show ?thesis using pairKey_points [OF keys(1) pd(1,2) keys(2,3)] t(1) t(3) [OF none] pd(3) by simp
  next
    case False
    then have "cp_segments s (pairKey p d) = Some st'" "(p, d) \<noteq> (a, b)" using pd(3) t(1) by auto
    then show ?thesis using none t(2) by (intro mono pd(1,2) table_heldD [OF held]) simp_all
  qed
qed

lemma bind_case: "Option.bind m g = (case m of None \<Rightarrow> None | Some x \<Rightarrow> g x)"
  by (cases m) simp_all

text \<open>The points of a walk are points of the request.\<close>

lemma those_members: "those (map g xs) = Some ys \<Longrightarrow> y \<in> set ys \<Longrightarrow> \<exists>x \<in> set xs. g x = Some y"
  by (induction xs arbitrary: ys) (auto split: option.splits)

lemma routeWaypoints_members:
  assumes "routeWaypoints points rt = Some ws"
  shows "set ws \<subseteq> set points"
proof (cases "legs rt")
  case Nil
  then show ?thesis using assms by (simp add: routeWaypoints_def)
next
  case (Cons l ls)
  have get: "slice_get points i = Some x \<Longrightarrow> x \<in> set points" for i x by (auto simp: slice_get_Some_iff)
  obtain first rest where ws: "slice_get points (unat (leg_from l)) = Some first"
      "those (map (\<lambda>leg. slice_get points (unat (leg_to leg))) (l # ls)) = Some rest" "ws = first # rest"
    using assms unfolding routeWaypoints_def Cons list.case bind_eq_Some_conv by auto
  have "set rest \<subseteq> set points"
  proof
    fix x assume "x \<in> set rest"
    from those_members [OF ws(2) this] obtain leg :: leg where "slice_get points (unat (leg_to leg)) = Some x" by blast
    from get [OF this] show "x \<in> set points" .
  qed
  then show ?thesis using ws get by auto
qed

lemma legs_of_members: "(a, b) \<in> set (legs_of ws) \<Longrightarrow> a \<in> set ws \<and> b \<in> set ws"
  unfolding legs_of_def by (cases ws) (auto dest: set_zip_leftD set_zip_rightD)

text \<open>Providers whose numbers are of a kind that can be stored, as are all that a Go program holds in a \<open>float32\<close>.\<close>

definition answers_in :: "(real \<times> real \<Rightarrow> bool) \<Rightarrow> ('e, 'w) provider \<Rightarrow> bool" where
  "answers_in good prov \<longleftrightarrow> (\<forall>rq w res w'. prov_Route prov rq w = (Inr res, w') \<longrightarrow>
     (\<forall>st \<in> set (rr_steps res). good (step_value st)) \<and> (rr_steps res = [] \<longrightarrow> good (rr_distance res, rr_duration res)))"

lemma answers_in_walk:
  assumes "answers_in good prov" "RouteWaypoints sched (prov_Route prov) halt p req wps w = ((Inr steps, c), w')" "st \<in> set steps"
  shows "good (step_value st)"
proof -
  obtain rq v v' res where "prov_Route prov rq v = (Inr res, v')" "st \<in> set (rr_steps res)"
    using RouteWaypoints_steps [OF assms(2,3)] by blast
  then show ?thesis using assms(1) unfolding answers_in_def by blast
qed

lemma answers_in_pair:
  assumes "answers_in good prov" "RoutePair (prov_Route prov) req a b w = ((Inr st, c), w')"
  shows "good (step_value st)"
proof -
  obtain r w1 where one: "prov_Route prov (req\<lparr>rq_waypoints := [a, b]\<rparr>) w = (r, w1)" by (metis surj_pair)
  then obtain res where r: "r = Inr res" using assms(2) by (cases r) (simp_all add: RoutePair_def)
  have all: "\<forall>s \<in> set (rr_steps res). good (step_value s)" "rr_steps res = [] \<longrightarrow> good (rr_distance res, rr_duration res)"
    using assms(1) one r unfolding answers_in_def by blast+
  show ?thesis
  proof (cases "rr_steps res")
    case Nil
    then show ?thesis using assms(2) one r all(2) by (auto simp: RoutePair_def step_value_def)
  next
    case (Cons x xs)
    then show ?thesis using assms(2) one r all(1) by (auto simp: RoutePair_def)
  qed
qed

section \<open>The interface\<close>

locale edge_memory =
  fixes look :: "coord \<Rightarrow> coord \<Rightarrow> 'w \<Rightarrow> (('e engine_error + (step \<times> bool) option) \<times> 'w) option"
    and persist :: "edge \<Rightarrow> 'w \<Rightarrow> 'w option"
    and ok :: "'w \<Rightarrow> bool"
    and held :: "'w \<Rightarrow> coord \<Rightarrow> coord \<Rightarrow> 'v option"
    and f :: "real \<times> real \<Rightarrow> 'v"
    and points :: "coord set"
    and slot :: string
    and good :: "real \<times> real \<Rightarrow> bool"
  assumes look_held: "ok w \<Longrightarrow> p \<in> points \<Longrightarrow> d \<in> points \<Longrightarrow> held w p d = Some v \<Longrightarrow> \<exists>st c w'. look p d w = Some (Inr (Some (st, c)), w')"
    and look_hit: "ok w \<Longrightarrow> p \<in> points \<Longrightarrow> d \<in> points \<Longrightarrow> look p d w = Some (Inr (Some (st, c)), w') \<Longrightarrow> held w' p d = Some (f (step_value st))"
    and look_keeps: "p \<in> points \<Longrightarrow> d \<in> points \<Longrightarrow> look p d w = Some (q, w') \<Longrightarrow> keeps_edges ok held points w w'"
    and persist_ok: "ok w \<Longrightarrow> good (step_value st) \<Longrightarrow> persist (StepToEdge st slot name) w = Some w' \<Longrightarrow> ok w'"
    and persist_holds: "ok w \<Longrightarrow> good (step_value st) \<Longrightarrow> st_origin st \<in> points \<Longrightarrow> st_destination st \<in> points \<Longrightarrow> persist (StepToEdge st slot name) w = Some w' \<Longrightarrow>
      held w' (st_origin st) (st_destination st) = Some (f (step_value st))"
    and persist_keeps: "ok w \<Longrightarrow> good (step_value st) \<Longrightarrow> st_origin st \<in> points \<Longrightarrow> st_destination st \<in> points \<Longrightarrow> persist (StepToEdge st slot name) w = Some w' \<Longrightarrow>
      p \<in> points \<Longrightarrow> d \<in> points \<Longrightarrow> (p, d) \<noteq> (st_origin st, st_destination st) \<Longrightarrow> held w p d = Some v \<Longrightarrow> held w' p d = Some v"
    and keys: "inj_on micro_point points"
begin

abbreviation keeps :: "'w \<Rightarrow> 'w \<Rightarrow> bool" where "keeps \<equiv> keeps_edges ok held points"

abbreviation consistent :: "'w compute_state \<Rightarrow> bool" where "consistent \<equiv> table_held ok held f points"

lemma probe_held:
  assumes "lookupEdge e opts = look" "loses_nothing ok held points (cx_done cx)" "wps ! i \<in> points" "wps ! j \<in> points"
    and "probe_pair cx e opts True wps (i, j) s = Some (Go t)" "consistent s"
  shows "consistent t"
proof (cases "i = j")
  case True
  then show ?thesis using assms(5,6) by (simp add: probe_pair_def)
next
  case False
  let ?p = "wps ! i" and ?d = "wps ! j"
  note ok = table_held_ok [OF assms(6)]
  obtain stop w1 where stop: "cx_done cx (cp_world s) = (stop, w1)" by (metis surj_pair)
  have go: "\<not> stop" using assms(5) False stop by (auto simp: probe_pair_def Let_def split: if_splits)
  have w1: "keeps (cp_world s) w1" by (rule loses_nothingD [OF assms(2) stop])
  show ?thesis
  proof (cases "cp_segments s (pairKey ?p ?d) = None")
    case False
    then have "t = s\<lparr>cp_world := w1\<rparr>" using assms(5) \<open>i \<noteq> j\<close> stop go by (auto simp: probe_pair_def Let_def)
    then show ?thesis using w1 by (intro table_held_mono [OF assms(6)]) simp_all
  next
    case True
    obtain q w2 where q: "look ?p ?d w1 = Some (q, w2)"
      using assms(5) False stop go True by (auto simp: probe_pair_def Let_def assms(1) bind_eq_Some_conv)
    have w2: "keeps (cp_world s) w2" by (rule keeps_edges_trans [OF w1 look_keeps [OF assms(3,4) q]])
    consider st cold where "q = Inr (Some (st, cold))" "t = note_hit cold (pairKey ?p ?d) st (s\<lparr>cp_world := w2\<rparr>)"
      | "t = note_miss i j (s\<lparr>cp_world := w2\<rparr>)"
      using assms(5) False stop go True q by (auto simp: probe_pair_def Let_def assms(1) split: sum.splits option.splits)
    then show ?thesis
    proof cases
      case 1
      have "held w2 ?p ?d = Some (f (step_value st))" using look_hit [OF _ assms(3,4), of w1 st cold w2] keeps_edges_ok [OF w1 ok] q 1(1) by simp
      then show ?thesis
        by (intro table_held_add [OF assms(6) keys assms(3,4), of t st])
          (simp_all add: 1(2) note_hit_def keeps_edgesD [OF w2 ok] keeps_edges_ok [OF w2 ok])
    next
      case 2
      then show ?thesis using w2 by (intro table_held_mono [OF assms(6)]) (simp_all add: note_miss_def)
    qed
  qed
qed

lemma record_step_held:
  assumes "persistEdge e opts = persist" "st_origin st \<in> points" "st_destination st \<in> points"
    and "record_step e prov opts slot st s = Some t" "consistent s" "good (step_value st)"
  shows "consistent t"
proof (cases "st_source st = SourceFallback")
  case True
  then show ?thesis using assms(4) table_held_ok [OF assms(5)] by (auto simp: record_step_def Let_def table_held_def)
next
  case False
  obtain w1 where w1: "persist (StepToEdge st slot (prov_Name prov)) (cp_world s) = Some w1"
    and t: "t = s\<lparr>cp_segments := (cp_segments s)(pairKey (st_origin st) (st_destination st) \<mapsto> st), cp_world := w1\<rparr>"
    using assms(4) False by (auto simp: record_step_def Let_def assms(1) bind_eq_Some_conv)
  note ok = table_held_ok [OF assms(5)]
  show ?thesis
    by (intro table_held_add [OF assms(5) keys assms(2,3), of t st])
      (simp_all add: t persist_ok [OF ok assms(6) w1] persist_holds [OF ok assms(6,2,3) w1] persist_keeps [OF ok assms(6,2,3) w1])
qed

lemma record_steps_held:
  assumes "persistEdge e opts = persist"
    and "fold_opt (record_step e prov opts slot) steps s = Some t" "consistent s"
    and "\<forall>st \<in> set steps. st_origin st \<in> points \<and> st_destination st \<in> points \<and> good (step_value st)"
  shows "consistent t"
  using assms(2-)
proof (induction steps arbitrary: s)
  case (Cons st steps)
  then obtain s1 where s1: "record_step e prov opts slot st s = Some s1" "fold_opt (record_step e prov opts slot) steps s1 = Some t"
    by (auto simp: bind_eq_Some_conv)
  from record_step_held [OF assms(1) _ _ s1(1) Cons.prems(2)] Cons.prems(3) have "consistent s1" by simp
  with Cons.IH [OF s1(2)] Cons.prems(3) show ?case by simp
qed simp

lemma deadline_or_not_Go: "deadline_or cx err s \<noteq> Go t"
  by (simp add: deadline_or_def Let_def split: prod.split)

lemma walk_route_held:
  assumes "persistEdge e opts = persist" "route_provider (prov_Route prov)" "answers_in good prov" "set wps \<subseteq> points"
    and "\<And>rq. loses_nothing ok held points (prov_Route prov rq)" "loses_nothing ok held points (cx_done cx)"
    and "walk_route cx e prov opts req slot wps rt s = Some (Go t)" "consistent s"
  shows "consistent t"
proof -
  obtain stop w1 where stop: "cx_done cx (cp_world s) = (stop, w1)" by (metis surj_pair)
  have w1: "keeps (cp_world s) w1" by (rule loses_nothingD [OF assms(6) stop])
  have go: "\<not> stop" using assms(7) stop by (auto simp: walk_route_def Let_def)
  obtain ws where ws: "routeWaypoints wps rt = Some ws"
    using assms(7) stop go by (auto simp: walk_route_def Let_def bind_eq_Some_conv)
  show ?thesis
  proof (cases "length ws < 2")
    case True
    then have "t = s\<lparr>cp_world := w1\<rparr>" using assms(7) stop go ws by (auto simp: walk_route_def Let_def)
    then show ?thesis using w1 by (intro table_held_mono [OF assms(8)]) simp_all
  next
    case False
    then obtain p where p: "en_planner e = Some p"
      using assms(7) stop go ws by (auto simp: walk_route_def Let_def bind_eq_Some_conv)
    obtain r c w2 where run: "RouteWaypoints (cx_sched cx) (prov_Route prov) (cx_done cx) p req ws w1 = ((r, c), w2)" by (metis surj_pair)
    have w2: "keeps (cp_world s) w2" by (rule keeps_edges_trans [OF w1 RouteWaypoints_loses_nothing [OF assms(5,6) run]])
    let ?s2 = "add_calls c (s\<lparr>cp_world := w2\<rparr>)"
    have body: "walk_route cx e prov opts req slot wps rt s = (case r of
        Inl err \<Rightarrow> Some (deadline_or cx (WalkFailed err) ?s2)
      | Inr steps \<Rightarrow> map_option Go (fold_opt (record_step e prov opts slot) steps ?s2))"
      using go False by (simp add: walk_route_def stop ws p run Let_def)
    obtain steps where r: "r = Inr steps" and rec: "fold_opt (record_step e prov opts slot) steps ?s2 = Some t"
      using assms(7) unfolding body by (cases r) (auto simp: deadline_or_not_Go)
    have "set (map step_ends steps) \<subseteq> set (legs_of ws)"
      using route_provider.RouteWaypoints_legs [OF assms(2), of "cx_sched cx" "cx_done cx" p req ws w1] run r by simp
    then have "\<forall>st \<in> set steps. (st_origin st, st_destination st) \<in> set (legs_of ws)" by (auto simp: step_ends_def)
    then have "\<forall>st \<in> set steps. st_origin st \<in> points \<and> st_destination st \<in> points"
      using routeWaypoints_members [OF ws] legs_of_members [of _ _ ws] assms(4) by blast
    moreover have "consistent ?s2" using w2 by (intro table_held_mono [OF assms(8)]) (simp_all add: add_calls_def)
    moreover have "good (step_value st)" if "st \<in> set steps" for st
      by (rule answers_in_walk [OF assms(3) _ that, where halt = "cx_done cx"]) (use run r in simp)
    ultimately show ?thesis using record_steps_held [OF assms(1) rec] by blast
  qed
qed

definition count_fallback :: "step \<Rightarrow> 'x compute_state \<Rightarrow> 'x compute_state" where
  "count_fallback st s = (if st_source st = SourceFallback
     then s\<lparr>cp_stats := (cp_stats s)\<lparr>es_fallback_edges := es_fallback_edges (cp_stats s) + 1\<rparr>\<rparr> else s)"

text \<open>One entry: what is written is held, what was held stays.\<close>

definition entry_step :: "nat \<Rightarrow> nat \<Rightarrow> coord list \<Rightarrow> 'w compute_state \<Rightarrow> 'w compute_state \<Rightarrow> bool" where
  "entry_step i j wps s t \<longleftrightarrow> consistent t \<and> keeps (cp_world s) (cp_world t) \<and>
     es_fallback_edges (cp_stats s) \<le> es_fallback_edges (cp_stats t) \<and>
     (if i = j then cp_distances t = cp_distances s \<and> cp_durations t = cp_durations s
      else \<exists>st. cp_distances t = (cp_distances s)[i := (cp_distances s ! i)[j := st_distance st]] \<and>
        cp_durations t = (cp_durations s)[i := (cp_durations s ! i)[j := st_duration st]] \<and>
        (es_fallback_edges (cp_stats t) = 0 \<longrightarrow> held (cp_world t) (wps ! i) (wps ! j) = Some (f (step_value st))))"

lemma fill_entry_held:
  assumes io: "lookupEdge e opts = look" "persistEdge e opts = persist" and pts: "wps ! i \<in> points" "wps ! j \<in> points"
    and prov: "\<And>rq. loses_nothing ok held points (prov_Route prov rq)" "route_provider (prov_Route prov)" "answers_in good prov" and halt: "loses_nothing ok held points (cx_done cx)"
    and run: "fill_entry cx e prov opts True req slot wps (i, j) s = Some (Go t)" and cons: "consistent s"
  shows "entry_step i j wps s t"
proof -
  let ?p = "wps ! i" and ?d = "wps ! j"
  note ok = table_held_ok [OF cons]
  obtain stop w1 where stop: "cx_done cx (cp_world s) = (stop, w1)" by (metis surj_pair)
  have w1: "keeps (cp_world s) w1" by (rule loses_nothingD [OF halt stop])
  note ok1 = keeps_edges_ok [OF w1 ok]
  have go: "\<not> stop" using run stop by (auto simp: fill_entry_def Let_def)
  show ?thesis
  proof (cases "i = j")
    case True
    then have "t = s\<lparr>cp_world := w1\<rparr>" using run stop go by (auto simp: fill_entry_def Let_def)
    then show ?thesis using True w1 by (auto simp: entry_step_def intro: table_held_mono [OF cons])
  next
    case ij: False
    have outcome: "entry_step i j wps s t"
      if "t = set_entry i j st (count_fallback st (add_calls n (s\<lparr>cp_world := w'\<rparr>)))" "keeps (cp_world s) w'"
        "es_fallback_edges (cp_stats t) = 0 \<Longrightarrow> held w' ?p ?d = Some (f (step_value st))" for st n w'
      using that ij by (auto simp: entry_step_def set_entry_def count_fallback_def add_calls_def intro: table_held_mono [OF cons])
    show ?thesis
    proof (cases "cp_segments s (pairKey ?p ?d)")
      case (Some st)
      then have t: "t = set_entry i j st (s\<lparr>cp_world := w1\<rparr>)"
        using run stop go ij by (auto simp: fill_entry_def Let_def known_step_def)
      have "es_fallback_edges (cp_stats s) = 0 \<Longrightarrow> held w1 ?p ?d = Some (f (step_value st))"
        using table_heldD [OF cons _ pts Some] keeps_edgesD [OF w1 ok pts] by blast
      then show ?thesis using w1 ij unfolding entry_step_def t set_entry_def by (auto intro: table_held_mono [OF cons])
    next
      case None
      obtain q w2 where q: "look ?p ?d w1 = Some (q, w2)"
        using run stop go ij None by (auto simp: fill_entry_def Let_def known_step_def fillPair_def io(1) bind_eq_Some_conv)
      have w2: "keeps (cp_world s) w2" by (rule keeps_edges_trans [OF w1 look_keeps [OF pts q]])
      obtain a c w3 where a: "RoutePair (prov_Route prov) req ?p ?d w2 = ((a, c), w3)" by (metis surj_pair)
      have w3: "keeps (cp_world s) w3" by (rule keeps_edges_trans [OF w2 RoutePair_loses_nothing [OF prov(1) a]])
      have fill: "fill_entry cx e prov opts True req slot wps (i, j) s = (case fillPair e prov opts req ?p ?d slot w1 of
          None \<Rightarrow> None
        | Some (Inl err, n, w') \<Rightarrow> Some (deadline_or cx err (add_calls n (s\<lparr>cp_world := w'\<rparr>)))
        | Some (Inr st, n, w') \<Rightarrow> Some (Go (set_entry i j st (count_fallback st (add_calls n (s\<lparr>cp_world := w'\<rparr>))))))"
        using go ij by (simp add: fill_entry_def stop None known_step_def Let_def count_fallback_def bind_case split: option.split sum.split)
      consider (hit) st cold where "t = set_entry i j st (count_fallback st (add_calls 0 (s\<lparr>cp_world := w2\<rparr>)))" "q = Inr (Some (st, cold))"
        | (fallback) st where "t = set_entry i j st (count_fallback st (add_calls c (s\<lparr>cp_world := w3\<rparr>)))" "st_source st = SourceFallback"
        | (new) st w4 where "t = set_entry i j st (count_fallback st (add_calls c (s\<lparr>cp_world := w4\<rparr>)))" "q = Inr None" "a = Inr st"
            "persist (StepToEdge st slot (prov_Name prov)) w3 = Some w4"
        using run unfolding fill
        by (auto simp: fillPair_def io q a bind_case deadline_or_not_Go split: sum.splits option.splits if_splits)
      then show ?thesis
      proof cases
        case hit
        from outcome [OF hit(1) w2] show ?thesis using look_hit [OF ok1 pts, of st cold w2] q hit(2) by simp
      next
        case fallback
        from outcome [OF fallback(1) w3] show ?thesis using fallback
          by (simp add: set_entry_def count_fallback_def add_calls_def)
      next
        case new
        have ends: "st_origin st = ?p" "st_destination st = ?d"
          using route_provider.RoutePair_ends [OF prov(2), of req ?p ?d w2 st c] a new(3) by (simp_all add: step_ends_def)
        have unheld: "held (cp_world s) ?p ?d = None"
        proof (rule ccontr)
          assume "held (cp_world s) ?p ?d \<noteq> None"
          then obtain v where "held w1 ?p ?d = Some v" using keeps_edgesD [OF w1 ok pts] by blast
          from look_held [OF ok1 pts this] q new(2) show False by simp
        qed
        note ok3 = keeps_edges_ok [OF w3 ok]
        have numbers: "good (step_value st)" by (rule answers_in_pair [OF prov(3)]) (use a new(3) in simp)
        have "keeps (cp_world s) w4"
          unfolding keeps_edges_def
        proof (intro conjI ballI allI impI)
          show "ok w4" by (rule persist_ok [OF ok3 numbers new(4)])
          fix x y v assume xy: "x \<in> points" "y \<in> points" "held (cp_world s) x y = Some v"
          then have "(x, y) \<noteq> (?p, ?d)" using unheld by auto
          with persist_keeps [OF ok3 numbers _ _ new(4) xy(1,2) _ keeps_edgesD [OF w3 ok xy]] ends pts show "held w4 x y = Some v" by simp
        qed
        moreover have "held w4 ?p ?d = Some (f (step_value st))" using persist_holds [OF ok3 numbers _ _ new(4)] ends pts by simp
        ultimately show ?thesis using outcome [OF new(1)] by simp
      qed
    qed
  qed
qed

end

section \<open>The phases of a strict run\<close>

lemma index_pairs_split:
  assumes "index_pairs n = ys @ (i, j) # zs"
  shows "i < n" "j < n" "\<And>k l. (k, l) \<in> set ys \<Longrightarrow> k < n \<and> l < n"
proof -
  have "set ys \<union> {(i, j)} \<subseteq> set (index_pairs n)" using assms by auto
  then show "i < n" "j < n" "\<And>k l. (k, l) \<in> set ys \<Longrightarrow> k < n \<and> l < n" using index_pairs_range by auto
qed

context edge_memory
begin

lemma probe_phase_held:
  assumes "lookupEdge e opts = look" "loses_nothing ok held points (cx_done cx)" "set wps \<subseteq> points"
    and run: "run_loop (probe_pair cx e opts True wps) (index_pairs (length wps)) (start_state (length wps) w) = Some (Go s :: ('e, 'w) flow)"
    and ok: "ok w"
  shows "consistent s"
proof -
  have "flow_ok consistent (\<lambda>_. True) (Go s :: ('e, 'w) flow)"
  proof (rule run_loop_rule [OF run, where I = "\<lambda>_. consistent"])
    show "consistent (start_state (length wps) w)" using ok by (simp add: table_held_def start_state_def)
    fix ys x zs u and r :: "('e, 'w) flow"
    assume xs: "index_pairs (length wps) = ys @ x # zs" and u: "consistent u" and r: "probe_pair cx e opts True wps x u = Some r"
    obtain i j where x: "x = (i, j)" by (cases x)
    have "wps ! i \<in> points" "wps ! j \<in> points" using index_pairs_split(1,2) [OF xs [unfolded x]] assms(3) by auto
    then show "flow_ok consistent (\<lambda>_. True) r"
      using probe_held [OF assms(1,2) _ _ _ u] r x by (cases r) simp_all
  qed
  then show ?thesis by simp
qed

lemma walk_phase_held:
  fixes e :: "('x, 'w) engine"
  assumes io: "persistEdge e opts = persist" and pts: "set wps \<subseteq> points"
    and prov: "route_provider (prov_Route prov)" "answers_in good prov" "\<And>rq. loses_nothing ok held points (prov_Route prov rq)" and halt: "loses_nothing ok held points (cx_done cx)"
    and run: "walk_misses cx e prov opts req slot wps s = Some (Go t)" and cons: "consistent s"
  shows "consistent t"
proof (cases "length (cp_miss s) > 0")
  case False
  then show ?thesis using run cons by (simp add: walk_misses_def)
next
  case True
  obtain stop w1 where stop: "cx_done cx (cp_world s) = (stop, w1)" by (metis surj_pair)
  have w1: "keeps (cp_world s) w1" by (rule loses_nothingD [OF halt stop])
  obtain a where a: "engine_arcCover e (cx_polls cx (cp_world s)) (length wps) (cp_miss s) (engine_maxLegs e) = Some a"
    using run True by (auto simp: walk_misses_def bind_eq_Some_conv)
  then obtain pl where pl: "a = Inr pl" "\<not> stop" using run True stop by (cases a) (auto simp: walk_misses_def Let_def split: if_splits)
  let ?s = "s\<lparr>cp_world := w1, cp_stats := (cp_stats s)\<lparr>es_arc_cover_calls := length (routes pl)\<rparr>\<rparr>"
  have walks: "run_loop (walk_route cx e prov opts req slot wps) (routes pl) ?s = Some (Go t)"
    using run True stop a pl by (simp add: walk_misses_def)
  have "flow_ok consistent (\<lambda>_. True) (Go t :: ('x, 'w) flow)"
  proof (rule run_loop_rule [OF walks, where I = "\<lambda>_. consistent"])
    show "consistent ?s" using w1 by (intro table_held_mono [OF cons]) simp_all
    fix ys x zs u and r :: "('x, 'w) flow"
    assume u: "consistent u" and r: "walk_route cx e prov opts req slot wps x u = Some r"
    show "flow_ok consistent (\<lambda>_. True) r"
      using walk_route_held [OF io prov(1,2) pts prov(3) halt _ u] r by (cases r) simp_all
  qed
  then show ?thesis by simp
qed

definition entries_held :: "coord list \<Rightarrow> (nat \<times> nat) list \<Rightarrow> 'w compute_state \<Rightarrow> bool" where
  "entries_held wps seen s \<longleftrightarrow> (es_fallback_edges (cp_stats s) = 0 \<longrightarrow> (\<forall>i j. (i, j) \<in> set seen \<longrightarrow> i \<noteq> j \<longrightarrow>
     held (cp_world s) (wps ! i) (wps ! j) = Some (f (entry (cp_distances s) (cp_durations s) i j))))"

lemma entry_step_held:
  assumes step: "entry_step i j wps s t" and ok: "ok (cp_world s)" and seen: "entries_held wps seen s" and pts: "set wps \<subseteq> points"
    and sq: "square (length wps) (cp_distances s)" "square (length wps) (cp_durations s)"
    and range: "i < length wps" "j < length wps" "\<And>k l. (k, l) \<in> set seen \<Longrightarrow> k < length wps \<and> l < length wps"
  shows "entries_held wps (seen @ [(i, j)]) t \<and> square (length wps) (cp_distances t) \<and> square (length wps) (cp_durations t)"
proof -
  note step = step [unfolded entry_step_def]
  have old: "held (cp_world t) (wps ! k) (wps ! l) = Some (f (entry (cp_distances s) (cp_durations s) k l))"
    if "es_fallback_edges (cp_stats t) = 0" "(k, l) \<in> set seen" "k \<noteq> l" for k l
  proof (rule keeps_edgesD [where held = held and points = points and w = "cp_world s"])
    show "keeps (cp_world s) (cp_world t)" using step by blast
    show "ok (cp_world s)" by (rule ok)
    show "wps ! k \<in> points" "wps ! l \<in> points" using range(3) [OF that(2)] pts by auto
    show "held (cp_world s) (wps ! k) (wps ! l) = Some (f (entry (cp_distances s) (cp_durations s) k l))"
      using seen step that by (simp add: entries_held_def)
  qed
  show ?thesis
  proof (cases "i = j")
    case True
    then show ?thesis using step sq old by (auto simp: entries_held_def)
  next
    case False
    then obtain st where st: "cp_distances t = (cp_distances s)[i := (cp_distances s ! i)[j := st_distance st]]"
        "cp_durations t = (cp_durations s)[i := (cp_durations s ! i)[j := st_duration st]]"
        "es_fallback_edges (cp_stats t) = 0 \<longrightarrow> held (cp_world t) (wps ! i) (wps ! j) = Some (f (step_value st))"
      using step by auto
    have "entry (cp_distances t) (cp_durations t) k l = (if k = i \<and> l = j then step_value st else entry (cp_distances s) (cp_durations s) k l)"
      if "k < length wps" "l < length wps" for k l
      unfolding st(1,2) step_value_def by (rule entry_upd [OF sq range(1,2) that])
    then have "entries_held wps (seen @ [(i, j)]) t"
      unfolding entries_held_def using st(3) old range by (auto split: if_splits)
    then show ?thesis using st(1,2) square_upd [OF sq(1) range(1)] square_upd [OF sq(2) range(1)] by simp
  qed
qed

lemma fill_phase_held:
  assumes io: "lookupEdge e opts = look" "persistEdge e opts = persist" and pts: "set wps \<subseteq> points"
    and prov: "\<And>rq. loses_nothing ok held points (prov_Route prov rq)" "route_provider (prov_Route prov)" "answers_in good prov" and halt: "loses_nothing ok held points (cx_done cx)"
    and run: "run_loop (fill_entry cx e prov opts True req slot wps) (index_pairs (length wps)) s = Some (Go t)" and cons: "consistent s"
    and sq: "square (length wps) (cp_distances s)" "square (length wps) (cp_durations s)"
  shows "keeps (cp_world s) (cp_world t)" "entries_held wps (index_pairs (length wps)) t"
proof -
  let ?n = "length wps"
  let ?J = "\<lambda>seen u. consistent u \<and> keeps (cp_world s) (cp_world u) \<and> square ?n (cp_distances u) \<and> square ?n (cp_durations u) \<and> entries_held wps seen u"
  have "flow_ok (?J (index_pairs ?n)) (\<lambda>_. True) (Go t :: ('e, 'w) flow)"
  proof (rule run_loop_rule [OF run, where I = ?J])
    show "?J [] s" using cons sq by (simp add: entries_held_def)
    fix ys x zs u and r :: "('e, 'w) flow"
    assume xs: "index_pairs ?n = ys @ x # zs" and u: "?J ys u" and r: "fill_entry cx e prov opts True req slot wps x u = Some r"
    obtain i j where x: "x = (i, j)" by (cases x)
    note range = index_pairs_split [OF xs [unfolded x]]
    show "flow_ok (?J (ys @ [x])) (\<lambda>_. True) r"
    proof (cases r)
      case (Go u')
      have "wps ! i \<in> points" "wps ! j \<in> points" using range(1,2) pts by auto
      from fill_entry_held [OF io this prov halt r [unfolded x Go]] u have step: "entry_step i j wps u u'" by blast
      then have "consistent u'" "keeps (cp_world u) (cp_world u')" by (simp_all add: entry_step_def)
      moreover have "entries_held wps (ys @ [(i, j)]) u' \<and> square ?n (cp_distances u') \<and> square ?n (cp_durations u')"
        using u table_held_ok [of ok held f points u] by (intro entry_step_held [OF step _ _ pts _ _ range]) simp_all
      ultimately show ?thesis using u keeps_edges_trans by (auto simp: Go x)
    qed simp_all
  qed
  then show "keeps (cp_world s) (cp_world t)" "entries_held wps (index_pairs ?n) t" by simp_all
qed

end

lemma phases_split:
  assumes run: "compute_phases cx e prov opts strict req wmt wps (start_state (length wps) w) = Some (Go t)"
  obtains s1 s2 where "run_loop (probe_pair cx e opts strict wps) (index_pairs (length wps)) (start_state (length wps) w) = Some (Go s1)"
    "walk_misses cx e prov opts req wmt wps s1 = Some (Go s2)"
    "run_loop (fill_entry cx e prov opts strict req wmt wps) (index_pairs (length wps)) s2 = Some (Go t)"
    "square (length wps) (cp_distances s2)" "square (length wps) (cp_durations s2)"
proof -
  let ?n = "length wps" and ?B = "before_fill e prov opts req (length wps)"
  obtain r1 where r1: "run_loop (probe_pair cx e opts strict wps) (index_pairs ?n) (start_state ?n w) = Some r1"
    using run by (auto simp: compute_phases_def bind_eq_Some_conv)
  then obtain s1 where Go1: "r1 = Go s1" using run by (cases r1) (simp_all add: compute_phases_def)
  note s1 = r1 [unfolded Go1]
  obtain r2 where r2: "walk_misses cx e prov opts req wmt wps s1 = Some r2"
    using run s1 by (auto simp: compute_phases_def bind_eq_Some_conv)
  then obtain s2 where Go2: "r2 = Go s2" using run s1 by (cases r2) (simp_all add: compute_phases_def)
  note s2 = r2 [unfolded Go2]
  have "?B (start_state ?n w)" by (simp add: before_fill_def start_state_def segments_ok_def)
  then have "flow_ok ?B ?B r1" by (intro run_loop_rule [OF r1, where I = "\<lambda>_. ?B"]) (use probe_pair_before in auto)
  then have "flow_ok ?B ?B r2" using Go1 by (intro walk_misses_before [OF _ r2]) simp
  then have "square ?n (cp_distances s2)" "square ?n (cp_durations s2)" by (simp_all add: Go2 before_fill_def square_zero)
  moreover have "run_loop (fill_entry cx e prov opts strict req wmt wps) (index_pairs ?n) s2 = Some (Go t)"
    using run s1 s2 by (simp add: compute_phases_def)
  ultimately show thesis using that s1 s2 by blast
qed

context edge_memory
begin

text \<open>The first run: every entry of its matrix is held afterwards.\<close>

lemma phases_held:
  assumes io: "lookupEdge e opts = look" "persistEdge e opts = persist" and pts: "set wps \<subseteq> points"
    and prov: "\<And>rq. loses_nothing ok held points (prov_Route prov rq)" "route_provider (prov_Route prov)" "answers_in good prov" and halt: "loses_nothing ok held points (cx_done cx)"
    and run: "compute_phases cx e prov opts True req slot wps (start_state (length wps) w) = Some (Go t)"
    and ok: "ok w"
  shows "ok (cp_world t)" "es_fallback_edges (cp_stats t) = 0 \<Longrightarrow> i < length wps \<Longrightarrow> j < length wps \<Longrightarrow> i \<noteq> j \<Longrightarrow>
      held (cp_world t) (wps ! i) (wps ! j) = Some (f (entry (cp_distances t) (cp_durations t) i j))"
proof -
  obtain s1 s2 where s: "run_loop (probe_pair cx e opts True wps) (index_pairs (length wps)) (start_state (length wps) w) = Some (Go s1)"
    "walk_misses cx e prov opts req slot wps s1 = Some (Go s2)"
    "run_loop (fill_entry cx e prov opts True req slot wps) (index_pairs (length wps)) s2 = Some (Go t)"
    "square (length wps) (cp_distances s2)" "square (length wps) (cp_durations s2)"
    by (rule phases_split [OF run])
  have "consistent s2"
    by (rule walk_phase_held [OF io(2) pts prov(2,3,1) halt s(2) probe_phase_held [OF io(1) halt pts s(1) ok]])
  note fill = fill_phase_held [OF io pts prov halt s(3) this s(4,5)]
  show "ok (cp_world t)" by (rule keeps_edges_ok [OF fill(1) table_held_ok [OF \<open>consistent s2\<close>]])
  show "es_fallback_edges (cp_stats t) = 0 \<Longrightarrow> i < length wps \<Longrightarrow> j < length wps \<Longrightarrow> i \<noteq> j \<Longrightarrow>
      held (cp_world t) (wps ! i) (wps ! j) = Some (f (entry (cp_distances t) (cp_durations t) i j))"
    using fill(2) by (simp add: entries_held_def index_pairs_range)
qed

text \<open>The second run: when every pair is held nothing is missed, nobody is asked, and the entries are what is held.\<close>

lemma probes_warm:
  fixes e :: "('e, 'w) engine"
  assumes io: "lookupEdge e opts = look" and pts: "set wps \<subseteq> points" and halt: "never_done cx" "loses_nothing ok held points (cx_done cx)"
    and ok: "ok w" and warm: "\<And>i j. i < length wps \<Longrightarrow> j < length wps \<Longrightarrow> i \<noteq> j \<Longrightarrow> held w (wps ! i) (wps ! j) \<noteq> None"
  obtains s h c where "run_loop (probe_pair cx e opts True wps) (index_pairs (length wps)) (start_state (length wps) w) = Some (Go s :: ('e, 'w) flow)"
    "cp_miss s = []" "counts s = (h, c, 0, 0, 0)" "es_fallback_edges (cp_stats s) = 0" "keeps w (cp_world s)"
    "\<forall>i < length wps. \<forall>j < length wps. i \<noteq> j \<longrightarrow> pairKey (wps ! i) (wps ! j) \<in> dom (cp_segments s)"
proof -
  let ?n = "length wps"
  let ?I = "\<lambda>seen (s :: 'w compute_state). cp_miss s = [] \<and> (\<exists>h c. counts s = (h, c, 0, 0, 0)) \<and> es_fallback_edges (cp_stats s) = 0 \<and>
    keeps w (cp_world s) \<and> (\<forall>(i, j) \<in> set seen. i \<noteq> j \<longrightarrow> pairKey (wps ! i) (wps ! j) \<in> dom (cp_segments s))"
  have "\<exists>t. run_loop (probe_pair cx e opts True wps) (index_pairs ?n) (start_state ?n w) = Some (Go t) \<and> ?I (index_pairs ?n) t"
  proof (rule run_loop_exact [where I = ?I])
    show "?I [] (start_state ?n w)" by (simp add: start_state_def counts_def)
    fix seen rest :: "(nat \<times> nat) list" and x :: "nat \<times> nat" and s :: "'w compute_state"
    assume xs: "index_pairs ?n = seen @ x # rest" and s: "?I seen s"
    obtain i j :: nat where x: "x = (i, j)" by (cases x)
    have ij: "i < ?n" "j < ?n" using index_pairs_split(1,2) [OF xs [unfolded x]] by simp_all
    then have ps: "wps ! i \<in> points" "wps ! j \<in> points" using pts by auto
    obtain w1 where w1: "cx_done cx (cp_world s) = (False, w1)" using halt(1) by (auto simp: never_done_def)
    have k1: "keeps w w1" by (rule keeps_edges_trans [OF _ loses_nothingD [OF halt(2) w1]]) (use s in simp)
    show "\<exists>t'. probe_pair cx e opts True wps x s = Some (Go t') \<and> ?I (seen @ [x]) t'"
    proof (cases "i = j \<or> pairKey (wps ! i) (wps ! j) \<in> dom (cp_segments s)")
      case True
      then have "probe_pair cx e opts True wps x s = Some (Go (if i = j then s else s\<lparr>cp_world := w1\<rparr>))"
        using w1 by (auto simp: probe_pair_def x)
      then show ?thesis using s k1 True by (auto simp: x)
    next
      case False
      then have new: "cp_segments s (pairKey (wps ! i) (wps ! j)) = None" "i \<noteq> j" by auto
      obtain v where v: "held w (wps ! i) (wps ! j) = Some v" using warm [OF ij new(2)] by (cases "held w (wps ! i) (wps ! j)") simp_all
      from look_held [OF keeps_edges_ok [OF k1 ok] ps keeps_edgesD [OF k1 ok ps v]] obtain st cold w2 where q: "look (wps ! i) (wps ! j) w1 = Some (Inr (Some (st, cold)), w2)" by blast
      let ?s = "note_hit cold (pairKey (wps ! i) (wps ! j)) st (s\<lparr>cp_world := w2\<rparr>)"
      have "probe_pair cx e opts True wps x s = Some (Go ?s)"
        using w1 new q by (simp add: probe_pair_def x io Let_def)
      moreover have "keeps w w2" by (rule keeps_edges_trans [OF k1 look_keeps [OF ps q]])
      then have "?I (seen @ [x]) ?s" using s by (auto simp: x note_hit_def counts_def)
      ultimately show ?thesis by blast
    qed
  qed
  then obtain s where both: "run_loop (probe_pair cx e opts True wps) (index_pairs ?n) (start_state ?n w) = Some (Go s) \<and> ?I (index_pairs ?n) s"
    by (rule exE)
  note run = both [THEN conjunct1] and I = both [THEN conjunct2]
  from I obtain h c where hc: "counts s = (h, c, 0, 0, 0)" by blast
  have "pairKey (wps ! i) (wps ! j) \<in> dom (cp_segments s)" if "i < ?n" "j < ?n" "i \<noteq> j" for i j
    using bspec [OF I [THEN conjunct2, THEN conjunct2, THEN conjunct2, THEN conjunct2], of "(i, j)"] that by (simp add: index_pairs_range)
  then show thesis by (intro that [OF run _ hc]) (use I in \<open>auto\<close>)
qed

lemma phases_warm:
  assumes io: "lookupEdge e opts = look" "persistEdge e opts = persist" and pts: "set wps \<subseteq> points"
    and prov: "\<And>rq. loses_nothing ok held points (prov_Route prov rq)" "route_provider (prov_Route prov)" "answers_in good prov"
    and halt: "never_done cx" "loses_nothing ok held points (cx_done cx)"
    and ok: "ok w" and warm: "\<And>i j. i < length wps \<Longrightarrow> j < length wps \<Longrightarrow> i \<noteq> j \<Longrightarrow> held w (wps ! i) (wps ! j) = Some (v i j)"
  obtains t h c where "compute_phases cx e prov opts True req slot wps (start_state (length wps) w) = Some (Go t)"
    "counts t = (h, c, 0, 0, 0)"
    "\<forall>i < length wps. \<forall>j < length wps. i \<noteq> j \<longrightarrow> f (entry (cp_distances t) (cp_durations t) i j) = v i j"
proof -
  let ?n = "length wps"
  have "held w (wps ! i) (wps ! j) \<noteq> None" if "i < ?n" "j < ?n" "i \<noteq> j" for i j using warm [OF that] by simp
  then obtain s h c where
    s: "run_loop (probe_pair cx e opts True wps) (index_pairs ?n) (start_state ?n w) = Some (Go s)"
      "cp_miss s = []" "counts s = (h, c, 0, 0, 0)" "es_fallback_edges (cp_stats s) = 0" "keeps w (cp_world s)"
    and all: "\<forall>i < ?n. \<forall>j < ?n. i \<noteq> j \<longrightarrow> pairKey (wps ! i) (wps ! j) \<in> dom (cp_segments s)"
    by (rule probes_warm [OF io(1) pts halt ok])
  then have known: "pairKey (wps ! i) (wps ! j) \<in> dom (cp_segments s)" if "i < ?n" "j < ?n" "i \<noteq> j" for i j using that by blast
  from fill_known [OF halt(1), where wps = wps and s = s, OF known] obtain t where
    t: "run_loop (fill_entry cx e prov opts True req slot wps) (index_pairs ?n) s = Some (Go t)" "counts t = counts s" "cp_stats t = cp_stats s" by blast
  have run: "compute_phases cx e prov opts True req slot wps (start_state ?n w) = Some (Go t)"
    using s(1,2) t(1) by (simp add: compute_phases_def walk_misses_def)
  have sq: "square ?n (cp_distances s)" "square ?n (cp_durations s)"
    by (rule phases_split [OF run], use s(1,2) in \<open>simp add: walk_misses_def\<close>)+
  note fill = fill_phase_held [OF io pts prov halt(2) t(1) probe_phase_held [OF io(1) halt(2) pts s(1) ok] sq]
  have "f (entry (cp_distances t) (cp_durations t) i j) = v i j" if ij: "i < ?n" "j < ?n" "i \<noteq> j" for i j
  proof -
    have "wps ! i \<in> points" "wps ! j \<in> points" using ij pts by auto
    from keeps_edgesD [OF keeps_edges_trans [OF s(5) fill(1)] ok this warm [OF ij]]
    have "held (cp_world t) (wps ! i) (wps ! j) = Some (v i j)" .
    then show ?thesis using fill(2) ij s(4) t(3) by (simp add: entries_held_def index_pairs_range)
  qed
  then show thesis using that [OF run] t(2) s(3) by simp
qed

end

end
