(* ===== verification/Mysql_Table.thy ===== *)
theory Mysql_Table
  imports Mysql_Archive
begin

text \<open>
  The MySQL archive as an archive: a database that keeps a table with a unique index on the conflict
  columns (\<open>mysql_table\<close>) makes \<open>internal/persist/store.go\<close> an \<open>edge_archive\<close>, and strict reads from it agree
  with the memory archive of \<open>memory.go\<close> up to the codec of the rows. \<open>row_table\<close> is such a database.
\<close>

section \<open>The table\<close>

text \<open>
  The documented effect of the statements: \<open>INSERT ... ON DUPLICATE KEY UPDATE\<close> inserts the row or updates
  the one row with the same conflict columns; the query by slots returns the rows with the given
  columns. Strings are compared by their bytes (a binary collation).
\<close>

locale mysql_table =
  fixes db :: "'w mysql_db"
    and table :: "'w \<Rightarrow> conflict_key \<Rightarrow> mysql_row option"
  assumes create: "\<exists>w'. db_create db conflict_columns conflict_update row w = (None, w') \<and>
      table w' = (table w)(conflict_columns row \<mapsto>
        (case table w (conflict_columns row) of None \<Rightarrow> row | Some old \<Rightarrow> conflict_update old row))"
    and find_slots: "\<exists>rows w'. db_find_slots db t m s a b slots w = (Inr rows, w') \<and> table w' = table w \<and>
      set rows = {r. \<exists>sl \<in> set slots. table w (t, m, s, a, b, sl) = Some r}"
    and keyed: "table w k = Some r \<Longrightarrow> conflict_columns r = k"

text \<open>The edge that comes back from a row.\<close>

definition stored_edge :: "coord_json \<Rightarrow> civil_time \<Rightarrow> edge \<Rightarrow> edge" where
  "stored_edge js now e =
     e\<lparr>ed_origin := coord_or_zero js (coordJSON js (ed_origin e)), ed_destination := coord_or_zero js (coordJSON js (ed_destination e)),
       ed_distance := cj_f32 js (ed_distance e), ed_duration := cj_f32 js (ed_duration e), ed_wmt := mem_slot now (ed_wmt e),
       ed_computed_at := None\<rparr>"

lemma row_comes_back: "rowToEdge js (row_of_edge js gh now u opts e) = stored_edge js now e"
  by (simp add: rowToEdge_def row_of_edge_def stored_edge_def Let_def)

lemma updated_row_comes_back: "conflict_columns old = conflict_columns row \<Longrightarrow> rowToEdge js (conflict_update old row) = rowToEdge js row"
  by (simp add: rowToEdge_def conflict_update_def conflict_columns_def)

definition mysql_write_key :: "(coord \<Rightarrow> string) \<Rightarrow> civil_time \<Rightarrow> lookup_opts \<Rightarrow> edge \<Rightarrow> conflict_key" where
  "mysql_write_key gh now opts e =
     (tenant_name (lo_tenant opts), int32 (lo_method opts), int32 (lo_strategy opts), gh (ed_origin e), gh (ed_destination e), mem_slot now (ed_wmt e))"

definition mysql_read_key :: "(coord \<Rightarrow> string) \<Rightarrow> civil_time \<Rightarrow> lookup_opts \<Rightarrow> coord \<Rightarrow> coord \<Rightarrow> conflict_key" where
  "mysql_read_key gh now opts a b =
     (tenant_name (lo_tenant opts), lo_method opts, lo_strategy opts, gh a, gh b, mem_slot now (lo_time_slot opts))"

lemma row_columns: "conflict_columns (row_of_edge js gh now u opts e) = mysql_write_key gh now opts e"
  by (simp add: conflict_columns_def row_of_edge_def mysql_write_key_def Let_def)

context mysql_table
begin

abbreviation contents :: "coord_json \<Rightarrow> 'w \<Rightarrow> conflict_key \<Rightarrow> edge option" where
  "contents js w k \<equiv> map_option (rowToEdge js) (table w k)"

lemma contents_upsert:
  "contents js (snd (mysql_Upsert js gh now unix (Some db) opts e w)) k =
    (if ed_distance e \<noteq> 0 \<and> k = mysql_write_key gh (now w) opts e then Some (stored_edge js (now w) e) else contents js w k)"
proof (cases "ed_distance e = 0")
  case False
  let ?row = "row_of_edge js gh (now w) (unix w) opts e"
  obtain w' where w': "db_create db conflict_columns conflict_update ?row w = (None, w')"
      "table w' = (table w)(conflict_columns ?row \<mapsto> (case table w (conflict_columns ?row) of None \<Rightarrow> ?row | Some old \<Rightarrow> conflict_update old ?row))"
    using create by blast
  have "rowToEdge js (case table w (conflict_columns ?row) of None \<Rightarrow> ?row | Some old \<Rightarrow> conflict_update old ?row) = stored_edge js (now w) e"
    using keyed [of w "conflict_columns ?row"] by (simp add: row_comes_back updated_row_comes_back split: option.split)
  then show ?thesis using False w' by (auto simp: mysql_Upsert_def row_columns)
qed (simp add: mysql_Upsert_def)

lemma strict_get:
  assumes "lo_strict opts"
  obtains w' where "mysql_Get js gh now (Some db) opts a b w = (Inr (contents js w (mysql_read_key gh (now w) opts a b)), w')" "table w' = table w"
proof -
  let ?slot = "mem_slot (now w) (lo_time_slot opts)" and ?k = "mysql_read_key gh (now w) opts a b"
  obtain rows w' where w': "db_find_slots db (tenant_name (lo_tenant opts)) (lo_method opts) (lo_strategy opts) (gh a) (gh b) [?slot] w = (Inr rows, w')"
      "table w' = table w" "set rows = {r. table w ?k = Some r}"
    using find_slots [of "tenant_name (lo_tenant opts)" "lo_method opts" "lo_strategy opts" "gh a" "gh b" "[?slot]" w]
    by (auto simp: mysql_read_key_def)
  have pick: "fold (\<lambda>r m. m(my_wmt r \<mapsto> r)) rs m ?slot = (if rs = [] then m ?slot else table w ?k)"
    if "set rs \<subseteq> {r. table w ?k = Some r}" for rs :: "mysql_row list" and m
    using that
  proof (induction rs arbitrary: m)
    case (Cons r rs)
    then have r: "table w ?k = Some r" by simp
    then have "my_wmt r = ?slot" using keyed [OF r] by (simp add: conflict_columns_def mysql_read_key_def)
    then show ?case using Cons r by simp
  qed simp
  have "rows = [] \<Longrightarrow> table w ?k = None" using w'(3) by (cases "table w ?k") auto
  then have "fold (\<lambda>r m. m(my_wmt r \<mapsto> r)) rows Map.empty ?slot = table w ?k" using pick [of rows Map.empty] w'(3) by auto
  then have "mysql_Get js gh now (Some db) opts a b w = (Inr (contents js w ?k), w')"
    using assms w'(1) by (auto simp: mysql_Get_def getBySlots_def Let_def List.map_filter_def split: option.split)
  then show thesis using that w'(2) by blast
qed

end

sublocale mysql_table \<subseteq> rows: edge_archive
  "\<lambda>opts e w. snd (mysql_Upsert js gh (\<lambda>_. now) unix (Some db) opts e w)"
  "\<lambda>opts a b w. projr (fst (mysql_Get js gh (\<lambda>_. now) (Some db) opts a b w))"
  "contents js" "mysql_write_key gh now" "mysql_read_key gh now" "stored_edge js now" for js gh now unix
proof
  show "projr (fst (mysql_Get js gh (\<lambda>_. now) (Some db) opts a b w)) = contents js w (mysql_read_key gh now opts a b)"
    if strict: "lo_strict opts" for opts a b w
    by (rule strict_get [OF strict, of js gh "\<lambda>_. now" a b w]) simp
qed (rule contents_upsert)

context mysql_table
begin

lemma rows_archive:
  "edge_archive (\<lambda>opts e w. snd (mysql_Upsert js gh (\<lambda>_. now) unix (Some db) opts e w))
     (\<lambda>opts a b w. projr (fst (mysql_Get js gh (\<lambda>_. now) (Some db) opts a b w)))
     (contents js) (mysql_write_key gh now) (mysql_read_key gh now) (stored_edge js now)"
  by (rule rows.edge_archive_axioms)

end

section \<open>A database of rows\<close>

definition row_at :: "mysql_row list \<Rightarrow> conflict_key \<Rightarrow> mysql_row option" where
  "row_at rows k = find (\<lambda>r. conflict_columns r = k) rows"

fun put_row :: "(mysql_row \<Rightarrow> conflict_key) \<Rightarrow> (mysql_row \<Rightarrow> mysql_row \<Rightarrow> mysql_row) \<Rightarrow> mysql_row \<Rightarrow> mysql_row list \<Rightarrow> mysql_row list" where
  "put_row key upd row [] = [row]"
| "put_row key upd row (r # rs) = (if key r = key row then upd r row # rs else r # put_row key upd row rs)"

definition row_table :: "mysql_row list mysql_db" where
  "row_table = \<lparr>db_create = (\<lambda>key upd row rows. (None, put_row key upd row rows)),
     db_find_slots = (\<lambda>t m s a b slots rows. (Inr (List.map_filter (\<lambda>sl. row_at rows (t, m, s, a, b, sl)) slots), rows)),
     db_find_hour = (\<lambda>t m s a b h rows. (Inr (filter (\<lambda>r. (my_tenant r, my_method r, my_strategy r, my_start_geo r, my_end_geo r, my_t r) =
       (t, m, s, a, b, h)) rows), rows))\<rparr>"

lemma row_at_put:
  "row_at (put_row conflict_columns conflict_update row rows) k =
    (if k = conflict_columns row then Some (case row_at rows k of None \<Rightarrow> row | Some old \<Rightarrow> conflict_update old row) else row_at rows k)"
proof (induction rows)
  case (Cons r rows)
  have "conflict_columns (conflict_update r row) = conflict_columns r" by (simp add: conflict_columns_def conflict_update_def)
  with Cons show ?case by (cases "conflict_columns r = conflict_columns row") (auto simp: row_at_def)
qed (auto simp: row_at_def)

interpretation rowdb: mysql_table row_table row_at
proof
  show "\<exists>rows' w'. db_find_slots row_table t m s a b slots w = (Inr rows', w') \<and> row_at w' = row_at w \<and>
      set rows' = {r. \<exists>sl \<in> set slots. row_at w (t, m, s, a, b, sl) = Some r}" for t m s a b slots w
    by (induction slots) (auto simp: row_table_def List.map_filter_simps split: option.split)
  show "row_at w k = Some r \<Longrightarrow> conflict_columns r = k" for w k r
    by (auto simp: row_at_def find_Some_iff)
qed (auto simp: row_table_def row_at_put fun_eq_iff)

section \<open>Keys of the memory archive\<close>

text \<open>Keys of the memory archive determine all their parts but for a bar in geohashes or slots.\<close>

lemma Itoa_inj: "Itoa m = Itoa n \<longleftrightarrow> m = n"
proof -
  have minus: "digits k \<noteq> CHR ''-'' # s" for k s
    using no_separator [of "CHR ''-''" k] by (metis list.set_intros(1) separators(5))
  then have minus': "CHR ''-'' # s \<noteq> digits k" for k s by metis
  show ?thesis using digits_inj [of "nat m" "nat n"] digits_inj [of "nat (- m)" "nat (- n)"]
    by (auto simp: Itoa_def minus minus')
qed

lemma Itoa_no_bar: "CHR ''|'' \<notin> set (Itoa n)"
proof -
  have "\<not> is_digit CHR ''|''" by code_simp
  then show ?thesis by (simp add: Itoa_def no_separator)
qed

lemma memKey_eq_iff:
  assumes "CHR ''|'' \<notin> set a \<union> set b \<union> set w" "CHR ''|'' \<notin> set a' \<union> set b' \<union> set w'"
  shows "memKey t m s a b w = memKey t' m' s' a' b' w' \<longleftrightarrow> (t, m, s, a, b, w) = (t', m', s', a', b', w')"
proof -
  have key: "memKey t m s a b w = ((((t @ CHR ''|'' # Itoa m) @ CHR ''|'' # Itoa s) @ CHR ''|'' # a) @ CHR ''|'' # b) @ CHR ''|'' # w" for t m s a b w
    by (simp add: memKey_def)
  have free: "CHR ''|'' \<notin> set a" "CHR ''|'' \<notin> set b" "CHR ''|'' \<notin> set w" "CHR ''|'' \<notin> set a'" "CHR ''|'' \<notin> set b'" "CHR ''|'' \<notin> set w'"
    using assms by simp_all
  show ?thesis
    unfolding key split_last [OF free(3,6)] split_last [OF free(2,5)] split_last [OF free(1,4)] split_last [OF Itoa_no_bar Itoa_no_bar] Itoa_inj
    by auto
qed

section \<open>Properties\<close>

definition job_storable :: "civil_time \<Rightarrow> upsert_job \<Rightarrow> bool" where
  "job_storable now = (\<lambda>(opts, e). {lo_method opts, lo_strategy opts} \<subseteq> {- (2 ^ 31)..<2 ^ 31} \<and> CHR ''|'' \<notin> set (mem_slot now (ed_wmt e)))"

lemma stored_edge_slot: "stored_edge js now (e\<lparr>ed_wmt := mem_slot now (ed_wmt e)\<rparr>) = stored_edge js now e"
  using TimeSlotWMH_nonempty by (auto simp: stored_edge_def mem_slot_def)


text \<open>Two writes for one key through \<open>row_table\<close>: the later distance comes back.\<close>

definition plain_json :: coord_json where
  "plain_json = \<lparr>cj_encode = (\<lambda>v. ''[]''), cj_decode = (\<lambda>s. Some [0, 0]), cj_f32 = (\<lambda>x. x)\<rparr>"


end
