(* ===== verification/Matrix_Retry.thy ===== *)
theory Matrix_Retry
  imports Edge_Memory Mysql_Table
begin

text \<open>
  A matrix that was computed is not paid for twice: a strict request that was answered without fallback
  edges is answered again from the cache, with the same matrix. The Redis store is the memory that
  \<open>Edge_Memory\<close> asks for (\<open>live_cache\<close>, and \<open>exact_cache\<close> when it also keeps the numbers), with or
  without an archive and an asynchronous writer behind it.
\<close>

section \<open>What Redis keeps\<close>

text \<open>The edge that a client reads in one field of a hash.\<close>

definition read_field :: "'w store_env \<Rightarrow> 'w \<Rightarrow> string \<Rightarrow> string \<Rightarrow> edge option" where
  "read_field env w k f = (case fst (rd_hmget (se_redis env) k [f] w) of Inr vals \<Rightarrow> first_edge env vals | Inl err \<Rightarrow> None)"

text \<open>
  Redis, as long as it is reachable and nothing expires: reads do not fail and change nothing, and the
  pipeline of \<open>Put\<close> sets the one field that it names.
\<close>

definition keeps_hashes :: "'w store_env \<Rightarrow> bool" where
  "keeps_hashes env \<longleftrightarrow>
     (\<forall>k f w. \<exists>vals w'. rd_hmget (se_redis env) k [f] w = (Inr vals, w')) \<and>
     (\<forall>k f w. read_field env (snd (rd_hmget (se_redis env) k [f] w)) = read_field env w) \<and>
     (\<forall>g ps k f raw ttl z u w. read_field env (snd (rd_exec (se_redis env) [GeoAdd g ps, HSet k f raw, Expire k ttl, ZAdd z u k] w)) =
        (\<lambda>k' f'. if k' = k \<and> f' = f then se_parse env raw else read_field env w k' f'))"

lemma keeps_hashesD:
  assumes "keeps_hashes env"
  shows "\<exists>vals w'. rd_hmget (se_redis env) k [f] w = (Inr vals, w')"
    and "read_field env (snd (rd_hmget (se_redis env) k [f] w)) = read_field env w"
    and "read_field env (snd (rd_exec (se_redis env) [GeoAdd g ps, HSet k f raw, Expire k ttl, ZAdd z u k] w)) =
      (\<lambda>k' f'. if k' = k \<and> f' = f then se_parse env raw else read_field env w k' f')"
  using assms unfolding keeps_hashes_def by simp_all

text \<open>
  Calls that leave the fields alone, and archives that do and whose strict answers belong to their
  question; \<open>ok\<close> is an invariant of the world, as an archive may need one, and \<open>good\<close> says which
  distances and durations occur (a \<open>float32\<close> survives a codec, not every real number does).
\<close>

definition leaves_cache :: "'w store_env \<Rightarrow> ('w \<Rightarrow> bool) \<Rightarrow> ('w \<Rightarrow> 'a \<times> 'w) \<Rightarrow> bool" where
  "leaves_cache env ok f \<longleftrightarrow> (\<forall>w. ok w \<longrightarrow> ok (snd (f w)) \<and> read_field env (snd (f w)) = read_field env w)"

lemma leaves_cacheD: "leaves_cache env ok f \<Longrightarrow> ok w \<Longrightarrow> f w = (x, w') \<Longrightarrow> ok w' \<and> read_field env w' = read_field env w"
  unfolding leaves_cache_def by (metis snd_conv)

abbreviation edge_numbers :: "edge \<Rightarrow> real \<times> real" where
  "edge_numbers ed \<equiv> (ed_distance ed, ed_duration ed)"

definition archive_fits :: "'w store_env \<Rightarrow> ('w \<Rightarrow> bool) \<Rightarrow> (real \<times> real \<Rightarrow> bool) \<Rightarrow> lookup_opts \<Rightarrow> 'w archive_ops \<Rightarrow> bool" where
  "archive_fits env ok good opts ar \<longleftrightarrow>
     (\<forall>p d. leaves_cache env ok (ar_Get ar opts p d)) \<and> (\<forall>ed. ed_wmt ed = lo_time_slot opts \<longrightarrow> good (edge_numbers ed) \<longrightarrow> leaves_cache env ok (ar_Upsert ar opts ed)) \<and>
     (\<forall>p d w ed w'. ok w \<longrightarrow> ar_Get ar opts p d w = (Inr (Some ed), w') \<longrightarrow>
        EncodeGeoHash env (ed_origin ed) = EncodeGeoHash env p \<and> EncodeGeoHash env (ed_destination ed) = EncodeGeoHash env d \<and>
        ed_wmt ed = lo_time_slot opts \<and> good (edge_numbers ed))"

lemma archive_fitsD:
  assumes "archive_fits env ok good opts ar" "ok w"
  shows "ar_Get ar opts p d w = (r, w') \<Longrightarrow> ok w' \<and> read_field env w' = read_field env w"
    and "ed_wmt ed = lo_time_slot opts \<Longrightarrow> good (edge_numbers ed) \<Longrightarrow> ok (snd (ar_Upsert ar opts ed w)) \<and> read_field env (snd (ar_Upsert ar opts ed w)) = read_field env w"
    and "ar_Get ar opts p d w = (Inr (Some ed), w') \<Longrightarrow> EncodeGeoHash env (ed_origin ed) = EncodeGeoHash env p \<and>
      EncodeGeoHash env (ed_destination ed) = EncodeGeoHash env d \<and> ed_wmt ed = lo_time_slot opts \<and> good (edge_numbers ed)"
proof -
  show "ar_Get ar opts p d w = (r, w') \<Longrightarrow> ok w' \<and> read_field env w' = read_field env w"
    using assms leaves_cacheD [of env ok "ar_Get ar opts p d" w r w'] unfolding archive_fits_def by blast
  show "ed_wmt ed = lo_time_slot opts \<Longrightarrow> good (edge_numbers ed) \<Longrightarrow> ok (snd (ar_Upsert ar opts ed w)) \<and> read_field env (snd (ar_Upsert ar opts ed w)) = read_field env w"
    using assms unfolding archive_fits_def leaves_cache_def by simp
  show "ar_Get ar opts p d w = (Inr (Some ed), w') \<Longrightarrow> EncodeGeoHash env (ed_origin ed) = EncodeGeoHash env p \<and>
      EncodeGeoHash env (ed_destination ed) = EncodeGeoHash env d \<and> ed_wmt ed = lo_time_slot opts \<and> good (edge_numbers ed)"
    using assms unfolding archive_fits_def by blast
qed

definition redis_leaves :: "'w store_env \<Rightarrow> ('w \<Rightarrow> bool) \<Rightarrow> bool" where
  "redis_leaves env ok \<longleftrightarrow> (\<forall>w. ok w \<longrightarrow> (\<forall>k f. ok (snd (rd_hmget (se_redis env) k f w))) \<and> (\<forall>cmds. ok (snd (rd_exec (se_redis env) cmds w))))"

section \<open>Strict reads and writes\<close>

lemma with_tenant_fields:
  "lo_strict (with_tenant opts) = lo_strict opts" "lo_time_slot (with_tenant opts) = lo_time_slot opts"
  "lo_method (with_tenant opts) = lo_method opts" "lo_strategy (with_tenant opts) = lo_strategy opts"
  by (simp_all add: with_tenant_def)

abbreviation cell_key :: "cache_store \<Rightarrow> lookup_opts \<Rightarrow> string \<Rightarrow> string \<Rightarrow> string option" where
  "cell_key s opts \<equiv> store_hashKey s (lo_tenant (with_tenant opts)) (lo_method opts) (lo_strategy opts)"

lemma cell_key_inj:
  assumes "cell_key s opts b g = Some k" "cell_key s opts b' g' = Some k" "CHR '':'' \<notin> set b \<union> set g \<union> set b' \<union> set g'"
  shows "b = b' \<and> g = g'"
proof -
  obtain ctx where ctx: "ContextKey (lo_method opts) (lo_strategy opts) = Some ctx"
    using assms(1) by (auto simp: store_hashKey_def hashKey_def bind_eq_Some_conv)
  let ?pre = "tenantPrefix (cs_prefix s) (lo_tenant (with_tenant opts)) @ '':edge:'' @ ctx"
  have "(?pre @ CHR '':'' # b) @ CHR '':'' # g = (?pre @ CHR '':'' # b') @ CHR '':'' # g'"
    using assms(1,2) ctx by (simp add: store_hashKey_def hashKey_def)
  moreover have free: "CHR '':'' \<notin> set b" "CHR '':'' \<notin> set g" "CHR '':'' \<notin> set b'" "CHR '':'' \<notin> set g'" using assms(3) by simp_all
  ultimately show ?thesis unfolding split_last [OF free(2,4)] split_last [OF free(1,3)] by simp
qed

text \<open>The numbers a strict lookup in the cache will answer; points in one cell are at distance 0.\<close>

definition cache_value :: "'w store_env \<Rightarrow> cache_store \<Rightarrow> lookup_opts \<Rightarrow> 'w \<Rightarrow> coord \<Rightarrow> coord \<Rightarrow> (real \<times> real) option" where
  "cache_value env s opts w p d =
     (case Option.bind (cell_key s opts (EncodeGeoHash env p) (EncodeGeoHash env d)) (\<lambda>k. read_field env w k (lo_time_slot opts)) of
        Some ed \<Rightarrow> Some (ed_distance ed, ed_duration ed)
      | None \<Rightarrow> if EncodeGeoHash env p = EncodeGeoHash env d then Some (0, 0) else None)"

lemma cache_value_cong: "read_field env w' = read_field env w \<Longrightarrow> cache_value env s opts w' = cache_value env s opts w"
  by (simp add: cache_value_def fun_eq_iff)

lemma store_Get_strict:
  assumes "keeps_hashes env" "lo_strict opts" "lo_time_slot opts \<noteq> ''''" "small_context opts" "redis_leaves env ok" "ok w"
  obtains g w' where "store_Get env s opts p d w = Some (Inr g, w')" "ok w' \<and> read_field env w' = read_field env w"
    "(if gr_hit g then Some (step_value (edgeToStep (gr_edge g))) else None) = cache_value env s opts w p d"
proof -
  let ?b = "EncodeGeoHash env p" and ?g = "EncodeGeoHash env d"
  obtain k where k: "cell_key s opts ?b ?g = Some k" using hashKey_total [OF assms(4)] by blast
  obtain vals w' where q: "rd_hmget (se_redis env) k [lo_time_slot opts] w = (Inr vals, w')" using keeps_hashesD(1) [OF assms(1)] by blast
  have "ok (snd (rd_hmget (se_redis env) k [lo_time_slot opts] w))" using assms(5,6) by (simp add: redis_leaves_def)
  then have same: "ok w' \<and> read_field env w' = read_field env w" using keeps_hashesD(2) [OF assms(1), of k "lo_time_slot opts" w] q by simp
  have field: "read_field env w k (lo_time_slot opts) = first_edge env vals" using q by (simp add: read_field_def)
  let ?r = "case first_edge env vals of
       Some e \<Rightarrow> \<lparr>gr_edge = e, gr_hit = True, gr_miss = False, gr_bgeo = ?b, gr_egeo = ?g\<rparr>
     | None \<Rightarrow> if ?b = ?g
         then \<lparr>gr_edge = zero_edge\<lparr>ed_origin := p, ed_destination := d, ed_wmt := lo_time_slot opts\<rparr>,
           gr_hit = True, gr_miss = False, gr_bgeo = ?b, gr_egeo = ?g\<rparr>
         else \<lparr>gr_edge = zero_edge, gr_hit = False, gr_miss = True, gr_bgeo = ?b, gr_egeo = ?g\<rparr>"
  have "store_Get env s opts p d w = Some (Inr ?r, w')"
    using assms(2,3)
    by (cases "lo_geo_wide (with_tenant opts) \<le> 0"; cases "first_edge env vals")
      (simp_all add: store_Get_def Let_def tryHash_def with_tenant_fields k q)
  moreover have "(if gr_hit ?r then Some (step_value (edgeToStep (gr_edge ?r))) else None) = cache_value env s opts w p d"
    using k by (simp add: cache_value_def field step_value_def edgeToStep_def zero_edge_def split: option.split)
  ultimately show thesis using same that by blast
qed

text \<open>A write of an edge of the slot for a pair of cells, with the numbers \<open>v\<close>.\<close>

definition writes :: "'w store_env \<Rightarrow> cache_store \<Rightarrow> lookup_opts \<Rightarrow> string \<Rightarrow> string \<Rightarrow> real \<times> real \<Rightarrow> 'w \<Rightarrow> 'w \<Rightarrow> bool" where
  "writes env s opts b g v w w' \<longleftrightarrow> (\<exists>k ed. cell_key s opts b g = Some k \<and> (ed_distance ed, ed_duration ed) = v \<and>
     read_field env w' = (\<lambda>k' f'. if k' = k \<and> f' = lo_time_slot opts then se_parse env (se_json env ed) else read_field env w k' f'))"

lemma stamped_numbers:
  "ed_distance (stamped env w ed) = ed_distance ed" "ed_duration (stamped env w ed) = ed_duration ed"
  "ed_wmt ed \<noteq> '''' \<Longrightarrow> ed_wmt (stamped env w ed) = ed_wmt ed"
  by (simp_all add: stamped_def Let_def)

lemma store_Put_writes:
  assumes "keeps_hashes env" "store_Put env s opts ed w = Some (x, w')" "ed_wmt ed = lo_time_slot opts" "lo_time_slot opts \<noteq> ''''"
    and "redis_leaves env ok" "ok w"
  shows "ok w' \<and> writes env s opts (EncodeGeoHash env (ed_origin ed)) (EncodeGeoHash env (ed_destination ed)) (ed_distance ed, ed_duration ed) w w'"
proof -
  let ?e = "stamped env w ed"
  obtain k g ps ttl z u where k: "cell_key s opts (EncodeGeoHash env (ed_origin ed)) (EncodeGeoHash env (ed_destination ed)) = Some k"
    and w': "w' = snd (rd_exec (se_redis env) [GeoAdd g ps, HSet k (ed_wmt ?e) (se_json env ?e), Expire k ttl, ZAdd z u k] w)"
    using assms(2) by (auto simp: store_Put_def Let_def with_tenant_fields stamped_fields bind_eq_Some_conv) (metis snd_conv)
  have slot: "ed_wmt ?e = lo_time_slot opts" using assms(3,4) stamped_numbers(3) [of ed env w] by simp
  have "ok w'" using assms(5,6) w' by (simp add: redis_leaves_def)
  moreover have "writes env s opts (EncodeGeoHash env (ed_origin ed)) (EncodeGeoHash env (ed_destination ed)) (ed_distance ed, ed_duration ed) w w'"
    unfolding writes_def
    by (rule exI [of _ k], rule exI [of _ ?e])
      (use k w' keeps_hashesD(3) [OF assms(1)] in \<open>simp add: stamped_numbers slot\<close>)
  ultimately show ?thesis by simp
qed

section \<open>The store as a memory for edges\<close>

locale live_cache =
  fixes e :: "('e, 'w) engine" and env :: "'w store_env" and s :: cache_store and opts :: lookup_opts and ok :: "'w \<Rightarrow> bool"
    and points :: "coord set" and good :: "real \<times> real \<Rightarrow> bool"
  assumes cache: "en_cache e = Some (env, s)"
    and archive: "\<And>ar. en_archive e = Some ar \<Longrightarrow> archive_fits env ok good opts ar"
    and async: "\<And>enqueue ed w w'. en_async e = Some enqueue \<Longrightarrow> ok w \<Longrightarrow> ed_wmt ed = lo_time_slot opts \<Longrightarrow> good (edge_numbers ed) \<Longrightarrow>
      enqueue opts ed w = Some w' \<Longrightarrow>
      ok w' \<and> read_field env w' = read_field env w"
    and live: "keeps_hashes env" "redis_leaves env ok"
    and parses: "\<And>ed. se_parse env (se_json env ed) \<noteq> None"
    and strict: "lo_strict opts" "lo_time_slot opts \<noteq> ''''" "small_context opts"
    and apart: "inj_on micro_point points"
begin

lemma cache_write_writes:
  assumes "cache_write e opts ed w = Some w'" "ed_wmt ed = lo_time_slot opts" "ok w"
  shows "ok w' \<and> writes env s opts (EncodeGeoHash env (ed_origin ed)) (EncodeGeoHash env (ed_destination ed)) (ed_distance ed, ed_duration ed) w w'"
proof -
  obtain x where "store_Put env s opts ed w = Some (x, w')" using assms(1) by (auto simp: cache_write_def cache)
  from store_Put_writes [OF live(1) this assms(2) strict(2) live(2) assms(3)] show ?thesis .
qed

lemma writes_cong:
  assumes "writes env s opts b g v w w'" "read_field env u = read_field env w" "read_field env u' = read_field env w'"
  shows "writes env s opts b g v u u'"
  using assms(1) unfolding writes_def assms(2,3) .

lemma persist_writes:
  assumes "persistEdge e opts (StepToEdge st (lo_time_slot opts) name) w = Some w'" "ok w" "good (step_value st)"
  shows "ok w'" "writes env s opts (EncodeGeoHash env (st_origin st)) (EncodeGeoHash env (st_destination st)) (step_value st) w w'"
proof -
  let ?ed = "StepToEdge st (lo_time_slot opts) name"
  have slot: "ed_wmt ?ed = lo_time_slot opts" and good: "good (edge_numbers ?ed)"
    using assms(3) by (simp_all add: StepToEdge_def step_value_def)
  obtain w1 where w1: "cache_write e opts ?ed w = Some w1" using assms(1) by (auto simp: persistEdge_def bind_eq_Some_conv)
  have 1: "ok w1" "writes env s opts (EncodeGeoHash env (st_origin st)) (EncodeGeoHash env (st_destination st)) (step_value st) w w1"
    using cache_write_writes [OF w1 slot assms(2)] by (simp_all add: StepToEdge_def step_value_def)
  have 2: "ok w' \<and> read_field env w' = read_field env w1"
  proof (cases "en_async e")
    case (Some enqueue)
    then show ?thesis using assms(1) w1 by (intro async [OF Some 1(1) slot good]) (simp add: persistEdge_def)
  next
    case None
    show ?thesis
    proof (cases "en_archive e")
      case (Some ar)
      then show ?thesis using assms(1) w1 None archive_fitsD(2) [OF archive [OF Some] 1(1) slot good] by (simp add: persistEdge_def)
    qed (use assms(1) w1 None 1(1) in \<open>simp add: persistEdge_def\<close>)
  qed
  show "ok w'" using 2 by simp
  show "writes env s opts (EncodeGeoHash env (st_origin st)) (EncodeGeoHash env (st_destination st)) (step_value st) w w'"
    by (rule writes_cong [OF 1(2) refl conjunct2 [OF 2]])
qed

lemma lookup_kept:
  assumes "ok w" "cache_value env s opts w p d = Some v"
  obtains st w' where "lookupEdge e opts p d w = Some (Inr (Some (st, False)), w')" "step_value st = v" "ok w'" "read_field env w' = read_field env w"
proof -
  obtain g w' where g: "store_Get env s opts p d w = Some (Inr g, w')" "ok w' \<and> read_field env w' = read_field env w"
    "(if gr_hit g then Some (step_value (edgeToStep (gr_edge g))) else None) = cache_value env s opts w p d"
    by (rule store_Get_strict [OF live(1) strict live(2) assms(1)])
  then have "gr_hit g" "step_value (edgeToStep (gr_edge g)) = v" using assms(2) by (simp_all split: if_splits)
  then show thesis using that g(1,2) by (simp add: lookupEdge_def cache_hit_def cache)
qed

lemma lookup_new:
  assumes ok: "ok w" and none: "cache_value env s opts w p d = None" and look: "lookupEdge e opts p d w = Some (q, w')"
  obtains "q = Inr None \<or> (\<exists>err. q = Inl err)" "ok w'" "read_field env w' = read_field env w"
  | st c where "q = Inr (Some (st, c))" "ok w'" "good (step_value st)" "writes env s opts (EncodeGeoHash env p) (EncodeGeoHash env d) (step_value st) w w'"
proof -
  obtain g w1 where g: "store_Get env s opts p d w = Some (Inr g, w1)" "ok w1 \<and> read_field env w1 = read_field env w"
    "(if gr_hit g then Some (step_value (edgeToStep (gr_edge g))) else None) = cache_value env s opts w p d"
    by (rule store_Get_strict [OF live(1) strict live(2) ok])
  then have miss: "cache_hit e opts p d w = Some (Inr None, w1)" using none by (simp add: cache_hit_def cache split: if_splits)
  show thesis
  proof (cases "en_archive e")
    case None
    then show ?thesis using look miss g(2) that(1) by (simp add: lookupEdge_def)
  next
    case (Some ar)
    note fits = archive_fitsD [OF archive [OF Some] conjunct1 [OF g(2)]]
    obtain a w2 where a: "ar_Get ar opts p d w1 = (a, w2)" by (metis surj_pair)
    have w2: "ok w2" "read_field env w2 = read_field env w" using fits(1) [OF a] g(2) by simp_all
    consider err where "a = Inl err" | "a = Inr None" | ed where "a = Inr (Some ed)" by (cases a) auto
    then show ?thesis
    proof cases
      case 3
      then obtain w3 where w3: "cache_write e opts ed w2 = Some w3" "q = Inr (Some (edgeToStep ed, True))" "w' = w3"
        using look miss Some a by (auto simp: lookupEdge_def bind_eq_Some_conv)
      have ed: "EncodeGeoHash env (ed_origin ed) = EncodeGeoHash env p" "EncodeGeoHash env (ed_destination ed) = EncodeGeoHash env d"
          "ed_wmt ed = lo_time_slot opts" "good (edge_numbers ed)" using fits(3) a 3 by blast+
      have "ok w3" "writes env s opts (EncodeGeoHash env p) (EncodeGeoHash env d) (step_value (edgeToStep ed)) w2 w3"
        using cache_write_writes [OF w3(1) ed(3) w2(1)] by (simp_all add: ed step_value_def edgeToStep_def)
      moreover have "good (step_value (edgeToStep ed))" using ed(4) by (simp add: step_value_def edgeToStep_def)
      ultimately show ?thesis using that(2) [OF w3(2)] w3(3) writes_cong [OF _ w2(2) [symmetric] refl] by simp
    qed (use look miss Some a w2 that(1) in \<open>auto simp: lookupEdge_def\<close>)
  qed
qed

lemma writes_held:
  assumes "writes env s opts (EncodeGeoHash env p) (EncodeGeoHash env d) v w w'"
  shows "cache_value env s opts w' p d \<noteq> None" "cache_value env s opts w a b \<noteq> None \<Longrightarrow> cache_value env s opts w' a b \<noteq> None"
proof -
  obtain k ed where k: "cell_key s opts (EncodeGeoHash env p) (EncodeGeoHash env d) = Some k"
      "read_field env w' = (\<lambda>k' f'. if k' = k \<and> f' = lo_time_slot opts then se_parse env (se_json env ed) else read_field env w k' f')"
    using assms by (auto simp: writes_def)
  obtain ed' where ed': "se_parse env (se_json env ed) = Some ed'" using parses [of ed] by blast
  show "cache_value env s opts w' p d \<noteq> None" by (simp add: cache_value_def k ed')
  show "cache_value env s opts w a b \<noteq> None \<Longrightarrow> cache_value env s opts w' a b \<noteq> None"
    by (auto simp: cache_value_def k ed' bind_eq_Some_conv split: option.splits if_splits)
qed

text \<open>Whatever is known of the values after a write, a lookup and a write satisfy the interface.\<close>

lemma lookup_rule:
  assumes "ok w" "lookupEdge e opts p d w = Some (q, w')"
    and "ok w' \<Longrightarrow> cache_value env s opts w' = cache_value env s opts w \<Longrightarrow>
      (case q of Inr (Some (st, c)) \<Rightarrow> cache_value env s opts w p d = Some (step_value st) | _ \<Rightarrow> True) \<Longrightarrow> R"
    and "\<And>st c. ok w' \<Longrightarrow> q = Inr (Some (st, c)) \<Longrightarrow> good (step_value st) \<Longrightarrow> cache_value env s opts w p d = None \<Longrightarrow>
      writes env s opts (EncodeGeoHash env p) (EncodeGeoHash env d) (step_value st) w w' \<Longrightarrow> R"
  shows R
proof (cases "cache_value env s opts w p d")
  case None
  show ?thesis
  proof (rule lookup_new [OF assms(1) None assms(2)])
    assume "q = Inr None \<or> (\<exists>err. q = Inl err)" "ok w'" "read_field env w' = read_field env w"
    then show ?thesis using cache_value_cong by (intro assms(3)) auto
  qed (rule assms(4) [OF _ _ _ None])
next
  case (Some v)
  show ?thesis
  proof (rule lookup_kept [OF assms(1) Some])
    fix st w'' assume "lookupEdge e opts p d w = Some (Inr (Some (st, False)), w'')" "step_value st = v" "ok w''"
      "read_field env w'' = read_field env w"
    then show ?thesis using assms(2) Some cache_value_cong [of env w' w s opts] by (intro assms(3)) auto
  qed
qed

end

sublocale live_cache \<subseteq> memory: edge_memory "lookupEdge e opts" "persistEdge e opts" ok
  "\<lambda>w p d. map_option (\<lambda>_. ()) (cache_value env s opts w p d)" "\<lambda>_. ()" points "lo_time_slot opts" good
proof
  fix p d w
  show "\<exists>st c w'. lookupEdge e opts p d w = Some (Inr (Some (st, c)), w')"
    if ok: "ok w" and some: "map_option (\<lambda>_. ()) (cache_value env s opts w p d) = Some v" for v :: unit
  proof -
    obtain x where x: "cache_value env s opts w p d = Some x" using some by blast
    show ?thesis by (rule lookup_kept [OF ok x]) blast
  qed
  show "map_option (\<lambda>_. ()) (cache_value env s opts w' p d) = Some ()"
    if "ok w" "lookupEdge e opts p d w = Some (Inr (Some (st, c)), w')" for st c w'
    by (rule lookup_rule [OF that]) (use writes_held(1) [of p d] in auto)
  show "keeps_edges ok (\<lambda>w p d. map_option (\<lambda>_. ()) (cache_value env s opts w p d)) points w w'"
    if look: "lookupEdge e opts p d w = Some (q, w')" for q w'
    unfolding keeps_edges_def
  proof
    assume ok: "ok w"
    show "ok w' \<and> (\<forall>p \<in> points. \<forall>d \<in> points. \<forall>v. map_option (\<lambda>_. ()) (cache_value env s opts w p d) = Some v \<longrightarrow>
        map_option (\<lambda>_. ()) (cache_value env s opts w' p d) = Some v)"
      by (rule lookup_rule [OF ok look]) (use writes_held(2) [of p d] in \<open>fastforce+\<close>)
  qed
next
  fix st name w w' assume ok: "ok w" and good: "good (step_value st)" and p: "persistEdge e opts (StepToEdge st (lo_time_slot opts) name) w = Some w'"
  show "ok w'" by (rule persist_writes(1) [OF p ok good])
  note held = writes_held [OF persist_writes(2) [OF p ok good]]
  show "map_option (\<lambda>_. ()) (cache_value env s opts w' (st_origin st) (st_destination st)) = Some ()" using held(1) by auto
  show "map_option (\<lambda>_. ()) (cache_value env s opts w' p d) = Some v"
    if "map_option (\<lambda>_. ()) (cache_value env s opts w p d) = Some v" for p d and v :: unit
    using held(2) [of p d] that by auto
qed (rule apart)

text \<open>When edges keep their numbers in JSON and the points of the request lie in different cells, the numbers are held, too.\<close>

locale exact_cache = live_cache e env s opts ok points good
  for e :: "('e, 'w) engine" and env s opts ok points good +
  assumes numbers: "good (edge_numbers ed) \<Longrightarrow> se_parse env (se_json env ed) = Some ed' \<Longrightarrow> edge_numbers ed' = edge_numbers ed"
    and cells: "inj_on (EncodeGeoHash env) points" "CHR '':'' \<notin> set (EncodeGeoHash env p)"
begin

lemma writes_exact:
  assumes "writes env s opts (EncodeGeoHash env p) (EncodeGeoHash env d) v w w'" "good v"
  shows "cache_value env s opts w' p d = Some v"
    and "p \<in> points \<Longrightarrow> d \<in> points \<Longrightarrow> a \<in> points \<Longrightarrow> b \<in> points \<Longrightarrow> (a, b) \<noteq> (p, d) \<Longrightarrow> cache_value env s opts w' a b = cache_value env s opts w a b"
proof -
  obtain k ed where k: "cell_key s opts (EncodeGeoHash env p) (EncodeGeoHash env d) = Some k" "(ed_distance ed, ed_duration ed) = v"
      and w': "read_field env w' = (\<lambda>k' f'. if k' = k \<and> f' = lo_time_slot opts then se_parse env (se_json env ed) else read_field env w k' f')"
    using assms(1) by (auto simp: writes_def)
  obtain ed' where ed': "se_parse env (se_json env ed) = Some ed'" using parses [of ed] by blast
  show "cache_value env s opts w' p d = Some v" using numbers [OF _ ed'] k(2) assms(2) by (simp add: cache_value_def k(1) w' ed')
  assume pts: "p \<in> points" "d \<in> points" "a \<in> points" "b \<in> points" "(a, b) \<noteq> (p, d)"
  have "cell_key s opts (EncodeGeoHash env a) (EncodeGeoHash env b) \<noteq> Some k"
  proof
    assume "cell_key s opts (EncodeGeoHash env a) (EncodeGeoHash env b) = Some k"
    from cell_key_inj [OF this k(1)] cells(2) have "EncodeGeoHash env a = EncodeGeoHash env p" "EncodeGeoHash env b = EncodeGeoHash env d"
      by auto
    then have "a = p" "b = d" using inj_onD [OF cells(1)] pts by blast+
    with pts(5) show False by simp
  qed
  then have "Option.bind (cell_key s opts (EncodeGeoHash env a) (EncodeGeoHash env b)) (\<lambda>k. read_field env w' k (lo_time_slot opts)) =
      Option.bind (cell_key s opts (EncodeGeoHash env a) (EncodeGeoHash env b)) (\<lambda>k. read_field env w k (lo_time_slot opts))"
    by (cases "cell_key s opts (EncodeGeoHash env a) (EncodeGeoHash env b)") (simp_all add: w')
  then show "cache_value env s opts w' a b = cache_value env s opts w a b" by (simp only: cache_value_def)
qed

end

sublocale exact_cache \<subseteq> exact: edge_memory "lookupEdge e opts" "persistEdge e opts" ok "cache_value env s opts" "\<lambda>v. v" points "lo_time_slot opts" good
proof
  fix p d w
  show "\<exists>st c w'. lookupEdge e opts p d w = Some (Inr (Some (st, c)), w')" if "ok w" "cache_value env s opts w p d = Some v" for v
    by (rule lookup_kept [OF that]) blast
  show "cache_value env s opts w' p d = Some (step_value st)"
    if "ok w" "lookupEdge e opts p d w = Some (Inr (Some (st, c)), w')" for st c w'
    by (rule lookup_rule [OF that]) (use writes_exact(1) [of p d] in auto)
  show "keeps_edges ok (cache_value env s opts) points w w'"
    if pts: "p \<in> points" "d \<in> points" and look: "lookupEdge e opts p d w = Some (q, w')" for q w'
    unfolding keeps_edges_def
  proof
    assume ok: "ok w"
    show "ok w' \<and> (\<forall>a \<in> points. \<forall>b \<in> points. \<forall>v. cache_value env s opts w a b = Some v \<longrightarrow> cache_value env s opts w' a b = Some v)"
    proof (rule lookup_rule [OF ok look])
      fix st c assume ok': "ok w'" and good: "good (step_value st)" and none: "cache_value env s opts w p d = None"
        and w: "writes env s opts (EncodeGeoHash env p) (EncodeGeoHash env d) (step_value st) w w'"
      have "cache_value env s opts w' a b = Some v" if ab: "a \<in> points" "b \<in> points" "cache_value env s opts w a b = Some v" for a b v
      proof -
        have "(a, b) \<noteq> (p, d)" using none ab(3) by auto
        from writes_exact(2) [OF w good pts ab(1,2) this] ab(3) show ?thesis by simp
      qed
      with ok' show ?thesis by blast
    qed simp
  qed
next
  fix st name w w' assume ok: "ok w" and good: "good (step_value st)" and p: "persistEdge e opts (StepToEdge st (lo_time_slot opts) name) w = Some w'"
  show "ok w'" by (rule persist_writes(1) [OF p ok good])
  note exact = writes_exact [OF persist_writes(2) [OF p ok good] good]
  show "cache_value env s opts w' (st_origin st) (st_destination st) = Some (step_value st)" by (rule exact(1))
  show "cache_value env s opts w' p d = Some v"
    if "st_origin st \<in> points" "st_destination st \<in> points" "p \<in> points" "d \<in> points" "(p, d) \<noteq> (st_origin st, st_destination st)"
      "cache_value env s opts w p d = Some v" for p d v
    using exact(2) [OF that(1-5)] that(6) by simp
qed (rule apart)

section \<open>Two runs\<close>

lemma leaves_cache_loses_nothing:
  assumes "leaves_cache env ok f"
  shows "loses_nothing ok (\<lambda>w p d. map_option g (cache_value env s opts w p d)) points f" "loses_nothing ok (cache_value env s opts) points f"
proof -
  have "cache_value env s opts (snd (f w)) = cache_value env s opts w" if "ok w" for w
    using assms that by (intro cache_value_cong) (simp add: leaves_cache_def)
  then show "loses_nothing ok (\<lambda>w p d. map_option g (cache_value env s opts w p d)) points f" "loses_nothing ok (cache_value env s opts) points f"
    using assms by (auto simp: loses_nothing_def keeps_edges_def leaves_cache_def)
qed

context live_cache
begin

lemma again:
  assumes prov: "route_provider (prov_Route prov)" "answers_in good prov" "\<And>rq. leaves_cache env ok (prov_Route prov rq)"
    and halt: "leaves_cache env ok (cx_done cx)" "leaves_cache env ok (cx_done cx')" "never_done cx'" and pts: "set wps \<subseteq> points"
    and run: "compute_phases cx e prov opts True req (lo_time_slot opts) wps (start_state (length wps) w) = Some (Go t)"
    and none: "es_fallback_edges (cp_stats t) = 0" and ok: "ok w"
  obtains t' h c where "compute_phases cx' e prov opts True req (lo_time_slot opts) wps (start_state (length wps) (cp_world t)) = Some (Go t')"
    "counts t' = (h, c, 0, 0, 0)"
proof -
  note loses = leaves_cache_loses_nothing(1) [OF prov(3)] leaves_cache_loses_nothing(1) [OF halt(1)] leaves_cache_loses_nothing(1) [OF halt(2)]
  note first = memory.phases_held [OF refl refl pts loses(1) prov(1,2) loses(2) run ok]
  show thesis
    by (rule memory.phases_warm [OF refl refl pts loses(1) prov(1,2) halt(3) loses(3) first(1) first(2) [OF none], where req = req])
      (assumption+, rule that, assumption+)
qed

end

context exact_cache
begin

lemma same_again:
  assumes prov: "route_provider (prov_Route prov)" "answers_in good prov" "\<And>rq. leaves_cache env ok (prov_Route prov rq)"
    and halt: "leaves_cache env ok (cx_done cx)" "leaves_cache env ok (cx_done cx')" "never_done cx'" and pts: "set wps \<subseteq> points"
    and run: "compute_phases cx e prov opts True req (lo_time_slot opts) wps (start_state (length wps) w) = Some (Go t)"
    and none: "es_fallback_edges (cp_stats t) = 0" and ok: "ok w"
  obtains t' h c where "compute_phases cx' e prov opts True req (lo_time_slot opts) wps (start_state (length wps) (cp_world t)) = Some (Go t')"
    "counts t' = (h, c, 0, 0, 0)"
    "\<forall>i < length wps. \<forall>j < length wps. i \<noteq> j \<longrightarrow>
      entry (cp_distances t') (cp_durations t') i j = entry (cp_distances t) (cp_durations t) i j"
proof -
  note loses = leaves_cache_loses_nothing(2) [OF prov(3)] leaves_cache_loses_nothing(2) [OF halt(1)] leaves_cache_loses_nothing(2) [OF halt(2)]
  note first = exact.phases_held [OF refl refl pts loses(1) prov(1,2) loses(2) run ok]
  show thesis
    by (rule exact.phases_warm [OF refl refl pts loses(1) prov(1,2) halt(3) loses(3) first(1) first(2) [OF none], where req = req])
      (assumption+, rule that, assumption+)
qed

end

section \<open>Properties\<close>

lemma Compute_unfold:
  assumes "\<not> (en_max_points e > 0 \<and> int (length (mr_points rq)) > en_max_points e)" "2 \<le> length (mr_points rq)"
    and "CoordConvertToGCJ02 (cx_f32 cx) (toSlice (mr_points rq)) (mr_coordinate rq) = Some wps"
    and "registry_Get (mr_provider rq) (en_registry e) = Some prov" "mr_time_slot rq \<noteq> ''''"
  shows "Compute cx e rq w = map_option finish (compute_phases cx e prov (compute_opts rq) (mr_strict rq) (compute_route_request rq)
    (mr_time_slot rq) wps (start_state (length wps) w))"
proof -
  have "\<not> length (mr_points rq) < 2" using assms(2) by simp
  then show ?thesis unfolding Compute_def if_not_P [OF assms(1)] using assms(3-5) by (simp add: Let_def)
qed

lemma Compute_guards:
  assumes "Compute cx e rq w = Some ((Some mx, err), w')"
  shows "\<not> (en_max_points e > 0 \<and> int (length (mr_points rq)) > en_max_points e)" "2 \<le> length (mr_points rq)"
    "registry_Get (mr_provider rq) (en_registry e) \<noteq> None"
  using assms by (auto simp: Compute_def bind_eq_Some_conv Let_def split: if_splits option.splits)

lemma finish_result: "finish r = ((Some mx, None), w') \<longleftrightarrow>
    (\<exists>t. r = Go t \<and> mx = packResult (cp_distances t) (cp_durations t) (cp_stats t) \<and> w' = cp_world t)"
  by (auto simp: finish_def split: flow.splits)

lemma packResult_fields [simp]:
  "mx_distances (packResult ds ts st) = ds" "mx_durations (packResult ds ts st) = ts"
  "es_fallback_edges (mx_stats (packResult ds ts st)) = es_fallback_edges st"
  "es_cache_misses (mx_stats (packResult ds ts st)) = es_cache_misses st"
  "es_provider_calls (mx_stats (packResult ds ts st)) = es_provider_calls st"
  "es_arc_cover_calls (mx_stats (packResult ds ts st)) = es_arc_cover_calls st"
  by (simp_all add: packResult_def Let_def)

lemma live_compute_opts:
  "lo_strict (compute_opts rq) = mr_strict rq" "lo_time_slot (compute_opts rq) = mr_time_slot rq"
  "small_context (compute_opts rq) \<longleftrightarrow> mr_method rq < 10 ^ 12 \<and> mr_strategy rq < 10 ^ 12"
  by (simp_all add: compute_opts_def small_context_def)

text \<open>Two runs of \<open>Compute\<close> are two runs of its phases, the second from the world that the first left.\<close>

lemma Compute_two_runs:
  assumes live: "live_cache e env s (compute_opts rq) ok (set wps) good"
    and prov: "registry_Get (mr_provider rq) (en_registry e) = Some prov"
    and wps: "CoordConvertToGCJ02 (cx_f32 cx) (toSlice (mr_points rq)) (mr_coordinate rq) = Some wps" "cx_f32 cx' = cx_f32 cx"
    and first: "Compute cx e rq w = Some ((Some mx, None), w1)"
  obtains t where
    "compute_phases cx e prov (compute_opts rq) True (compute_route_request rq) (lo_time_slot (compute_opts rq)) wps (start_state (length wps) w) = Some (Go t)"
    "mx = packResult (cp_distances t) (cp_durations t) (cp_stats t)" "w1 = cp_world t"
    "\<forall>t'. compute_phases cx' e prov (compute_opts rq) True (compute_route_request rq) (lo_time_slot (compute_opts rq)) wps
        (start_state (length wps) w1) = Some (Go t') \<longrightarrow>
      Compute cx' e rq w1 = Some ((Some (packResult (cp_distances t') (cp_durations t') (cp_stats t')), None), cp_world t')"
proof -
  have strict: "mr_strict rq" "mr_time_slot rq \<noteq> ''''" using live_cache.strict [OF live] by (simp_all add: live_compute_opts)
  note guards = Compute_guards [OF first]
  note phases = Compute_unfold [OF guards(1,2) _ prov strict(2)]
  obtain t where "compute_phases cx e prov (compute_opts rq) True (compute_route_request rq) (mr_time_slot rq) wps (start_state (length wps) w) = Some (Go t)"
    and "mx = packResult (cp_distances t) (cp_durations t) (cp_stats t)" "w1 = cp_world t"
    using first phases [OF wps(1), of w] strict(1) by (auto simp: finish_result)
  then show thesis
    using that [of t] phases [where cx = cx' and wps = wps and w = w1] wps strict(1) by (simp add: live_compute_opts finish_def)
qed

text \<open>Two answers to one request with the same entries off the diagonal are the same.\<close>

lemma square_eqI:
  assumes "square n D" "square n D'" "\<And>i j. i < n \<Longrightarrow> j < n \<Longrightarrow> D ! i ! j = D' ! i ! j"
  shows "D = D'"
proof (rule nth_equalityI)
  show "length D = length D'" using assms(1,2) by (simp add: square_def)
  fix i assume "i < length D"
  then have i: "i < n" using assms(1) by (simp add: square_def)
  show "D ! i = D' ! i"
    by (rule nth_equalityI) (use assms i square_row [OF assms(1) i] square_row [OF assms(2) i] in simp_all)
qed

lemma square_same:
  assumes first: "Compute cx e rq w = Some ((Some mx, None), w1)" and second: "Compute cx' e rq w1 = Some ((Some mx', None), w2)"
    and wps: "CoordConvertToGCJ02 (cx_f32 cx) (toSlice (mr_points rq)) (mr_coordinate rq) = Some wps" "cx_f32 cx' = cx_f32 cx"
    and same: "\<forall>i < length wps. \<forall>j < length wps. i \<noteq> j \<longrightarrow>
      entry (mx_distances mx') (mx_durations mx') i j = entry (mx_distances mx) (mx_durations mx) i j"
  shows "mx_distances mx' = mx_distances mx \<and> mx_durations mx' = mx_durations mx"
proof -
  have facts: "square (length wps) (mx_distances m) \<and> square (length wps) (mx_durations m) \<and>
      (\<forall>i < length wps. entry (mx_distances m) (mx_durations m) i i = (0, 0))"
    if run: "Compute c e rq v = Some ((Some m, None), v')" and f32: "cx_f32 c = cx_f32 cx" for c v m v'
    by (rule Compute_entries_answered [OF run]) (use wps(1) f32 in auto)
  note f1 = facts [OF first refl] and f2 = facts [OF second wps(2)]
  have "entry (mx_distances mx') (mx_durations mx') i j = entry (mx_distances mx) (mx_durations mx) i j"
    if "i < length wps" "j < length wps" for i j
    using same f1 f2 that by (cases "i = j") simp_all
  then show ?thesis
    using f1 f2 by (intro conjI square_eqI [of "length wps"]) (simp_all add: entry_def)
qed

text \<open>
  C5: a matrix is paid for once: a strict request in an explicit time slot that was answered with no
  fallback edge, whose points differ by micro-degrees, is answered again from the cache, without a
  miss, a planned route or a provider call, as long as Redis is live, keeps its hashes, and is
  written by the engine only; an archive, if there is one, answers with edges of the cells and the
  slot it was asked for. This is the acceptance of user story US-08 (\<open>docs/user-stories.md\<close>).
\<close>

theorem Compute_again:
  assumes "live_cache e env s (compute_opts rq) ok (set wps) good"
    and "registry_Get (mr_provider rq) (en_registry e) = Some prov" "route_provider (prov_Route prov)" "answers_in good prov"
    and "\<forall>r. leaves_cache env ok (prov_Route prov r)" "leaves_cache env ok (cx_done cx)" "leaves_cache env ok (cx_done cx')"
    and "CoordConvertToGCJ02 (cx_f32 cx) (toSlice (mr_points rq)) (mr_coordinate rq) = Some wps" "cx_f32 cx' = cx_f32 cx" "never_done cx'"
    and "Compute cx e rq w = Some ((Some mx, None), w1)" "es_fallback_edges (mx_stats mx) = 0" "ok w"
  shows "\<exists>mx' w2. Compute cx' e rq w1 = Some ((Some mx', None), w2) \<and> es_cache_misses (mx_stats mx') = 0 \<and>
    es_arc_cover_calls (mx_stats mx') = 0 \<and> es_provider_calls (mx_stats mx') = 0"
proof -
  obtain t where t:
    "compute_phases cx e prov (compute_opts rq) True (compute_route_request rq) (lo_time_slot (compute_opts rq)) wps (start_state (length wps) w) = Some (Go t)"
    "mx = packResult (cp_distances t) (cp_durations t) (cp_stats t)" "w1 = cp_world t"
    "\<forall>t'. compute_phases cx' e prov (compute_opts rq) True (compute_route_request rq) (lo_time_slot (compute_opts rq)) wps
        (start_state (length wps) w1) = Some (Go t') \<longrightarrow>
      Compute cx' e rq w1 = Some ((Some (packResult (cp_distances t') (cp_durations t') (cp_stats t')), None), cp_world t')"
    by (rule Compute_two_runs [OF assms(1,2,8,9,11)])
  have none: "es_fallback_edges (cp_stats t) = 0" using assms(12) t(2) by simp
  obtain t' h c where t': "compute_phases cx' e prov (compute_opts rq) True (compute_route_request rq) (lo_time_slot (compute_opts rq)) wps
      (start_state (length wps) (cp_world t)) = Some (Go t')" "counts t' = (h, c, 0, 0, 0)"
    by (rule live_cache.again [OF assms(1,3,4) _ assms(6,7,10) subset_refl t(1) none assms(13)]) (use assms(5) in blast)
  then show ?thesis using t(4) [rule_format, of t'] t(3) by (auto simp: counts_def)
qed

text \<open>
  C6: strict retries are deterministic: if moreover the points lie in different geohash cells and edges
  keep their numbers in JSON, the second answer has the same distances and durations as the first.
\<close>

theorem Compute_same_again:
  assumes "exact_cache e env s (compute_opts rq) ok (set wps) good"
    and "registry_Get (mr_provider rq) (en_registry e) = Some prov" "route_provider (prov_Route prov)" "answers_in good prov"
    and "\<forall>r. leaves_cache env ok (prov_Route prov r)" "leaves_cache env ok (cx_done cx)" "leaves_cache env ok (cx_done cx')"
    and "CoordConvertToGCJ02 (cx_f32 cx) (toSlice (mr_points rq)) (mr_coordinate rq) = Some wps" "cx_f32 cx' = cx_f32 cx" "never_done cx'"
    and "Compute cx e rq w = Some ((Some mx, None), w1)" "es_fallback_edges (mx_stats mx) = 0" "ok w"
  shows "\<exists>mx' w2. Compute cx' e rq w1 = Some ((Some mx', None), w2) \<and>
    mx_distances mx' = mx_distances mx \<and> mx_durations mx' = mx_durations mx \<and> es_provider_calls (mx_stats mx') = 0"
proof -
  have live: "live_cache e env s (compute_opts rq) ok (set wps) good" using assms(1) by (rule exact_cache.axioms)
  obtain t where t:
    "compute_phases cx e prov (compute_opts rq) True (compute_route_request rq) (lo_time_slot (compute_opts rq)) wps (start_state (length wps) w) = Some (Go t)"
    "mx = packResult (cp_distances t) (cp_durations t) (cp_stats t)" "w1 = cp_world t"
    "\<forall>t'. compute_phases cx' e prov (compute_opts rq) True (compute_route_request rq) (lo_time_slot (compute_opts rq)) wps
        (start_state (length wps) w1) = Some (Go t') \<longrightarrow>
      Compute cx' e rq w1 = Some ((Some (packResult (cp_distances t') (cp_durations t') (cp_stats t')), None), cp_world t')"
    by (rule Compute_two_runs [OF live assms(2,8,9,11)])
  have none: "es_fallback_edges (cp_stats t) = 0" using assms(12) t(2) by simp
  obtain t' h c where t': "compute_phases cx' e prov (compute_opts rq) True (compute_route_request rq) (lo_time_slot (compute_opts rq)) wps
      (start_state (length wps) (cp_world t)) = Some (Go t')" "counts t' = (h, c, 0, 0, 0)"
    and same: "\<forall>i < length wps. \<forall>j < length wps. i \<noteq> j \<longrightarrow> entry (cp_distances t') (cp_durations t') i j = entry (cp_distances t) (cp_durations t) i j"
    by (rule exact_cache.same_again [OF assms(1,3,4) _ assms(6,7,10) subset_refl t(1) none assms(13)]) (use assms(5) in blast)+
  let ?mx' = "packResult (cp_distances t') (cp_durations t') (cp_stats t')"
  have second: "Compute cx' e rq w1 = Some ((Some ?mx', None), cp_world t')" using t(4) [rule_format, of t'] t'(1) t(3) by simp
  have "mx_distances ?mx' = mx_distances mx \<and> mx_durations ?mx' = mx_durations mx"
    by (rule square_same [OF assms(11) second assms(8,9)]) (use same t(2) in simp)
  then show ?thesis using second t'(2) by (auto simp: counts_def)
qed

section \<open>A run\<close>

text \<open>
  The hashes of \<open>hash_redis\<close> and the memory archive beside the call counter of the tests' provider; two
  points in two cells, and a codec that keeps the numbers this provider answers.
\<close>

type_synonym retry_world = "(hash_world \<times> memory) stub_state"

definition retry_redis :: "retry_world redis" where
  "retry_redis = \<lparr>rd_ping = (\<lambda>w. (None, w)), rd_exec = (\<lambda>cmds (n, m, rows). (None, (n, fold hash_cmd cmds m, rows))),
     rd_hmget = (\<lambda>k fs (n, m, rows). (Inr (map (\<lambda>f. map_option RString (m k f)) fs), (n, m, rows))),
     rd_georadius = (\<lambda>_ _ _ _ w. (Inr [], w))\<rparr>"

definition retry_env :: "retry_world store_env" where
  "retry_env = \<lparr>se_redis = retry_redis, se_geohash = (\<lambda>x y n. if x = 0 then ''u'' else ''v''),
     se_json = (\<lambda>ed. if edge_numbers ed = (1000, 120) then ''{1}'' else ''{}''),
     se_parse = (\<lambda>s. Some (if s = ''{1}'' then zero_edge\<lparr>ed_distance := 1000, ed_duration := 120\<rparr> else zero_edge)),
     se_now = (\<lambda>_. \<lparr>ct_weekday = 4, ct_month = 7, ct_hour = 14\<rparr>), se_instant = (\<lambda>_. 7), se_unix = (\<lambda>_. 7)\<rparr>"

definition retry_archive :: "retry_world archive_ops" where
  "retry_archive = \<lparr>ar_Get = (\<lambda>opts p d (n, m, rows). (Inr (memory_Get (\<lambda>rows. rows) (EncodeGeoHash retry_env) (se_now retry_env (n, m, rows)) opts p d rows), (n, m, rows))),
     ar_Upsert = (\<lambda>opts ed (n, m, rows). (None, (n, m, memory_Upsert (EncodeGeoHash retry_env) (se_now retry_env (n, m, rows)) opts ed rows)))\<rparr>"

definition retry_provider :: "(unit, retry_world) provider" where
  "retry_provider = stub_interface (\<lambda>w. (None, w)) \<lparr>sp_name = '''', sp_delay = 0\<rparr>"

definition retry_engine :: "(unit, retry_world) engine" where
  "retry_engine = \<lparr>en_cache = Some (retry_env, NewStore '''' 0), en_archive = Some retry_archive, en_async = None, en_planner = Some (NewPlanner 3),
     en_registry = stub_NewRegistry retry_provider, en_arc_cover = None, en_max_points = 100\<rparr>"

definition retry_request :: matrix_request where
  "retry_request = \<lparr>mr_points = [(0, 0), (1, 1)], mr_coordinate = '''', mr_strategy = 0, mr_method = 0, mr_time_slot = ''50714'',
     mr_strict = True, mr_geo_wide = 0, mr_provider = '''', mr_speed = 0, mr_tenant = ''''\<rparr>"

definition retry_context :: "retry_world call_env" where
  "retry_context = \<lparr>cx_done = (\<lambda>w. (False, w)), cx_polls = (\<lambda>w k. False),
     cx_now = (\<lambda>w. \<lparr>ct_weekday = 1, ct_month = 1, ct_hour = 1\<rparr>), cx_sched = (\<lambda>n. [0..<n]), cx_f32 = (\<lambda>x. x)\<rparr>"


text \<open>A memory archive all of whose rows are stored under the key of their own cells and slot fits a strict request.\<close>

definition memory_fits :: "(coord \<Rightarrow> string) \<Rightarrow> (real \<times> real \<Rightarrow> bool) \<Rightarrow> memory \<Rightarrow> bool" where
  "memory_fits gh good rows \<longleftrightarrow> (\<forall>k ed. map_of rows k = Some ed \<longrightarrow> CHR ''|'' \<notin> set (ed_wmt ed) \<and> good (edge_numbers ed) \<and>
     (\<exists>t m st. k = memKey t m st (gh (ed_origin ed)) (gh (ed_destination ed)) (ed_wmt ed)))"

lemma memory_Upsert_fits:
  assumes "memory_fits gh good rows" "good (edge_numbers ed)" "ed_wmt ed \<noteq> ''''" "CHR ''|'' \<notin> set (ed_wmt ed)"
  shows "memory_fits gh good (memory_Upsert gh now opts ed rows)"
  using assms unfolding memory_fits_def by (auto simp: memory_Upsert_def update_conv' mem_slot_def Let_def)

lemma memory_Get_fits:
  assumes "memory_fits gh good rows" "memory_Get order gh now opts p d rows = Some ed"
    and "lo_strict opts" "lo_time_slot opts \<noteq> ''''" "CHR ''|'' \<notin> set (lo_time_slot opts)" "\<And>q. CHR ''|'' \<notin> set (gh q)"
  shows "gh (ed_origin ed) = gh p \<and> gh (ed_destination ed) = gh d \<and> ed_wmt ed = lo_time_slot opts \<and> good (edge_numbers ed)"
proof -
  have "map_of rows (memKey (tenant_name (lo_tenant opts)) (lo_method opts) (lo_strategy opts) (gh p) (gh d) (lo_time_slot opts)) = Some ed"
    using assms(2) mem.get_strict [OF assms(3), of order gh now p d rows] assms(4) by (simp add: mem_slot_def)
  then obtain t m st where row: "CHR ''|'' \<notin> set (ed_wmt ed)" "good (edge_numbers ed)"
    "memKey (tenant_name (lo_tenant opts)) (lo_method opts) (lo_strategy opts) (gh p) (gh d) (lo_time_slot opts) =
      memKey t m st (gh (ed_origin ed)) (gh (ed_destination ed)) (ed_wmt ed)"
    using assms(1) unfolding memory_fits_def by metis
  then show ?thesis using memKey_eq_iff [THEN iffD1, OF _ _ row(3)] assms(5,6) by simp
qed

definition retry_good :: "real \<times> real \<Rightarrow> bool" where "retry_good v \<longleftrightarrow> v \<in> {(1000, 120), (0, 0)}"

definition retry_ok :: "retry_world \<Rightarrow> bool" where
  "retry_ok = (\<lambda>(n, m, rows). memory_fits (EncodeGeoHash retry_env) retry_good rows)"

lemma retry_cell: "EncodeGeoHash retry_env p = (if snd p = 0 then ''u'' else ''v'')"
  by (simp add: EncodeGeoHash_def retry_env_def)

lemma retry_read: "read_field retry_env (n, m, rows) k f = Option.bind (m k f) (se_parse retry_env)"
  by (auto simp: read_field_def retry_env_def retry_redis_def split: option.split)

lemma retry_opts: "compute_opts retry_request = \<lparr>lo_tenant = '''', lo_method = 0, lo_strategy = 0, lo_time_slot = ''50714'',
    lo_strict = True, lo_geo_wide = 200, lo_edge_ttl = 0\<rparr>"
  by (simp add: compute_opts_def retry_request_def)

lemma retry_leaves:
  assumes "\<And>n m rows. memory_fits (EncodeGeoHash retry_env) retry_good rows \<Longrightarrow>
    \<exists>x n' rows'. f (n, m, rows) = (x, n', m, rows') \<and> memory_fits (EncodeGeoHash retry_env) retry_good rows'"
  shows "leaves_cache retry_env retry_ok f"
  unfolding leaves_cache_def
proof (intro allI impI)
  fix w :: retry_world assume ok: "retry_ok w"
  obtain n m rows where w: "w = (n, m, rows)" by (cases w)
  obtain x n' rows' where "f (n, m, rows) = (x, n', m, rows')" "memory_fits (EncodeGeoHash retry_env) retry_good rows'"
    using assms [of rows n m] ok by (auto simp: retry_ok_def w)
  then show "retry_ok (snd (f w)) \<and> read_field retry_env (snd (f w)) = read_field retry_env w"
    by (simp add: w retry_ok_def retry_read fun_eq_iff)
qed

lemma retry_keeps: "keeps_hashes retry_env" "redis_leaves retry_env retry_ok"
proof -
  have redis: "se_redis retry_env = retry_redis" by (simp add: retry_env_def)
  show "keeps_hashes retry_env"
    unfolding keeps_hashes_def redis by (auto simp: retry_redis_def retry_read fun_eq_iff)
  show "redis_leaves retry_env retry_ok"
    by (auto simp: redis_leaves_def retry_ok_def retry_env_def retry_redis_def)
qed

lemma retry_archive_fits: "archive_fits retry_env retry_ok retry_good (compute_opts retry_request) retry_archive"
  unfolding archive_fits_def
proof (intro conjI allI impI)
  let ?opts = "compute_opts retry_request"
  have opts: "lo_strict ?opts" "lo_time_slot ?opts = ''50714''" by (simp_all add: retry_opts)
  fix p d
  show "leaves_cache retry_env retry_ok (ar_Get retry_archive ?opts p d)"
    by (rule retry_leaves) (simp add: retry_archive_def)
  fix ed assume ed: "ed_wmt ed = lo_time_slot ?opts" "retry_good (edge_numbers ed)"
  show "leaves_cache retry_env retry_ok (ar_Upsert retry_archive ?opts ed)"
    by (rule retry_leaves) (use ed opts in \<open>simp add: retry_archive_def memory_Upsert_fits\<close>)
next
  fix p d w ed w'
  assume ok: "retry_ok w" and get: "ar_Get retry_archive (compute_opts retry_request) p d w = (Inr (Some ed), w')"
  obtain n m rows where w: "w = (n, m, rows)" by (cases w)
  have bar: "CHR ''|'' \<notin> set (EncodeGeoHash retry_env q)" for q by (simp add: retry_cell)
  have "EncodeGeoHash retry_env (ed_origin ed) = EncodeGeoHash retry_env p \<and>
      EncodeGeoHash retry_env (ed_destination ed) = EncodeGeoHash retry_env d \<and>
      ed_wmt ed = lo_time_slot (compute_opts retry_request) \<and> retry_good (edge_numbers ed)"
    by (rule memory_Get_fits [where rows = rows and order = "\<lambda>rows. rows" and opts = "compute_opts retry_request" and now = "se_now retry_env (n, m, rows)"]) (use ok get in \<open>auto simp: retry_ok_def retry_archive_def w retry_opts bar\<close>)
  then show "EncodeGeoHash retry_env (ed_origin ed) = EncodeGeoHash retry_env p"
    "EncodeGeoHash retry_env (ed_destination ed) = EncodeGeoHash retry_env d"
    "ed_wmt ed = lo_time_slot (compute_opts retry_request)" "retry_good (edge_numbers ed)" by simp_all
qed

lemma retry_points: "micro_point (0, 0) \<noteq> micro_point (1, 1)" "pairKey (0, 0) (1, 1) \<noteq> pairKey (1, 1) (0, 0)"
  by (simp_all add: pairKey_eq_iff micro_point_def micro_def round_even_def Let_def)

interpretation retry: exact_cache retry_engine retry_env "NewStore '''' 0" "compute_opts retry_request" retry_ok "set [(0, 0), (1, 1)]" retry_good
proof
  show "en_cache retry_engine = Some (retry_env, NewStore '''' 0)" by (simp add: retry_engine_def)
  show "archive_fits retry_env retry_ok retry_good (compute_opts retry_request) ar" if "en_archive retry_engine = Some ar" for ar
    using that retry_archive_fits by (simp add: retry_engine_def)
  show "retry_ok w' \<and> read_field retry_env w' = read_field retry_env w" if "en_async retry_engine = Some enqueue"
    for enqueue :: "lookup_opts \<Rightarrow> edge \<Rightarrow> retry_world \<Rightarrow> retry_world option" and w w'
    using that by (simp add: retry_engine_def)
  show "small_context (compute_opts retry_request)" by (simp add: retry_opts small_context_def)
  show "inj_on micro_point (set [(0, 0), (1, 1)])" "inj_on (EncodeGeoHash retry_env) (set [(0, 0), (1, 1)])"
    using retry_points(1) by (simp_all add: retry_cell)
  show "edge_numbers ed' = edge_numbers ed"
    if "retry_good (edge_numbers ed)" "se_parse retry_env (se_json retry_env ed) = Some ed'" for ed ed'
    using that by (auto simp: retry_good_def retry_env_def zero_edge_def split: if_splits)
  show "se_parse retry_env (se_json retry_env ed) \<noteq> None" for ed by (simp add: retry_env_def)
qed (simp_all add: retry_keeps retry_opts retry_cell)

lemma retry_waypoints:
  "CoordConvertToGCJ02 (cx_f32 retry_context) (toSlice (mr_points retry_request)) (mr_coordinate retry_request) = Some [(0, 0), (1, 1)]"
  by (simp add: CoordConvertToGCJ02_def CoordListCast_points toSlice_def retry_request_def ToLower_def)

lemma retry_fields:
  "registry_Get (mr_provider retry_request) (en_registry retry_engine) = Some retry_provider"
  "route_provider (prov_Route retry_provider)" "never_done retry_context" "answers_in retry_good retry_provider"
  "leaves_cache retry_env retry_ok (prov_Route retry_provider r)" "leaves_cache retry_env retry_ok (cx_done retry_context)"
proof -
  show "registry_Get (mr_provider retry_request) (en_registry retry_engine) = Some retry_provider"
    using stub_registry [of "\<lparr>sp_name = '''', sp_delay = 0\<rparr>" "\<lambda>w :: hash_world \<times> memory. (None :: unit option, w)"]
    by (simp add: retry_request_def retry_engine_def retry_provider_def)
  show "route_provider (prov_Route retry_provider)"
    using stub.route_provider_axioms by (simp add: retry_provider_def stub_interface_def)
  show "never_done retry_context" by (simp add: never_done_def retry_context_def)
  show "answers_in retry_good retry_provider"
    by (auto simp: answers_in_def retry_provider_def stub_interface_def stub_Route_def routeResult_totals stub_steps_def step_value_def retry_good_def)
  show "leaves_cache retry_env retry_ok (prov_Route retry_provider r)"
    by (rule retry_leaves) (simp add: retry_provider_def stub_interface_def stub_Route_def)
  show "leaves_cache retry_env retry_ok (cx_done retry_context)"
    by (rule retry_leaves) (auto simp: retry_context_def)
qed

lemma retry_miss:
  assumes "p \<noteq> d" "{p, d} = {(0, 0), (1, 1)}"
  shows "lookupEdge retry_engine (compute_opts retry_request) p d (n, \<lambda>_ _. None, []) = Some (Inr None, (n, \<lambda>_ _. None, []))"
proof -
  let ?opts = "compute_opts retry_request"
  have cells: "EncodeGeoHash retry_env p \<noteq> EncodeGeoHash retry_env d"
    using assms by (auto simp: doubleton_eq_iff retry_cell)
  obtain k where k: "cell_key (NewStore '''' 0) ?opts (EncodeGeoHash retry_env p) (EncodeGeoHash retry_env d) = Some k"
    using hashKey_total [OF retry.strict(3)] by blast
  have get: "rd_hmget (se_redis retry_env) k fs (n, \<lambda>_ _. None, []) = (Inr (map (\<lambda>_. None) fs), n, \<lambda>_ _. None, [])" for fs
    by (simp add: retry_env_def retry_redis_def)
  have "cache_hit retry_engine ?opts p d (n, \<lambda>_ _. None, []) = Some (Inr None, n, \<lambda>_ _. None, [])"
    using k cells retry.strict
    by (simp add: cache_hit_def retry.cache store_Get_def Let_def tryHash_def with_tenant_fields get)
  moreover have "ar_Get retry_archive ?opts p d (n, \<lambda>_ _. None, []) = (Inr None, n, \<lambda>_ _. None, [])"
    by (simp add: retry_archive_def memory_Get_def retry_opts List.map_filter_simps Let_def)
  ultimately show ?thesis by (simp add: lookupEdge_def retry_engine_def)
qed

lemma retry_persist:
  obtains w' where "persistEdge retry_engine (compute_opts retry_request) ed w = Some w'"
  using persistEdge_total [of retry_engine "compute_opts retry_request" ed w] retry.strict(3)
  by (auto simp: engine_safe_def retry_engine_def)

lemma retry_walk:
  "stub_steps [(0, 0), (1, 1), (0, 0)] =
    [\<lparr>st_origin = (0, 0), st_destination = (1, 1), st_distance = 1000, st_duration = 120, st_polyline = '''', st_source = SourceProvider\<rparr>,
     \<lparr>st_origin = (1, 1), st_destination = (0, 0), st_distance = 1000, st_duration = 120, st_polyline = '''', st_source = SourceProvider\<rparr>]"
  by (simp add: stub_steps_def)

text \<open>The cold run: two misses, one walk of two legs, one call.\<close>

abbreviation retry_start :: retry_world where "retry_start \<equiv> (0, \<lambda>_ _. None, [])"

lemma retry_probes:
  obtains s where "run_loop (probe_pair retry_context retry_engine (compute_opts retry_request) True [(0, 0), (1, 1)]) (index_pairs 2)
      (start_state 2 retry_start) = Some (Go s)"
    "cp_miss s = [Arc 0 0 1, Arc 0 1 0]" "es_fallback_edges (cp_stats s) = 0"
proof -
  have pairs: "index_pairs 2 = [(0, 0), (0, 1), (1, 0), (1, 1)]" by code_simp
  have go: "cx_done retry_context w = (False, w)" for w by (simp add: retry_context_def)
  have miss: "lookupEdge retry_engine (compute_opts retry_request) (0, 0) (1, 1) retry_start = Some (Inr None, retry_start)"
    "lookupEdge retry_engine (compute_opts retry_request) (1, 1) (0, 0) retry_start = Some (Inr None, retry_start)"
    by (rule retry_miss; auto)+
  have "\<exists>s. run_loop (probe_pair retry_context retry_engine (compute_opts retry_request) True [(0, 0), (1, 1)]) (index_pairs 2)
      (start_state 2 retry_start) = Some (Go s) \<and> cp_miss s = [Arc 0 0 1, Arc 0 1 0] \<and> es_fallback_edges (cp_stats s) = 0"
    by (simp add: pairs probe_pair_def go miss Let_def start_state_def note_miss_def)
  then show thesis using that by blast
qed

lemma retry_walks:
  assumes "cp_miss s = [Arc 0 0 1, Arc 0 1 0]" "es_fallback_edges (cp_stats s) = 0"
  obtains t where "walk_misses retry_context retry_engine retry_provider (compute_opts retry_request) (compute_route_request retry_request) ''50714''
      [(0, 0), (1, 1)] s = Some (Go t)"
    "es_fallback_edges (cp_stats t) = 0" "dom (cp_segments t) \<supseteq> {pairKey (0, 0) (1, 1), pairKey (1, 1) (0, 0)}"
proof -
  obtain n m where w: "cp_world s = (n, m)" by (cases "cp_world s")
  have go: "cx_done retry_context w = (False, w)" for w by (simp add: retry_context_def)
  let ?rt = "\<lparr>legs = [\<lparr>leg_from = 0, leg_to = 1, leg_kind = LegRequired, leg_edge = 0\<rparr>,
     \<lparr>leg_from = 1, leg_to = 0, leg_kind = LegRequired, leg_edge = 1\<rparr>]\<rparr>"
  have "map_option routes (Plan (NewDensePlanner DefaultConfig) (\<lambda>k. False) 2 [Arc 0 0 1, Arc 0 1 0] 2) = Some [?rt]" by code_simp
  then obtain pl where pl: "Plan (NewDensePlanner DefaultConfig) (\<lambda>k. False) 2 [Arc 0 0 1, Arc 0 1 0] 2 = Some pl" "routes pl = [?rt]" by auto
  have plan: "Plan (NewDensePlanner DefaultConfig) (\<lambda>k. False) (length [(0, 0), (1, 1) :: coord]) [Arc 0 0 1, Arc 0 1 0] 2 = Some pl"
    using pl(1) by (simp add: numeral_2_eq_2)
  have engine: "engine_arcCover retry_engine = dense_cover (NewDensePlanner DefaultConfig)" "engine_maxLegs retry_engine = 2"
      "en_planner retry_engine = Some (NewPlanner 3)" "cx_polls retry_context w = (\<lambda>k. False)" for w
    by (simp_all add: retry_engine_def engine_arcCover_def engine_maxLegs_def NewPlanner_def retry_context_def)
  have ws: "routeWaypoints [(0, 0), (1, 1)] ?rt = Some [(0, 0), (1, 1), (0, 0)]"
    by (simp add: routeWaypoints_def slice_get_def)
  have call: "RouteWaypoints (cx_sched retry_context) (prov_Route retry_provider) (cx_done retry_context) (NewPlanner 3) req [(0, 0), (1, 1), (0, 0)] (n, m) =
      ((Inr (stub_steps [(0, 0), (1, 1), (0, 0)]), 1), (n + 1, m))" for req
    by (subst RouteWaypoints_single) (simp_all add: schedule_ok_def retry_context_def NewPlanner_def retry_provider_def
      stub_interface_def stub_Route_def routeResult_totals)
  have rec: "\<exists>t. record_step retry_engine retry_provider (compute_opts retry_request) slot st u = Some t \<and>
      es_fallback_edges (cp_stats t) = es_fallback_edges (cp_stats u)"
    if "st_source st = SourceProvider" for slot st u
  proof -
    obtain w' where "persistEdge retry_engine (compute_opts retry_request) (StepToEdge st slot (prov_Name retry_provider)) (cp_world u) = Some w'"
      by (rule retry_persist)
    then show ?thesis using that by (simp add: record_step_def Let_def)
  qed
  let ?s = "add_calls 1 (s\<lparr>cp_stats := (cp_stats s)\<lparr>es_arc_cover_calls := 1\<rparr>, cp_world := (n + 1, m)\<rparr>)"
  obtain s1 where s1: "record_step retry_engine retry_provider (compute_opts retry_request) ''50714''
      (stub_steps [(0, 0), (1, 1), (0, 0)] ! 0) ?s = Some s1" "es_fallback_edges (cp_stats s1) = es_fallback_edges (cp_stats ?s)"
    using rec [of "stub_steps [(0, 0), (1, 1), (0, 0)] ! 0"] by (auto simp: retry_walk)
  obtain t where t: "record_step retry_engine retry_provider (compute_opts retry_request) ''50714''
      (stub_steps [(0, 0), (1, 1), (0, 0)] ! 1) s1 = Some t" "es_fallback_edges (cp_stats t) = es_fallback_edges (cp_stats s1)"
    using rec [of "stub_steps [(0, 0), (1, 1), (0, 0)] ! 1"] by (auto simp: retry_walk)
  have fold: "fold_opt (record_step retry_engine retry_provider (compute_opts retry_request) ''50714'') (stub_steps [(0, 0), (1, 1), (0, 0)]) ?s = Some t"
    using s1(1) t(1) by (simp add: retry_walk)
  show thesis
  proof (rule that)
    show "walk_misses retry_context retry_engine retry_provider (compute_opts retry_request) (compute_route_request retry_request) ''50714''
        [(0, 0), (1, 1)] s = Some (Go t)"
      using assms fold by (simp add: walk_misses_def engine dense_cover_def plan [simplified] pl(2) go walk_route_def ws w call Let_def)
    show "es_fallback_edges (cp_stats t) = 0" using s1(2) t(2) assms(2) by (simp add: add_calls_def)
    show "dom (cp_segments t) \<supseteq> {pairKey (0, 0) (1, 1), pairKey (1, 1) (0, 0)}"
      using record_step_keys [OF s1(1)] record_step_keys [OF t(1)] by (auto simp: retry_walk)
  qed
qed

lemma retry_cold:
  obtains mx w1 where "Compute retry_context retry_engine retry_request retry_start = Some ((Some mx, None), w1)"
    "es_fallback_edges (mx_stats mx) = 0"
proof -
  obtain s where s: "run_loop (probe_pair retry_context retry_engine (compute_opts retry_request) True [(0, 0), (1, 1)]) (index_pairs 2)
      (start_state 2 retry_start) = Some (Go s)"
    "cp_miss s = [Arc 0 0 1, Arc 0 1 0]" "es_fallback_edges (cp_stats s) = 0"
    by (rule retry_probes)
  obtain t where t: "walk_misses retry_context retry_engine retry_provider (compute_opts retry_request) (compute_route_request retry_request) ''50714''
      [(0, 0), (1, 1)] s = Some (Go t)"
    "es_fallback_edges (cp_stats t) = 0" "dom (cp_segments t) \<supseteq> {pairKey (0, 0) (1, 1), pairKey (1, 1) (0, 0)}"
    by (rule retry_walks [OF s(2,3)])
  have known: "pairKey ([(0, 0), (1, 1)] ! i) ([(0, 0), (1, 1)] ! j) \<in> dom (cp_segments t)"
    if "i < length [(0, 0), (1, 1) :: coord]" "j < length [(0, 0), (1, 1) :: coord]" "i \<noteq> j" for i j
    using that t(3) by (auto simp: less_Suc_eq)
  from fill_known [OF retry_fields(3) known] obtain u where
    u: "run_loop (fill_entry retry_context retry_engine retry_provider (compute_opts retry_request) True (compute_route_request retry_request)
      ''50714'' [(0, 0), (1, 1)]) (index_pairs (length [(0, 0), (1, 1) :: coord])) t = Some (Go u)" "cp_stats u = cp_stats t" by blast
  have two: "length [(0, 0), (1, 1) :: coord] = 2" by simp
  have "compute_phases retry_context retry_engine retry_provider (compute_opts retry_request) True (compute_route_request retry_request)
      ''50714'' [(0, 0), (1, 1)] (start_state 2 retry_start) = Some (Go u)"
    using u(1) unfolding compute_phases_def two by (simp add: s(1) t(1))
  moreover have "mr_time_slot retry_request = ''50714''" "mr_strict retry_request"
      "\<not> (en_max_points retry_engine > 0 \<and> int (length (mr_points retry_request)) > en_max_points retry_engine)"
      "2 \<le> length (mr_points retry_request)"
    by (simp_all add: retry_request_def retry_engine_def)
  ultimately have "Compute retry_context retry_engine retry_request retry_start = Some (finish (Go u))"
    using Compute_unfold [OF _ _ retry_waypoints retry_fields(1), where w = retry_start] unfolding two by simp
  then show thesis using that u(2) t(2) by (simp add: finish_def)
qed

lemma retry_start_ok: "retry_ok retry_start"
  by (simp add: retry_ok_def memory_fits_def)

theorem Compute_again_witness:
  "\<exists>mx w1 mx' w2. Compute retry_context retry_engine retry_request retry_start = Some ((Some mx, None), w1) \<and>
     Compute retry_context retry_engine retry_request w1 = Some ((Some mx', None), w2) \<and> es_provider_calls (mx_stats mx') = 0"
proof (rule retry_cold)
  fix mx w1 assume run: "Compute retry_context retry_engine retry_request retry_start = Some ((Some mx, None), w1)" "es_fallback_edges (mx_stats mx) = 0"
  from Compute_again [OF retry.live_cache_axioms retry_fields(1,2,4) allI [OF retry_fields(5)] retry_fields(6,6)
      retry_waypoints refl retry_fields(3) run retry_start_ok] run(1)
  show ?thesis by blast
qed

theorem Compute_same_again_witness:
  "\<exists>mx w1 mx' w2. Compute retry_context retry_engine retry_request retry_start = Some ((Some mx, None), w1) \<and>
     Compute retry_context retry_engine retry_request w1 = Some ((Some mx', None), w2) \<and>
     mx_distances mx' = mx_distances mx \<and> mx_durations mx' = mx_durations mx"
proof (rule retry_cold)
  fix mx w1 assume run: "Compute retry_context retry_engine retry_request retry_start = Some ((Some mx, None), w1)" "es_fallback_edges (mx_stats mx) = 0"
  from Compute_same_again [OF retry.exact_cache_axioms retry_fields(1,2,4) allI [OF retry_fields(5)] retry_fields(6,6)
      retry_waypoints refl retry_fields(3) run retry_start_ok] run(1)
  show ?thesis by blast
qed

end
