(* ===== verification/Route_Text.thy ===== *)
theory Route_Text
  imports Geo_Route
begin

text \<open>
  The printing helpers of \<open>internal/geo/route.go\<close>. The value that \<open>reflect\<close> inspects is one of three
  kinds (\<open>go_value\<close>): a slice or array with its printed elements, an instant, or anything else with its
  printed form. How \<open>fmt\<close> prints a \<open>float32\<close> and \<open>time\<close> formats an instant are parameters.
\<close>

section \<open>The code\<close>

datatype 't go_value = Elements "string list" | Instant 't | Printed string

fun join_with :: "string \<Rightarrow> string list \<Rightarrow> string" where
  "join_with sep [] = ''''"
| "join_with sep [x] = x"
| "join_with sep (x # y # zs) = x @ sep @ join_with sep (y # zs)"

text \<open>\<open>fmt.Sprint\<close> of a slice, \<open>strings.Replace\<close> of every space, \<open>strings.Trim\<close> with a cutset.\<close>

definition Sprint_elements :: "string list \<Rightarrow> string" where
  "Sprint_elements xs = ''['' @ join_with '' '' xs @ '']''"

definition replace_spaces :: "string \<Rightarrow> string \<Rightarrow> string" where
  "replace_spaces delimiter s = concat (map (\<lambda>c. if c = CHR '' '' then delimiter else [c]) s)"

definition trim_cutset :: "char list \<Rightarrow> string \<Rightarrow> string" where
  "trim_cutset cutset s = rev (dropWhile (\<lambda>c. c \<in> set cutset) (rev (dropWhile (\<lambda>c. c \<in> set cutset) s)))"

definition ParameterToString :: "('t \<Rightarrow> string) \<Rightarrow> 't go_value \<Rightarrow> string \<Rightarrow> string" where
  "ParameterToString rfc3339 obj delimiter =
     (case obj of
        Elements xs \<Rightarrow> trim_cutset ''[]'' (replace_spaces delimiter (Sprint_elements xs))
      | Instant t \<Rightarrow> rfc3339 t
      | Printed s \<Rightarrow> s)"

definition FloatEEToPolyline :: "('t \<Rightarrow> string) \<Rightarrow> (real \<Rightarrow> string) \<Rightarrow> (real \<times> real) list \<Rightarrow> string \<Rightarrow> string" where
  "FloatEEToPolyline rfc3339 print floatee delimiter =
     (let points = map (\<lambda>(x, y). ParameterToString rfc3339 (Elements [print x, print y]) '','') floatee
      in ParameterToString rfc3339 (Elements points) delimiter)"

section \<open>What is printed\<close>

definition plain :: "string \<Rightarrow> bool" where
  "plain s \<longleftrightarrow> s \<noteq> '''' \<and> set s \<inter> {CHR '' '', CHR ''['', CHR '']''} = {}"

lemma plain_append: "plain a \<Longrightarrow> set s \<inter> {CHR '' '', CHR ''['', CHR '']''} = {} \<Longrightarrow> plain (a @ s)"
  by (auto simp: plain_def)

lemma replace_append [simp]: "replace_spaces d (s @ t) = replace_spaces d s @ replace_spaces d t"
  by (simp add: replace_spaces_def)

lemma replace_Cons [simp]: "replace_spaces d (c # s) = (if c = CHR '' '' then d else [c]) @ replace_spaces d s" "replace_spaces d [] = []"
  by (simp_all add: replace_spaces_def)

lemma replace_plain: "plain s \<Longrightarrow> replace_spaces d s = s"
proof -
  have "CHR '' '' \<notin> set s \<Longrightarrow> replace_spaces d s = s" by (induction s) auto
  then show "plain s \<Longrightarrow> replace_spaces d s = s" by (simp add: plain_def)
qed

lemma join_replace: "\<forall>x \<in> set xs. plain x \<Longrightarrow> replace_spaces d (join_with '' '' xs) = join_with d xs"
  by (induction xs rule: join_with.induct [of _ "d"])
    (simp_all add: replace_plain)

lemma join_ends:
  "xs \<noteq> [] \<Longrightarrow> \<forall>x \<in> set xs. plain x \<Longrightarrow> join_with d xs \<noteq> '''' \<and> hd (join_with d xs) = hd (hd xs) \<and> last (join_with d xs) = last (last xs)"
  by (induction d xs rule: join_with.induct) (auto simp: plain_def)

lemma trim_brackets:
  assumes "s \<noteq> ''''" "hd s \<notin> {CHR ''['', CHR '']''}" "last s \<notin> {CHR ''['', CHR '']''}"
  shows "trim_cutset ''[]'' (''['' @ s @ '']'') = s"
proof -
  have "dropWhile (\<lambda>c. c \<in> set ''[]'') (''['' @ s @ '']'') = s @ '']''"
    using assms(1,2) by (cases s) auto
  moreover have "dropWhile (\<lambda>c. c \<in> set ''[]'') (rev (s @ '']'')) = rev s"
    using assms(1,3) by (cases s rule: rev_cases) auto
  ultimately show ?thesis by (simp only: trim_cutset_def rev_rev_ident)
qed

lemma ParameterToString_elements:
  assumes "\<forall>x \<in> set xs. plain x"
  shows "ParameterToString rfc3339 (Elements xs) d = join_with d xs"
proof (cases "xs = []")
  case True
  then show ?thesis by (simp add: ParameterToString_def Sprint_elements_def replace_spaces_def trim_cutset_def)
next
  case False
  then have "plain (hd xs)" "plain (last xs)" using assms by simp_all
  then have ends: "hd (join_with d xs) \<notin> {CHR ''['', CHR '']''}" "last (join_with d xs) \<notin> {CHR ''['', CHR '']''}"
    using join_ends [OF False assms, of d] by (auto simp: plain_def dest: hd_in_set last_in_set)
  have "replace_spaces d (Sprint_elements xs) = ''['' @ join_with d xs @ '']''"
    unfolding Sprint_elements_def replace_append join_replace [OF assms] by (simp add: replace_spaces_def)
  then show ?thesis using trim_brackets [OF _ ends] join_ends [OF False assms, of d] by (simp add: ParameterToString_def)
qed

text \<open>The waypoints of a request to Amap: pairs joined by commas, joined by the delimiter.\<close>

lemma FloatEEToPolyline_joins:
  assumes "\<And>x. plain (print x)"
  shows "FloatEEToPolyline rfc3339 print pts d = join_with d (map (\<lambda>(x, y). print x @ '','' @ print y) pts)"
proof -
  have point: "ParameterToString rfc3339 (Elements [print x, print y]) '','' = print x @ '','' @ print y" for x y
    using ParameterToString_elements [of "[print x, print y]" rfc3339 "'',''"] assms by simp
  have "plain (print x @ '','' @ print y)" for x y
    using plain_append [OF assms] assms [of y] by (auto simp: plain_def)
  then show ?thesis
    unfolding FloatEEToPolyline_def Let_def point by (intro ParameterToString_elements) auto
qed

end
