(* ===== verification/Key_Simulation.thy ===== *)
theory Key_Simulation
  imports Route_Types Key_Pool_State Key_Attempts
begin

text \<open>
  \<open>scripts/simulate_key_pool.go\<close>: simulated traffic against a key pool on a virtual clock. The
  random numbers of \<open>rand.Float64\<close> come from a state of type \<open>'r\<close> (\<open>rnd\<close>, and \<open>seed\<close> for
  \<open>rand.Seed\<close>), the answers of the live probe from a parameter. A simulated request is one step:
  all workers run the same closure, so their order does not matter; overlapping requests are not
  modelled. Printing is left out, the printed numbers are the results of the definitions.
  The lemmas say that every request ends as a success or a fallback, that the pool stays
  consistent, and that a dead key never gets a success.
\<close>

section \<open>Parameters of the simulation\<close>

definition keyGoodPrefix :: string where "keyGoodPrefix = ''9e12a1bc''"
definition keyDead1 :: string where "keyDead1 = ''c70e3ecb''"
definition keyDead2 :: string where "keyDead2 = ''4396fb03''"
definition probeBase :: int where "probeBase = 30 * second"
definition reqInterval :: int where "reqInterval = 100 * 10 ^ 6"
definition defaultQPSFail :: real where "defaultQPSFail = 0.683"

record key_model =
  km_name :: string
  km_always_fail :: bool
  km_qps_fail :: real

record variant =
  vr_name :: string
  vr_cfg :: scheduler_config

definition tunedConfig :: "real \<Rightarrow> scheduler_config" where
  "tunedConfig qpsFail = DefaultSchedulerConfig\<lparr>confidence_tau := 2, beta_prior_a := 2, beta_prior_b := 1,
     failure_soft_weight := 0.3, epsilon_scale := 4, min_probe_rate := 0.02\<rparr>"

definition sim_variants :: "real \<Rightarrow> variant list" where
  "sim_variants qpsFail =
     [\<lparr>vr_name = ''Old Min Probe'', vr_cfg = LegacyMinProbePreset\<rparr>,
      \<lparr>vr_name = ''v3 Zeroed'', vr_cfg = ZeroedPreset\<rparr>,
      \<lparr>vr_name = ''v4 ADCS (recommended)'', vr_cfg = tunedConfig qpsFail\<rparr>]"

section \<open>Traffic\<close>

text \<open>The pool with its virtual clock, and the three counters of \<open>runTraffic\<close>.\<close>

record 'r sim =
  sm_pool :: "string pool"
  sm_clock :: int
  sm_rand :: 'r
  sm_ok :: nat
  sm_fallback :: nat
  sm_qps_fail :: nat

definition newSimPool :: "int \<Rightarrow> 'r \<Rightarrow> int \<Rightarrow> scheduler_config \<Rightarrow> 'r sim" where
  "newSimPool start r halfLife cfg =
     \<lparr>sm_pool = NewPoolWithConfig halfLife probeBase cfg, sm_clock = start, sm_rand = r, sm_ok = 0, sm_fallback = 0, sm_qps_fail = 0\<rparr>"

definition sim_add :: "string \<Rightarrow> 'r sim \<Rightarrow> 'r sim" where
  "sim_add k s = s\<lparr>sm_pool := pool_Add k 1 (sm_pool s)\<rparr>"

definition tick :: "int \<Rightarrow> 'r sim \<Rightarrow> 'r sim" where
  "tick d s = s\<lparr>sm_clock := sm_clock s + d\<rparr>"

definition sim_next :: "'r sim \<Rightarrow> string \<times> 'r sim" where
  "sim_next s = (case pool_Next (sm_clock s) (sm_pool s) of
     (k, p) \<Rightarrow> (case k of Some key \<Rightarrow> key | None \<Rightarrow> '''', s\<lparr>sm_pool := p\<rparr>))"

text \<open>The outcome of a request: the first model with the key's name decides.\<close>

definition sim_request :: "('r \<Rightarrow> real \<times> 'r) \<Rightarrow> key_model list \<Rightarrow> string \<Rightarrow> 'r sim \<Rightarrow> (unit + unit) \<times> 'r sim" where
  "sim_request rnd keys key s =
     (case find (\<lambda>k. km_name k = key) keys of
        None \<Rightarrow> (Inr (), s)
      | Some k \<Rightarrow>
          if km_always_fail k then (Inl (), s)
          else let (x, r) = rnd (sm_rand s); s1 = s\<lparr>sm_rand := r\<rparr>
            in if x < km_qps_fail k then (Inl (), s1\<lparr>sm_qps_fail := sm_qps_fail s1 + 1\<rparr>) else (Inr (), s1))"

definition sim_good :: "string \<Rightarrow> 'r sim \<Rightarrow> 'r sim" where
  "sim_good key s = s\<lparr>sm_pool := RecordSuccess (sm_clock s) key (sm_pool s), sm_ok := sm_ok s + 1\<rparr>"

definition sim_bad :: "string \<Rightarrow> 'r sim \<Rightarrow> 'r sim" where
  "sim_bad key s = s\<lparr>sm_pool := RecordFailure (sm_clock s) key (sm_pool s)\<rparr>"

definition sim_try :: "('r \<Rightarrow> real \<times> 'r) \<Rightarrow> key_model list \<Rightarrow> 'r sim \<Rightarrow> 'r sim" where
  "sim_try rnd keys s0 =
     (let s = tick reqInterval s0
      in case try_keys sim_next (sim_request rnd keys) sim_good sim_bad (pool_Len (sm_pool s)) [] s of
           (Some r, s1) \<Rightarrow> s1
         | (None, s1) \<Rightarrow> s1\<lparr>sm_fallback := sm_fallback s1 + 1\<rparr>)"

text \<open>\<open>seed\<close> is the generator after \<open>rand.Seed(42)\<close>; zero workers make the division panic.\<close>

definition runTraffic :: "('r \<Rightarrow> real \<times> 'r) \<Rightarrow> 'r \<Rightarrow> key_model list \<Rightarrow> nat \<Rightarrow> nat \<Rightarrow> 'r sim \<Rightarrow> 'r sim option" where
  "runTraffic rnd seed keys workers totalReq s =
     (if workers = 0 then None
      else let perWorker = totalReq div workers
        in Some ((sim_try rnd keys ^^ (workers * perWorker))
             (s\<lparr>sm_rand := seed, sm_ok := 0, sm_fallback := 0, sm_qps_fail := 0\<rparr>)))"

section \<open>Measurements\<close>

definition pct :: "nat \<Rightarrow> nat \<Rightarrow> real" where
  "pct a b = (if b = 0 then 0 else real a / real b * 100)"

definition count_step :: "string \<Rightarrow> nat \<times> 'r sim \<Rightarrow> nat \<times> 'r sim" where
  "count_step key = (\<lambda>(c, s).
     let (k, s1) = sim_next (tick reqInterval s)
     in (if HasPrefix k key \<or> k = key then c + 1 else c, s1))"

definition sim_count :: "string \<Rightarrow> nat \<Rightarrow> 'r sim \<Rightarrow> nat \<times> 'r sim" where
  "sim_count key n s = (count_step key ^^ n) (0, s)"

definition sim_share :: "string \<Rightarrow> nat \<Rightarrow> 'r sim \<Rightarrow> real \<times> 'r sim" where
  "sim_share key n s = (case sim_count key n s of (c, s') \<Rightarrow> (pct c n, s'))"

text \<open>The Taylor polynomial of degree 11.\<close>

definition mathExp :: "real \<Rightarrow> real" where
  "mathExp x = fst (fold (\<lambda>i (e, term). let term' = term * (x / real i) in (e + term', term')) [1..<12] (1, 1))"

section \<open>Scenarios\<close>

definition three_keys :: "real \<Rightarrow> key_model list" where
  "three_keys qpsFail =
     [\<lparr>km_name = keyGoodPrefix, km_always_fail = False, km_qps_fail = qpsFail\<rparr>,
      \<lparr>km_name = keyDead1, km_always_fail = True, km_qps_fail = 0\<rparr>,
      \<lparr>km_name = keyDead2, km_always_fail = True, km_qps_fail = 0\<rparr>]"

definition runScenario2Once :: "('r \<Rightarrow> real \<times> 'r) \<Rightarrow> 'r \<Rightarrow> int \<Rightarrow> scheduler_config \<Rightarrow> int \<Rightarrow> real \<Rightarrow> 'r sim option" where
  "runScenario2Once rnd seed start cfg halfLife qpsFail =
     runTraffic rnd seed (three_keys qpsFail) 50 5000
       (fold (\<lambda>k. sim_add (km_name k)) (three_keys qpsFail) (newSimPool start seed halfLife cfg))"

text \<open>The numbers each function prints.\<close>

definition printScenario2 :: "('r \<Rightarrow> real \<times> 'r) \<Rightarrow> 'r \<Rightarrow> int \<Rightarrow> variant \<Rightarrow> int \<Rightarrow> real \<Rightarrow> (real \<times> real \<times> real \<times> real) option" where
  "printScenario2 rnd seed start v halfLife qpsFail = do {
     s \<leftarrow> runScenario2Once rnd seed start (vr_cfg v) halfLife qpsFail;
     let (good, s1) = sim_share keyGoodPrefix 3000 s;
     let (dead1, s2) = sim_share keyDead1 3000 s1;
     let (dead2, s3) = sim_share keyDead2 3000 s2;
     Some (pct (sm_ok s) 5000, pct (sm_fallback s) 5000, good, (dead1 + dead2) / 2) }"

definition sim_report :: "(int \<Rightarrow> string \<Rightarrow> string pool \<Rightarrow> string pool) \<Rightarrow> string \<Rightarrow> 'r sim \<Rightarrow> 'r sim" where
  "sim_report record key s = s\<lparr>sm_pool := record (sm_clock s) key (sm_pool s)\<rparr>"

definition printScenario3 :: "('r \<Rightarrow> real \<times> 'r) \<Rightarrow> 'r \<Rightarrow> int \<Rightarrow> variant \<Rightarrow> int \<Rightarrow> real \<Rightarrow>
    (real \<times> real \<times> real \<times> real \<times> real \<times> real) option" where
  "printScenario3 rnd seed start v halfLife qpsFail =
     (let s0 = sim_add keyDead2 (sim_add keyDead1 (sim_add keyGoodPrefix (newSimPool start seed halfLife (vr_cfg v))));
          s1 = (sim_report RecordSuccess keyGoodPrefix ^^ 10) s0;
          s2 = (sim_report RecordFailure keyGoodPrefix ^^ 40) s1;
          (rate, p) = EffectiveRateAfter (sm_clock s2) keyGoodPrefix probeBase (sm_pool s2);
          afterBurst = rate * 100
      in do {
        s \<leftarrow> runTraffic rnd seed (three_keys qpsFail) 20 200 (s2\<lparr>sm_pool := p\<rparr>);
        let (good, s3) = sim_share keyGoodPrefix 2000 s;
        let (dead1, s4) = sim_share keyDead1 2000 s3;
        let (dead2, s5) = sim_share keyDead2 2000 s4;
        Some (afterBurst, pct (sm_ok s) 200, pct (sm_fallback s) 200, good, dead1, dead2) })"

definition printSingleKey :: "('r \<Rightarrow> real \<times> 'r) \<Rightarrow> 'r \<Rightarrow> int \<Rightarrow> variant \<Rightarrow> int \<Rightarrow> real \<Rightarrow> (real \<times> real \<times> real) option" where
  "printSingleKey rnd seed start v halfLife qpsFail = do {
     s \<leftarrow> runTraffic rnd seed [\<lparr>km_name = keyGoodPrefix, km_always_fail = False, km_qps_fail = qpsFail\<rparr>] 50 5000
            (sim_add keyGoodPrefix (newSimPool start seed halfLife (vr_cfg v)));
     Some (pct (sm_ok s) 5000, pct (sm_fallback s) 5000, mathExp (- 1 / 4)) }"

definition tau_sweep :: "('r \<Rightarrow> real \<times> 'r) \<Rightarrow> 'r \<Rightarrow> int \<Rightarrow> int \<Rightarrow> real \<Rightarrow> (real \<times> real option) list" where
  "tau_sweep rnd seed start halfLife qpsFail =
     map (\<lambda>tau. (tau, map_option (\<lambda>s. pct (sm_ok s) 5000)
        (runScenario2Once rnd seed start ((tunedConfig qpsFail)\<lparr>confidence_tau := tau\<rparr>) halfLife qpsFail))) [0.5, 1, 2, 3, 5]"

text \<open>A live request; a body that does not decode leaves both fields empty.\<close>

definition callAmap :: "((string \<times> string) list \<Rightarrow> 'w \<Rightarrow> (string + string \<times> string) \<times> 'w) \<Rightarrow> string \<Rightarrow> 'w \<Rightarrow> (bool \<times> bool) \<times> 'w" where
  "callAmap get key w =
     (case get [(''key'', key), (''origin'', ''116.397428,39.90923''), (''destination'', ''116.407428,39.91923''),
                (''strategy'', ''11''), (''output'', ''json'')] w of
        (Inl err, w') \<Rightarrow> ((True, False), w')
      | (Inr (status, infocode), w') \<Rightarrow>
          if status = ''1'' then ((False, False), w') else ((True, infocode = ''10021''), w'))"

section \<open>Facts\<close>

lemma tunedConfig_default: "tunedConfig qpsFail = DefaultSchedulerConfig"
  by (simp add: tunedConfig_def DefaultSchedulerConfig_def)

lemma mathExp_taylor: "mathExp x = (\<Sum>i < 12. x ^ i / fact i)"
proof -
  have "fold (\<lambda>i (e, term). let term' = term * (x / real i) in (e + term', term')) [1..<Suc n] (1, 1) =
      (\<Sum>i < Suc n. x ^ i / fact i, x ^ n / fact n)" for n
    by (induction n) (simp_all add: Let_def ac_simps)
  from this [of 11] show ?thesis by (simp add: mathExp_def)
qed

text \<open>A quiet key has no success on record.\<close>

definition quiet :: "string set \<Rightarrow> string pool \<Rightarrow> bool" where
  "quiet D p \<longleftrightarrow> (\<forall>s \<in> set (pl_items p). pi_item s \<in> D \<longrightarrow> successes s = 0)"

lemma quiet_decay: "successes s = 0 \<Longrightarrow> successes (applyDecay h now s) = 0"
  by (simp add: applyDecay_def Let_def split: option.split)

lemma quiet_refresh: "quiet D p \<Longrightarrow> \<forall>s \<in> set (map (refresh_weight q now) (pl_items p)). pi_item s \<in> D \<longrightarrow> successes s = 0"
  by (auto simp: quiet_def refresh_weight_def Let_def intro: quiet_decay)

lemma turn_result_keeps:
  "s \<in> set (turn_result items b) \<Longrightarrow> \<exists>t \<in> set items. pi_item s = pi_item t \<and> successes s = successes t"
  by (cases "b < length items") (force simp: turn_result_def bump_def in_set_conv_nth nth_list_update list_update_beyond)+

lemma quiet_Next:
  assumes "quiet D p"
  shows "quiet D (snd (pool_Next now p))"
proof -
  note fresh = quiet_refresh [OF assms, of p now]
  from Next_cases [of now p] show ?thesis
  proof (elim disjE exE conjE)
    assume "pool_Next now p = (None, p\<lparr>pl_items := map (refresh_weight p now) (pl_items p)\<rparr>)"
    then show ?thesis using fresh by (simp add: quiet_def)
  next
    fix b assume "pool_Next now p = (Some (pi_item (map (refresh_weight p now) (pl_items p) ! b)),
        p\<lparr>pl_items := turn_result (map (refresh_weight p now) (pl_items p)) b\<rparr>)"
    then show ?thesis using fresh by (auto simp: quiet_def dest!: turn_result_keeps)
  qed
qed

lemma quiet_upd:
  assumes "quiet D p" "i < length (pl_items p)" "pi_item (f (pl_items p ! i)) \<in> D \<longrightarrow> successes (f (pl_items p ! i)) = 0"
  shows "quiet D (pool_upd i f p)"
  using assms set_update_subset_insert [of "pl_items p" i "f (pl_items p ! i)"] by (auto simp: quiet_def pool_upd_def)

lemma quiet_RecordSuccess: "pool_ok p \<Longrightarrow> quiet D p \<Longrightarrow> k \<notin> D \<Longrightarrow> quiet D (RecordSuccess now k p)"
  using pool_ok_index [of p k] by (auto simp: RecordSuccess_def intro!: quiet_upd split: option.split)

lemma quiet_RecordFailure:
  assumes "pool_ok p" "quiet D p"
  shows "quiet D (RecordFailure now k p)"
proof (cases "pl_by_key p k")
  case (Some i)
  note i = pool_ok_index [OF assms(1) Some]
  have "pi_item (pl_items p ! i) \<in> D \<longrightarrow> successes (pl_items p ! i) = 0" using assms(2) i by (simp add: quiet_def)
  then have "pi_item (pl_items p ! i) \<in> D \<longrightarrow> successes (note_failure (recovery_half_life p) now (pl_items p ! i)) = 0"
    by (auto simp: note_failure_def Let_def quiet_decay)
  then show ?thesis using Some i by (simp add: RecordFailure_def quiet_upd [OF assms(2)])
qed (simp add: RecordFailure_def assms(2))

definition dead_keys :: "key_model list \<Rightarrow> string set" where
  "dead_keys keys = {key. \<exists>k. find (\<lambda>k. km_name k = key) keys = Some k \<and> km_always_fail k}"

definition sim_inv :: "key_model list \<Rightarrow> 'r sim \<Rightarrow> bool" where
  "sim_inv keys s \<longleftrightarrow> pool_ok (sm_pool s) \<and> quiet (dead_keys keys) (sm_pool s)"

lemma sim_next_inv: "sim_inv keys s \<Longrightarrow> sim_inv keys (snd (sim_next s)) \<and>
    sm_ok (snd (sim_next s)) = sm_ok s \<and> sm_fallback (snd (sim_next s)) = sm_fallback s"
  using Next_ok [of "sm_pool s" "sm_clock s"] quiet_Next [of "dead_keys keys" "sm_pool s" "sm_clock s"]
  by (simp add: sim_inv_def sim_next_def split_beta)

lemma sim_request_keeps: "sim_request rnd keys k s = (r, s') \<Longrightarrow>
    sm_pool s' = sm_pool s \<and> sm_ok s' = sm_ok s \<and> sm_fallback s' = sm_fallback s \<and> (r = Inr () \<longrightarrow> k \<notin> dead_keys keys)"
  by (auto simp: sim_request_def dead_keys_def Let_def split: option.splits if_splits prod.splits)

text \<open>Every simulated request counts once, as a success or as a fallback.\<close>

lemma sim_try_counts:
  assumes "sim_inv keys s"
  shows "sim_inv keys (sim_try rnd keys s) \<and>
    sm_ok (sim_try rnd keys s) + sm_fallback (sim_try rnd keys s) = sm_ok s + sm_fallback s + 1"
proof -
  let ?s = "tick reqInterval s" and ?c = "sm_ok s + sm_fallback s"
  have "case try_keys sim_next (sim_request rnd keys) sim_good sim_bad (pool_Len (sm_pool ?s)) [] ?s of
      (None, t) \<Rightarrow> sim_inv keys t \<and> sm_ok t + sm_fallback t = ?c
    | (Some r, t) \<Rightarrow> sim_inv keys t \<and> sm_ok t + sm_fallback t = ?c + 1"
  proof (rule try_keys_rule)
    show "sim_inv keys ?s \<and> sm_ok ?s + sm_fallback ?s = ?c" using assms by (simp add: sim_inv_def tick_def)
    show "sim_inv keys (snd (sim_next t)) \<and> sm_ok (snd (sim_next t)) + sm_fallback (snd (sim_next t)) = ?c"
      if "sim_inv keys t \<and> sm_ok t + sm_fallback t = ?c" for t using sim_next_inv [of keys t] that by simp
    show "sim_inv keys (sim_bad k t') \<and> sm_ok (sim_bad k t') + sm_fallback (sim_bad k t') = ?c"
      if "sim_inv keys t \<and> sm_ok t + sm_fallback t = ?c" "sim_request rnd keys k t = (Inl e, t')" for k t e t'
      using that sim_request_keeps [OF that(2)] by (simp add: sim_bad_def sim_inv_def RecordFailure_ok quiet_RecordFailure)
    show "sim_inv keys (sim_good k t') \<and> sm_ok (sim_good k t') + sm_fallback (sim_good k t') = ?c + 1"
      if "sim_inv keys t \<and> sm_ok t + sm_fallback t = ?c" "sim_request rnd keys k t = (Inr r, t')" for k t r t'
      using that sim_request_keeps [OF that(2)] by (simp add: sim_good_def sim_inv_def RecordSuccess_ok quiet_RecordSuccess)
  qed
  then show ?thesis by (auto simp: sim_try_def Let_def sim_inv_def split: prod.splits option.splits)
qed

lemma runTraffic_counts:
  assumes "sim_inv keys s" "runTraffic rnd seed keys workers totalReq s = Some s'"
  shows "sm_ok s' + sm_fallback s' = workers * (totalReq div workers)" "sim_inv keys s'"
proof -
  have "sim_inv keys ((sim_try rnd keys ^^ n) t) \<and>
      sm_ok ((sim_try rnd keys ^^ n) t) + sm_fallback ((sim_try rnd keys ^^ n) t) = sm_ok t + sm_fallback t + n"
    if "sim_inv keys t" for n t using that
    by (induction n) (simp_all add: sim_try_counts)
  from this [of "s\<lparr>sm_rand := seed, sm_ok := 0, sm_fallback := 0, sm_qps_fail := 0\<rparr>" "workers * (totalReq div workers)"] assms
  show "sm_ok s' + sm_fallback s' = workers * (totalReq div workers)" "sim_inv keys s'"
    by (auto simp: runTraffic_def sim_inv_def Let_def split: if_splits)
qed

lemma sim_add_inv: "sim_inv keys s \<Longrightarrow> sim_inv keys (sim_add k s)"
  using Add_ok [of "sm_pool s" k 1] by (auto simp: sim_inv_def sim_add_def quiet_def pool_Add_def Let_def)

lemma newSimPool_inv: "sim_inv keys (newSimPool start r halfLife cfg)"
  by (simp add: sim_inv_def newSimPool_def NewPool_ok quiet_def) (simp add: NewPoolWithConfig_def)

text \<open>Scenario 2 accounts for its 5000 requests, and the dead keys end without a success.\<close>

lemma scenario2_accounts:
  "\<exists>s. runScenario2Once rnd seed start cfg halfLife qpsFail = Some s \<and> sm_ok s + sm_fallback s = 5000 \<and>
     pct (sm_ok s) 5000 + pct (sm_fallback s) 5000 = 100 \<and>
     (\<forall>i \<in> set (pl_items (sm_pool s)). pi_item i \<in> {keyDead1, keyDead2} \<longrightarrow> successes i = 0)"
proof -
  let ?s = "fold (\<lambda>k. sim_add (km_name k)) (three_keys qpsFail) (newSimPool start seed halfLife cfg)"
  obtain s where s: "runTraffic rnd seed (three_keys qpsFail) 50 5000 ?s = Some s" by (simp add: runTraffic_def)
  have inv: "sim_inv (three_keys qpsFail) ?s" by (simp add: three_keys_def sim_add_inv newSimPool_inv)
  note counts = runTraffic_counts [OF inv s]
  have "{keyDead1, keyDead2} \<subseteq> dead_keys (three_keys qpsFail)"
    by (simp add: dead_keys_def three_keys_def keyGoodPrefix_def keyDead1_def keyDead2_def)
  moreover have "pct (sm_ok s) 5000 + pct (sm_fallback s) 5000 = 100"
    using counts(1) by (simp add: pct_def field_simps flip: of_nat_add)
  ultimately show ?thesis using s counts by (auto simp: runScenario2Once_def sim_inv_def quiet_def)
qed

end
