(* ===== verification/Ddl_Script.thy ===== *)
theory Ddl_Script
  imports Route_Types
begin

text \<open>
  \<open>scripts/genddl/main.go\<close>: the filter that turns captured logger output into a list of SQL
  statements, and the script around it. The two regular expressions are written out as functions on
  ASCII strings; the working directory, files and GORM are parameters, console output is left out.
  The lemmas say that every statement that is kept begins with one of the two keywords and ends
  with a semicolon, none is kept twice, that the second regular expression never matches, and that
  a run that reports a file has written such statements to it.
\<close>

section \<open>The regular expressions\<close>

text \<open>\<open>(?i)\b(CREATE|ALTER)\b\<close>: the first position of a keyword between word boundaries.\<close>

definition word_char :: "char \<Rightarrow> bool" where
  "word_char c \<longleftrightarrow> (let n = (of_char c :: nat) in 48 \<le> n \<and> n \<le> 57 \<or> 65 \<le> n \<and> n \<le> 90 \<or> 97 \<le> n \<and> n \<le> 122 \<or> n = 95)"

definition word_boundary :: "string \<Rightarrow> nat \<Rightarrow> bool" where
  "word_boundary s i \<longleftrightarrow> (0 < i \<and> word_char (s ! (i - 1))) \<noteq> (i < length s \<and> word_char (s ! i))"

definition keyword_at :: "string \<Rightarrow> string \<Rightarrow> nat \<Rightarrow> bool" where
  "keyword_at kw s i \<longleftrightarrow> HasPrefix (ToLower (drop i s)) kw \<and> word_boundary s i \<and> word_boundary s (i + length kw)"

definition sqlStmtStart :: "string \<Rightarrow> nat option" where
  "sqlStmtStart s = find (\<lambda>i. keyword_at ''create'' s i \<or> keyword_at ''alter'' s i) [0..<length s]"

text \<open>\<open>(?i)^(?:\[.*?\]\s*)+\<close>: bracketed groups at the start, each with the white space after it.\<close>

definition re_space :: "char \<Rightarrow> bool" where
  "re_space c \<longleftrightarrow> of_char c \<in> {9, 10, 12, 13, 32 :: nat}"

function loggerNoise :: "string \<Rightarrow> string" where
  "loggerNoise s =
     (case s of
        [] \<Rightarrow> []
      | c # cs \<Rightarrow>
          if c = CHR ''['' \<and> CHR '']'' \<in> set cs
          then loggerNoise (dropWhile re_space (tl (dropWhile (\<lambda>d. d \<noteq> CHR '']'') cs)))
          else s)"
  by pat_completeness auto
termination
proof (relation "measure length")
  fix s :: string and c cs
  have "length (dropWhile re_space (tl (dropWhile (\<lambda>d. d \<noteq> CHR '']'') cs))) \<le> length cs"
    using length_dropWhile_le [of re_space "tl (dropWhile (\<lambda>d. d \<noteq> CHR '']'') cs)"] length_dropWhile_le [of "\<lambda>d. d \<noteq> CHR '']''" cs]
    by simp
  moreover assume "s = c # cs"
  ultimately show "(dropWhile re_space (tl (dropWhile (\<lambda>d. d \<noteq> CHR '']'') cs)), s) \<in> measure length" by simp
qed simp

declare loggerNoise.simps [simp del]

section \<open>The filter\<close>

definition sanitize_line :: "string \<Rightarrow> string list \<Rightarrow> string list" where
  "sanitize_line line0 out =
     (let line = TrimSpace line0 in
      if line = '''' then out
      else case sqlStmtStart line of
        None \<Rightarrow> out
      | Some loc \<Rightarrow>
          let stmt = loggerNoise (TrimSpace (drop loc line)) in
          if stmt = '''' then out
          else let stmt' = (if last stmt \<noteq> CHR '';'' then stmt @ '';'' else stmt)
            in if stmt' \<in> set out then out else out @ [stmt'])"

definition sanitize_lines :: "string \<Rightarrow> string list" where
  "sanitize_lines raw = fold sanitize_line (Split (CHR 0x0A) raw) []"

definition sanitizeCapturedSQL :: "string \<Rightarrow> string" where
  "sanitizeCapturedSQL raw =
     (case sanitize_lines raw of
        [] \<Rightarrow> ''''
      | s # ss \<Rightarrow> s @ concat (map (\<lambda>t. [CHR 0x0A, CHR 0x0A] @ t) ss))"

section \<open>Facts\<close>

definition statement_ok :: "string \<Rightarrow> bool" where
  "statement_ok s \<longleftrightarrow> s \<noteq> '''' \<and> last s = CHR '';'' \<and> (HasPrefix (ToLower s) ''create'' \<or> HasPrefix (ToLower s) ''alter'')"

lemma HasPrefix_append: "HasPrefix s p \<Longrightarrow> HasPrefix (s @ t) p"
  by (auto simp: HasPrefix_def) (metis append_eq_conv_conj append_take_drop_id length_take min.absorb_iff2 nat_le_linear take_all take_append)

lemma lower_space: "is_space c \<Longrightarrow> lower_char c = c"
  by (auto simp: is_space_def lower_char_def Let_def)

lemma trim_keeps_front:
  assumes "a \<noteq> []" "\<not> is_space (hd a)" "\<not> is_space (last a)"
  shows "\<exists>u. TrimSpace (a @ t) = a @ u"
proof -
  have "dropWhile is_space (a @ t) = a @ t" using assms(1,2) by (cases a) simp_all
  then have trim: "TrimSpace (a @ t) = rev (dropWhile is_space (rev t @ rev a))" by (simp add: TrimSpace_def)
  have "dropWhile is_space (rev a) = rev a" using assms(1,3) by (cases a rule: rev_cases) simp_all
  then have "dropWhile is_space (rev t @ rev a) = dropWhile is_space (rev t) @ rev a"
    by (cases "\<forall>c \<in> set (rev t). is_space c") (auto simp: dropWhile_append dropWhile_eq_Nil_conv)
  then show ?thesis unfolding trim by simp
qed

text \<open>A line that is cut at a keyword still begins with it after trimming.\<close>

lemma keyword_front:
  assumes "HasPrefix (ToLower s) kw" "kw \<noteq> []" "\<not> is_space (hd kw)" "\<not> is_space (last kw)"
  shows "HasPrefix (ToLower (TrimSpace s)) kw"
proof -
  let ?a = "take (length kw) s"
  have low: "ToLower ?a = kw" using assms(1) by (simp add: HasPrefix_def ToLower_def take_map)
  then have a: "?a \<noteq> []" using assms(2) by (auto simp: ToLower_def)
  have "lower_char (hd ?a) = hd kw" "lower_char (last ?a) = last kw"
    using hd_map [OF a, of lower_char] last_map [OF a, of lower_char] low by (simp_all only: ToLower_def)
  then have "\<not> is_space (hd ?a)" "\<not> is_space (last ?a)" using assms(3,4) lower_space by metis+
  from trim_keeps_front [OF a this, of "drop (length kw) s"] obtain u where "TrimSpace s = ?a @ u" by auto
  then show ?thesis using low by (simp add: HasPrefix_def ToLower_def)
qed

lemma sqlStmtStart_keyword:
  assumes "sqlStmtStart s = Some i"
  obtains kw where "kw = ''create'' \<or> kw = ''alter''" "HasPrefix (ToLower (TrimSpace (drop i s))) kw"
proof -
  have "keyword_at ''create'' s i \<or> keyword_at ''alter'' s i"
    using assms by (auto simp: sqlStmtStart_def find_Some_iff)
  then show thesis
  proof
    assume "keyword_at ''create'' s i"
    then have "HasPrefix (ToLower (TrimSpace (drop i s))) ''create''"
      by (intro keyword_front) (simp_all add: keyword_at_def is_space_def)
    then show thesis using that by blast
  next
    assume "keyword_at ''alter'' s i"
    then have "HasPrefix (ToLower (TrimSpace (drop i s))) ''alter''"
      by (intro keyword_front) (simp_all add: keyword_at_def is_space_def)
    then show thesis using that by blast
  qed
qed

text \<open>The second expression has nothing to remove: a statement begins with a letter.\<close>

lemma loggerNoise_idle:
  assumes "sqlStmtStart s = Some i"
  shows "loggerNoise (TrimSpace (drop i s)) = TrimSpace (drop i s)"
proof -
  obtain kw where kw: "kw = ''create'' \<or> kw = ''alter''" "HasPrefix (ToLower (TrimSpace (drop i s))) kw"
    using sqlStmtStart_keyword [OF assms] .
  have "TrimSpace (drop i s) = c # cs \<Longrightarrow> c \<noteq> CHR ''[''" for c cs
    using kw by (auto simp: HasPrefix_def ToLower_def lower_char_def)
  then show ?thesis by (cases "TrimSpace (drop i s)") (simp_all add: loggerNoise.simps)
qed

lemma sanitize_line_ok:
  assumes "distinct out" "\<forall>s \<in> set out. statement_ok s"
  shows "distinct (sanitize_line line out) \<and> (\<forall>s \<in> set (sanitize_line line out). statement_ok s)"
proof (cases "sqlStmtStart (TrimSpace line)")
  case (Some i)
  let ?stmt = "TrimSpace (drop i (TrimSpace line))"
  obtain kw where kw: "kw = ''create'' \<or> kw = ''alter''" "HasPrefix (ToLower ?stmt) kw"
    using sqlStmtStart_keyword [OF Some] .
  then have ne: "?stmt \<noteq> ''''" by (auto simp: HasPrefix_def ToLower_def)
  define final where "final = (if last ?stmt \<noteq> CHR '';'' then ?stmt @ '';'' else ?stmt)"
  have "HasPrefix (ToLower (?stmt @ '';'')) kw" using HasPrefix_append [OF kw(2)] unfolding ToLower_def map_append .
  then have pre: "HasPrefix (ToLower final) kw" using kw(2) unfolding final_def by presburger
  have "last final = CHR '';''" "final \<noteq> ''''" using ne unfolding final_def by simp_all
  then have ok: "statement_ok final" using kw(1) pre unfolding statement_ok_def by blast
  have "TrimSpace line \<noteq> ''''" using Some by (auto simp: sqlStmtStart_def)
  then have "sanitize_line line out = (if final \<in> set out then out else out @ [final])"
    unfolding sanitize_line_def Let_def Some option.case loggerNoise_idle [OF Some] if_not_P [OF ne] final_def
    by (simp only: if_False)
  then show ?thesis using assms ok by simp
qed (use assms in \<open>simp add: sanitize_line_def Let_def\<close>)

lemma sanitize_lines_ok: "distinct (sanitize_lines raw) \<and> (\<forall>s \<in> set (sanitize_lines raw). statement_ok s)"
proof -
  have "distinct (fold sanitize_line ls out) \<and> (\<forall>s \<in> set (fold sanitize_line ls out). statement_ok s)"
    if "distinct out" "\<forall>s \<in> set out. statement_ok s" for ls out
    using that
  proof (induction ls arbitrary: out)
    case (Cons l ls)
    from sanitize_line_ok [OF Cons.prems, of l] Cons.IH [of "sanitize_line l out"] show ?case by simp
  qed simp
  from this [of "[]" "Split (CHR 0x0A) raw"] show ?thesis by (simp add: sanitize_lines_def)
qed

section \<open>Paths\<close>

text \<open>
  \<open>path/filepath\<close> on Unix: \<open>Clean\<close> walks over the components and keeps a stack of names; \<open>Join\<close> and
  \<open>Dir\<close> clean what they return.
\<close>

definition path_sep :: char where "path_sep = CHR ''/''"

definition clean_component :: "bool \<Rightarrow> string \<Rightarrow> string list \<Rightarrow> string list" where
  "clean_component rooted c stack =
     (if c = '''' \<or> c = ''.'' then stack
      else if c = ''..'' then
        (if stack \<noteq> [] \<and> last stack \<noteq> ''..'' then butlast stack else if rooted then stack else stack @ [c])
      else stack @ [c])"

fun join_path :: "string list \<Rightarrow> string" where
  "join_path [] = ''''"
| "join_path [c] = c"
| "join_path (c # cs) = c @ path_sep # join_path cs"

definition filepath_IsAbs :: "string \<Rightarrow> bool" where
  "filepath_IsAbs p \<longleftrightarrow> HasPrefix p [path_sep]"

definition filepath_Clean :: "string \<Rightarrow> string" where
  "filepath_Clean p =
     (let rooted = filepath_IsAbs p; body = join_path (fold (clean_component rooted) (Split path_sep p) [])
      in if rooted then path_sep # body else if body = '''' then ''.'' else body)"

definition filepath_Join :: "string list \<Rightarrow> string" where
  "filepath_Join elems = (case dropWhile (\<lambda>e. e = '''') elems of [] \<Rightarrow> '''' | es \<Rightarrow> filepath_Clean (join_path es))"

definition filepath_Dir :: "string \<Rightarrow> string" where
  "filepath_Dir p = filepath_Clean (rev (dropWhile (\<lambda>c. c \<noteq> path_sep) (rev p)))"

lemma filepath_Clean_abs: "filepath_IsAbs p \<Longrightarrow> filepath_IsAbs (filepath_Clean p)"
  by (simp add: filepath_Clean_def Let_def filepath_IsAbs_def HasPrefix_def)

lemma filepath_Join_abs:
  assumes "filepath_IsAbs p"
  shows "filepath_IsAbs (filepath_Join (p # ps))"
proof -
  obtain q where p: "p = path_sep # q" using assms by (cases p) (auto simp: filepath_IsAbs_def HasPrefix_def)
  have "filepath_IsAbs (join_path (p # ps))" by (cases ps) (simp_all add: filepath_IsAbs_def HasPrefix_def p)
  then have "p \<noteq> []" "filepath_IsAbs (join_path (p # ps))" using p by simp_all
  then show ?thesis by (simp add: filepath_Join_def filepath_Clean_abs)
qed

section \<open>The script\<close>

text \<open>
  What \<open>main\<close> calls: the working directory, files, and GORM in a dry run (opening, then the migration
  of the model), whose logger hands formatted messages to \<open>bufWriter\<close>.
\<close>

record 'w ddl_io =
  io_Getwd :: "'w \<Rightarrow> (string + string) \<times> 'w"
  io_Stat :: "string \<Rightarrow> 'w \<Rightarrow> string option"
  io_Open :: "string \<Rightarrow> 'w \<Rightarrow> (string + string list) \<times> 'w"
  io_AutoMigrate :: "'w \<Rightarrow> string list \<times> 'w"
  io_MkdirAll :: "string \<Rightarrow> 'w \<Rightarrow> string option \<times> 'w"
  io_WriteFile :: "string \<Rightarrow> string \<Rightarrow> 'w \<Rightarrow> string option \<times> 'w"

text \<open>How a run ends, and its exit status.\<close>

datatype ddl_exit = NeedDsn | Fatal string | Wrote string

fun exit_code :: "ddl_exit \<Rightarrow> nat" where
  "exit_code (Wrote path) = 0"
| "exit_code (Fatal err) = 1"
| "exit_code NeedDsn = 2"

definition bufWriter_Printf :: "string \<Rightarrow> string \<Rightarrow> string" where
  "bufWriter_Printf msg b = b @ msg @ [CHR 0x0A]"

definition ddl_flags :: "string \<Rightarrow> string option \<Rightarrow> string option \<Rightarrow> string \<times> string" where
  "ddl_flags env dsn out =
     (case dsn of None \<Rightarrow> env | Some s \<Rightarrow> s, case out of None \<Rightarrow> ''scripts/ddl/001_distance_matrix_edge.sql'' | Some s \<Rightarrow> s)"

text \<open>The directory of the module, also when the script runs in \<open>scripts\<close>.\<close>

definition ddl_root :: "'w ddl_io \<Rightarrow> string \<Rightarrow> 'w \<Rightarrow> string" where
  "ddl_root io dir w =
     (if io_Stat io (filepath_Join [dir, ''internal'', ''persist'', ''model.go'']) w \<noteq> None
      then filepath_Clean (filepath_Join [dir, ''..'']) else dir)"

text \<open>The comment that heads the file.\<close>

definition ddl_header :: string where
  "ddl_header = concat (map (\<lambda>l. l @ [CHR 0x0A])
     [''-- Generated by GORM Migrator from internal/persist/model.go'',
      ''-- Do not hand-edit. Regenerate:'',
      ''--   go run ./scripts/genddl -dsn '' @ [CHR 0x27] @ ''user:pass@tcp(host:3306)/distance_matrix?parseTime=true&charset=utf8mb4'' @ [CHR 0x27],
      ''--'',
      ''SET NAMES utf8mb4;'',
      ''''])"

definition ddl_write :: "'w ddl_io \<Rightarrow> string \<Rightarrow> string \<Rightarrow> string \<Rightarrow> 'w \<Rightarrow> ddl_exit \<times> 'w" where
  "ddl_write io dir out sqlText w =
     (let outPath = (if filepath_IsAbs out then out else filepath_Join [dir, out])
      in case io_MkdirAll io (filepath_Dir outPath) w of
           (Some err, w1) \<Rightarrow> (Fatal err, w1)
         | (None, w1) \<Rightarrow>
             (case io_WriteFile io outPath (ddl_header @ sqlText @ [CHR 0x0A]) w1 of
                (Some err, w2) \<Rightarrow> (Fatal err, w2)
              | (None, w2) \<Rightarrow> (Wrote outPath, w2)))"

definition genddl_main :: "'w ddl_io \<Rightarrow> string \<Rightarrow> string option \<Rightarrow> string option \<Rightarrow> 'w \<Rightarrow> ddl_exit \<times> 'w" where
  "genddl_main io env dsn_flag out_flag w =
     (let (dsn, out) = ddl_flags env dsn_flag out_flag in
      if TrimSpace dsn = '''' then (NeedDsn, w)
      else case io_Getwd io w of
        (Inl err, w1) \<Rightarrow> (Fatal err, w1)
      | (Inr cwd, w1) \<Rightarrow>
          let dir = ddl_root io cwd w1
          in case io_Open io dsn w1 of
            (Inl err, w2) \<Rightarrow> (Fatal err, w2)
          | (Inr opened, w2) \<Rightarrow>
              let (migrating, w3) = io_AutoMigrate io w2;
                  sqlText = sanitizeCapturedSQL (fold bufWriter_Printf (opened @ migrating) '''')
              in if TrimSpace sqlText = ''''
                 then (Fatal ''no SQL captured from GORM Migrator; check DSN / DryRun logger'', w3)
                 else ddl_write io dir out sqlText w3)"

text \<open>
  When the script reports a file, it has written it: an absolute path if the working directory is one,
  under a directory that was made, with the header and at least one statement, each of which begins with a
  keyword, ends with a semicolon and occurs once.
\<close>

definition ddl_text :: "string list \<Rightarrow> string" where
  "ddl_text stmts = (case stmts of [] \<Rightarrow> '''' | s # ss \<Rightarrow> s @ concat (map (\<lambda>t. [CHR 0x0A, CHR 0x0A] @ t) ss))"

lemma genddl_main_wrote:
  assumes "genddl_main io env dsn out w = (Wrote path, w')" "\<And>w r w'. io_Getwd io w = (Inr r, w') \<Longrightarrow> filepath_IsAbs r"
  obtains stmts w1 w2 where "stmts \<noteq> []" "distinct stmts" "\<forall>s \<in> set stmts. statement_ok s" "filepath_IsAbs path"
    "io_MkdirAll io (filepath_Dir path) w1 = (None, w2)"
    "io_WriteFile io path (ddl_header @ ddl_text stmts @ [CHR 0x0A]) w2 = (None, w')"
proof -
  obtain cwd w1 opened w2 migrating w3 where run: "io_Getwd io w = (Inr cwd, w1)" "io_AutoMigrate io w2 = (migrating, w3)"
    "TrimSpace (sanitizeCapturedSQL (fold bufWriter_Printf (opened @ migrating) '''')) \<noteq> ''''"
    "ddl_write io (ddl_root io cwd w1) (snd (ddl_flags env dsn out)) (sanitizeCapturedSQL (fold bufWriter_Printf (opened @ migrating) '''')) w3 = (Wrote path, w')"
    using assms(1) by (auto simp: genddl_main_def Let_def split: prod.splits sum.splits if_splits)
  let ?stmts = "sanitize_lines (fold bufWriter_Printf (opened @ migrating) '''')"
  have sql: "sanitizeCapturedSQL (fold bufWriter_Printf (opened @ migrating) '''') = ddl_text ?stmts"
    by (simp add: sanitizeCapturedSQL_def ddl_text_def)
  have "?stmts \<noteq> []" using run(3) unfolding sql by (auto simp: ddl_text_def TrimSpace_def)
  have dir: "filepath_IsAbs (ddl_root io cwd w1)"
    using assms(2) [OF run(1)] by (simp add: ddl_root_def filepath_Clean_abs filepath_Join_abs)
  obtain w4 where w4: "io_MkdirAll io (filepath_Dir path) w3 = (None, w4)"
    "io_WriteFile io path (ddl_header @ ddl_text ?stmts @ [CHR 0x0A]) w4 = (None, w')"
    "path = (if filepath_IsAbs (snd (ddl_flags env dsn out)) then snd (ddl_flags env dsn out)
      else filepath_Join [ddl_root io cwd w1, snd (ddl_flags env dsn out)])"
    using run(4) unfolding sql ddl_write_def Let_def by (auto split: prod.splits option.splits)
  have "filepath_IsAbs path" using w4(3) dir filepath_Join_abs by simp
  then show thesis using that [OF \<open>?stmts \<noteq> []\<close> _ _ _ w4(1,2)] sanitize_lines_ok by blast
qed

text \<open>A run in \<open>scripts\<close>: the module directory is found above it, and the captured statement reaches the file.\<close>

lemma Split_code [code]:
  "Split sep [] = [[]]"
  "Split sep (c # cs) = (case Split sep cs of [] \<Rightarrow> [[c]] | p # ps \<Rightarrow> if c = sep then [] # p # ps else (c # p) # ps)"
  by (cases cs; auto split: list.split)+

definition dry_run_io :: "(string \<times> string) list ddl_io" where
  "dry_run_io =
     \<lparr>io_Getwd = (\<lambda>w. (Inr ''/m/scripts'', w)),
      io_Stat = (\<lambda>p w. if p = ''/m/internal/persist/model.go'' then None else Some ''no such file''),
      io_Open = (\<lambda>dsn w. (Inr [], w)), io_AutoMigrate = (\<lambda>w. ([''CREATE TABLE e''], w)),
      io_MkdirAll = (\<lambda>p w. (None, w)), io_WriteFile = (\<lambda>p s w. (None, (p, s) # w))\<rparr>"

lemma dry_run_parts:
  "ddl_root dry_run_io ''/m/scripts'' w = ''/m''"
  "filepath_Join [''/m'', ''ddl/1.sql''] = ''/m/ddl/1.sql''" "\<not> filepath_IsAbs ''ddl/1.sql''"
  "sanitizeCapturedSQL (fold bufWriter_Printf [''CREATE TABLE e''] '''') = ''CREATE TABLE e;''"
  "TrimSpace ''CREATE TABLE e;'' \<noteq> ''''" "TrimSpace ''m@/m'' \<noteq> ''''"
proof -
  have "filepath_Join [''/m/scripts'', ''internal'', ''persist'', ''model.go''] \<noteq> ''/m/internal/persist/model.go''"
    "filepath_Clean (filepath_Join [''/m/scripts'', ''..'']) = ''/m''"
    by code_simp+
  then show "ddl_root dry_run_io ''/m/scripts'' w = ''/m''" by (simp add: ddl_root_def dry_run_io_def)
qed code_simp+

lemma dry_run_writes:
  "genddl_main dry_run_io '''' (Some ''m@/m'') (Some ''ddl/1.sql'') [] =
     (Wrote ''/m/ddl/1.sql'', [(''/m/ddl/1.sql'', ddl_header @ ''CREATE TABLE e;'' @ [CHR 0x0A])])"
proof -
  have io: "io_Getwd dry_run_io w = (Inr ''/m/scripts'', w)" "io_Open dry_run_io dsn w = (Inr [], w)"
    "io_AutoMigrate dry_run_io w = ([''CREATE TABLE e''], w)" "io_MkdirAll dry_run_io p w = (None, w)"
    "io_WriteFile dry_run_io p s w = (None, (p, s) # w)" for w dsn p s
    by (simp_all add: dry_run_io_def)
  show ?thesis
    unfolding genddl_main_def ddl_flags_def ddl_write_def Let_def option.case prod.case io append_Nil sum.case dry_run_parts(1,4) if_not_P [OF dry_run_parts(5)]
      if_not_P [OF dry_run_parts(6)] if_not_P [OF dry_run_parts(3)] dry_run_parts(2) ..
qed

end
