(* ===== verification/Spec2Isabelle.thy ===== *)
theory Spec2Isabelle
  imports Arc_Scenarios Matrix_Service Matrix_Retry Route_Text Key_Simulation Ddl_Script
begin

text \<open>
  A verification development for the distance-matrix service (Go, sources under \<open>src/\<close>).

  \<^bold>\<open>The program.\<close> A client posts points to \<open>/v1/matrix\<close> and gets the matrices of driving distances and
  durations between all ordered pairs. The engine (\<open>internal/engine\<close>) looks each pair up in a Redis cache
  (\<open>internal/cache\<close>) and a MySQL archive (\<open>internal/persist\<close>). The pairs that miss are arcs of a graph;
  the arc-cover planner (\<open>internal/arccover\<close>) covers them by walks of at most as many legs as one provider call
  takes. Each walk goes through the batch planner (\<open>internal/planner\<close>) to the map provider
  (\<open>internal/provider\<close>), which picks API keys from a pool with adaptive weights (\<open>internal/loadbalance\<close>) and falls
  back to straight-line estimates. Results are written to the cache and, by an asynchronous writer, to the
  archive. Handlers, rate limit, configuration and wiring are in \<open>internal/handler\<close>, \<open>middleware\<close>, \<open>config\<close>,
  \<open>svc\<close>.

  \<^bold>\<open>Conventions\<close> (theory \<open>Matrix_Prelude\<close>). A panic is the value \<open>None\<close>; so are loops that do not return where a loop
  is a \<open>partial_function\<close>. A Go \<open>error\<close> is the left summand of a sum, or a constructor of an error type. Structs are
  records, state is passed and returned. Vertex and edge numbers are 32-bit words, bit sets and random numbers
  64-bit words; a Go \<open>int\<close> is an integer, a length or index a natural number. Floating-point numbers are
  reals: the rounding to \<open>float32\<close> in conversions is a parameter, other rounding is not modelled. Time is a
  number of nanoseconds. What is outside the program is a state of a type \<open>'w\<close> (or \<open>'v\<close>) with functions on it
  as parameters: HTTP, Redis, GORM and MySQL, JSON and geohash codecs, clocks, contexts, goroutine schedules.

  \<^bold>\<open>The arc-cover planner\<close> (\<open>internal/arccover\<close>).
  \<^item> \<open>Arc_Types\<close> (\<open>types.go\<close>, \<open>util.go\<close>), \<open>Required_Set\<close> (\<open>required_set.go\<close>): arcs, legs, routes, plans, the numbering of
    arcs; the bit set represents the required pairs.
  \<^item> \<open>Heap_Order\<close>, \<open>Vertex_Heap\<close>, \<open>Arc_Graph\<close> (\<open>graph.go\<close>): the mutable graph refines a multiset of arcs, \<open>SelectDenseNext\<close>
    picks the best neighbour, the indexed heap keeps its order under \<open>Update\<close> and returns a best vertex. The order of
    the heap is a locale (\<open>better_order\<close>).
  \<^item> \<open>Dense_Route\<close> (\<open>dense.go\<close>): \<open>DenseRouteFirst\<close> returns under any cancellation and partitions the arcs into trails; a run in
    which the start vertex is not the best one.
  \<^item> \<open>Fragment_Packing\<close>, \<open>Packing_Fit\<close>, \<open>Packing_Routes\<close> (\<open>packing.go\<close>): the bucketed search equals the stated selection
    rule, packing keeps the arcs and leaves no two routes that could be joined.
  \<^item> \<open>Weak_Components\<close> (\<open>trail.go\<close>), \<open>Trail_Bound\<close>, \<open>Lower_Bound\<close> (\<open>trail.go\<close>, \<open>lower_bound.go\<close>): union-find components and
    the lower bound on the number of routes of any cover.
  \<^item> \<open>Plan_Validate\<close> (\<open>validate.go\<close>): repair and statistics of plans; a plan that loses an edge.
  \<^item> \<open>Cover_Interface\<close>, \<open>Dense_Planner\<close> (\<open>planner.go\<close>): the interface \<open>ArcCoverPlanner\<close> as locales, interpreted for the dense
    planner; every plan covers exactly the requested pairs, a plan flagged optimal is minimal.
  \<^item> \<open>Arc_Scenarios\<close> (\<open>scenario.go\<close>): the benchmark generators yield requests that the planner accepts.

  \<^bold>\<open>Providers.\<close>
  \<^item> \<open>Geo_Coord\<close>, \<open>Geo_Route\<close>, \<open>Route_Text\<close> (\<open>internal/geo\<close>): coordinate systems, distance, packets of a route (its legs,
    cut and overlapping by one point), the printed form of points.
  \<^item> \<open>Key_Pool\<close>, \<open>Key_Pool_Fair\<close>, \<open>Key_Pool_State\<close>, \<open>Key_Pool_Rates\<close> (\<open>internal/loadbalance\<close>): invariant of reachable pools,
    fairness of the weighted round robin, bounds of the rates.
  \<^item> \<open>Key_Attempts\<close>, \<open>Amap_Provider\<close> (\<open>amap.go\<close>): the retry loop over a key source (a locale) and its interpretation on the key
    pool; responses become steps along the legs of the route.
  \<^item> \<open>Route_Types\<close> (\<open>provider.go\<close>, \<open>registry.go\<close>): steps, requests, the registry, and the contract of a provider
    (\<open>route_provider\<close>); \<open>Batch_Planner\<close> (\<open>planner.go\<close>) rests on it.
  \<^item> \<open>Stub_Provider\<close> (\<open>testutil/fixtures.go\<close>): the tests' provider keeps the same contracts.

  \<^bold>\<open>Storage.\<close>
  \<^item> \<open>Cache_Keys\<close>, \<open>Time_Slots\<close>, \<open>Edge_Store\<close> (\<open>internal/cache\<close>): keys are injective for at most twelve digits, slots are well
    formed, a strict read returns what was written.
  \<^item> \<open>Edge_Archive\<close>, \<open>Mysql_Archive\<close>, \<open>Mysql_Open\<close> (\<open>internal/persist\<close>): the archive as a locale with the memory archive as
    its model, the asynchronous writer as a state machine that refines a synchronous archive, rows and queries of
    MySQL, opening with its error paths.
  \<^item> \<open>Mysql_Table\<close>: MySQL is that archive, too, when its table keeps the contract of its unique key (\<open>mysql_table\<close>), so a
    strict read answers what the memory archive would.

  \<^bold>\<open>The engine and the service.\<close>
  \<^item> \<open>Matrix_Engine\<close> is \<open>engine.go\<close>; \<open>Matrix_Entries\<close> shows where the entries of a matrix come from; \<open>Matrix_Calls\<close> shows
    that \<open>Compute\<close> returns and what a cold matrix costs, from the contracts of the planner and of a provider that answers
    every leg (\<open>full_provider\<close>).
  \<^item> \<open>Edge_Memory\<close>: what the engine needs of a memory for edges (\<open>edge_memory\<close>). \<open>Matrix_Retry\<close>: the Redis store as such a
    memory (\<open>live_cache\<close>; with the numbers, \<open>exact_cache\<close>), with or without an archive and a writer behind it; a strict retry
    calls no provider and returns the same matrix.
  \<^item> \<open>Rate_Limit\<close> (\<open>middleware/limit.go\<close>): the limiter grants at most twice its limit in a second.
  \<^item> \<open>Service_Context\<close> (\<open>config.go\<close>, \<open>servicecontext.go\<close>) binds the parameters of the engine to the models of the
    components; \<open>Matrix_Service\<close> (\<open>handler\<close>, \<open>types.go\<close>, \<open>metrics.go\<close>, \<open>matrix.go\<close>) is the running server: every sequence of
    bounded requests is answered.
  \<^item> \<open>Key_Simulation\<close>, \<open>Ddl_Script\<close> (\<open>scripts\<close>): simulated traffic on a key pool, the script that captures the SQL of a
    migration.

  \<^bold>\<open>Bounds.\<close> Plans need fewer than \<open>2 ^ 32\<close> vertices and at most \<open>2 ^ 32\<close> arcs, so that numbers fit into 32 bits; a matrix of at
  most \<open>2 ^ 16\<close> points has no more arcs than that. Methods and strategies are below \<open>10 ^ 12\<close>, because the program's
  own \<open>itoa\<close> has a buffer of twelve characters. No definition takes fuel: loops are structural or have a measure, and for
  those given by \<open>partial_function (option)\<close> (the dense loop, the packing loop, sifting, popping, union-find) the
  theorems show that the result is not \<open>None\<close>.

  \<^bold>\<open>Concurrency.\<close> Operations under a mutex are single steps. The goroutines of the batch planner run as atomic steps in any
  order; the writer's worker is a transition that may happen between any two others. Calls that leave the program may
  change the whole state of the service, which covers other requests that run meanwhile, but two requests do not
  interleave inside the program.

  \<^bold>\<open>Not modelled.\<close> Floating-point rounding beyond the \<open>float32\<close> conversions; elapsed times in statistics and logging;
  how \<open>fmt\<close> prints a number and \<open>time\<close> an instant (parameters of \<open>Route_Text\<close>); the text of URLs, JSON and
  log lines; go-zero itself (parsing of requests, loading of the configuration with its default values, the server
  loop); \<open>SetupRedis\<close>, which starts a third-party server; the console output of the scripts, the flags of the simulation, and
  \<open>probeGoodKeyQPSFail\<close>, whose counters are subject to data races. Tests under \<open>src/test\<close> and \<open>_test.go\<close> files are
  not part of the program.
\<close>

end
